(* ===== verification/Prelude.thy ===== *)
theory Prelude
  imports Main "HOL-Library.Word" "HOL-Library.FSet" "HOL-Library.Finite_Map"
    "HOL-Library.Char_ord" "HOL-Library.List_Lexorder" "HOL-Library.Product_Lexorder"
    "HOL-Library.Multiset"
begin

text \<open>
  Shared vocabulary of the development: the machine types of the Rust sources, the standard
  library's \<open>sort\<close>/\<open>dedup\<close> idiom, a few facts on finite maps, and the interface of a
  state-based replicated type (a join semilattice on a carrier).  A Rust \<open>String\<close> is modelled
  by its UTF-8 bytes, a list of 8-bit \<open>char\<close>s, ordered byte-wise as Rust orders strings.
\<close>

type_synonym u8 = "8 word"
type_synonym u32 = "32 word"
type_synonym u64 = "64 word"
type_synonym bytes = "u8 list"

named_theorems crdt_simps \<open>defining equations of the replicated fields\<close>
named_theorems dag_simps \<open>defining equations of the delta DAG\<close>
named_theorems doc_simps \<open>defining equations of the document operations\<close>

subsection \<open>Sorting with removal of duplicates\<close>

definition sort_dedup :: "'a::linorder list \<Rightarrow> 'a list" where
  "sort_dedup xs = remdups_adj (sort xs)"

lemma sorted_remdups_adj_distinct: "sorted xs \<Longrightarrow> distinct (remdups_adj xs)"
  by (induction xs rule: remdups_adj.induct) (auto simp: le_less_trans)

lemma sort_dedup_eq: "sort_dedup xs = sorted_list_of_set (set xs)"
proof -
  have "sorted (sort_dedup xs)" "distinct (sort_dedup xs)"
    by (auto simp: sort_dedup_def sorted_remdups_adj sorted_remdups_adj_distinct)
  moreover have "set (sort_dedup xs) = set xs"
    by (simp add: sort_dedup_def)
  ultimately show ?thesis
    by (metis sorted_list_of_set.idem_if_sorted_distinct)
qed

lemma set_sort_dedup [simp]: "set (sort_dedup xs) = set xs"
  by (simp add: sort_dedup_def)

lemma sorted_sort_dedup [simp]: "sorted (sort_dedup xs)"
  by (simp add: sort_dedup_def sorted_remdups_adj)

lemma distinct_sort_dedup [simp]: "distinct (sort_dedup xs)"
  by (simp add: sort_dedup_def sorted_remdups_adj_distinct)

lemma sort_dedup_cong: "set xs = set ys \<Longrightarrow> sort_dedup xs = sort_dedup ys"
  by (simp add: sort_dedup_eq)

lemma sort_dedup_idem [simp]: "sort_dedup (sort_dedup xs) = sort_dedup xs"
  by (simp add: sort_dedup_eq)

lemma sort_dedup_Nil_iff [simp]: "sort_dedup xs = [] \<longleftrightarrow> xs = []"
  by (metis set_sort_dedup set_empty)

lemma sort_dedup_id: "sorted xs \<Longrightarrow> distinct xs \<Longrightarrow> sort_dedup xs = xs"
  by (simp add: sort_dedup_eq sorted_list_of_set.idem_if_sorted_distinct)

subsection \<open>Finite maps\<close>

lemma fmap_eqI: "(\<And>k. fmlookup m k = fmlookup n k) \<Longrightarrow> m = n"
  by (rule fmap_ext)

text \<open>
  A loop over the entries of a map in key order, whose body only touches the slot of its own key,
  acts on every slot independently.
\<close>

lemma distinct_fst_sorted_list_of_fmap [simp]: "distinct (map fst (sorted_list_of_fmap m))"
  by (simp add: sorted_list_of_fmap_def o_def sorted_list_of_fset.rep_eq)

lemma fold_slotwise_list:
  assumes "\<And>k v m k'. fmlookup (g (k, v) m) k' = (if k' = k then h k v (fmlookup m k) else fmlookup m k')"
    and "distinct (map fst xs)"
  shows "fmlookup (fold g xs m) k =
    (case map_of xs k of None \<Rightarrow> fmlookup m k | Some v \<Rightarrow> h k v (fmlookup m k))"
  using assms(2)
proof (induction xs arbitrary: m)
  case (Cons x xs)
  obtain a v where x: "x = (a, v)" by fastforce
  have IH: "fmlookup (fold g xs (g x m)) k =
      (case map_of xs k of None \<Rightarrow> fmlookup (g x m) k | Some w \<Rightarrow> h k w (fmlookup (g x m) k))"
    by (rule Cons.IH) (use Cons.prems in simp)
  have "map_of xs a = None"
    using Cons.prems x by (simp add: map_of_eq_None_iff)
  with IH x assms(1) [of a v m k] show ?case
    by (cases "k = a") (auto split: option.split)
qed simp

lemma fold_slotwise:
  assumes "\<And>k v m k'. fmlookup (g (k, v) m) k' = (if k' = k then h k v (fmlookup m k) else fmlookup m k')"
  shows "fmlookup (fold g (sorted_list_of_fmap f) m) k =
    (case fmlookup f k of None \<Rightarrow> fmlookup m k | Some v \<Rightarrow> h k v (fmlookup m k))"
  using fold_slotwise_list [OF assms distinct_fst_sorted_list_of_fmap] by simp

subsection \<open>State-based replicated types\<close>

text \<open>
  The contract of a convergent replicated type: on the states that satisfy its invariant the
  merge is closed, associative, commutative and idempotent.  What a client gets from it is that
  merging any number of replica states gives one result, whatever the order of the exchanges and
  however often a state is received.
\<close>

locale join_semilattice =
  fixes carrier :: "'a \<Rightarrow> bool" and join :: "'a \<Rightarrow> 'a \<Rightarrow> 'a"
  assumes closed: "carrier x \<Longrightarrow> carrier y \<Longrightarrow> carrier (join x y)"
    and assoc: "carrier x \<Longrightarrow> carrier y \<Longrightarrow> carrier z \<Longrightarrow> join (join x y) z = join x (join y z)"
    and comm: "carrier x \<Longrightarrow> carrier y \<Longrightarrow> join x y = join y x"
    and idem: "carrier x \<Longrightarrow> join x x = x"
begin

lemma fold_closed: "carrier a \<Longrightarrow> \<forall>x\<in>set xs. carrier x \<Longrightarrow> carrier (fold (\<lambda>x a. join a x) xs a)"
  by (induction xs arbitrary: a) (auto intro: closed)

lemma fold_join: "carrier a \<Longrightarrow> carrier b \<Longrightarrow> \<forall>x\<in>set xs. carrier x \<Longrightarrow>
    fold (\<lambda>x a. join a x) xs (join a b) = join (fold (\<lambda>x a. join a x) xs a) b"
proof (induction xs arbitrary: a)
  case (Cons x xs)
  then have "join (join a b) x = join (join a x) b"
    by (metis assoc comm list.set_intros(1))
  with Cons show ?case by (simp add: closed)
qed simp

lemma absorb_member: "carrier a \<Longrightarrow> \<forall>x\<in>set xs. carrier x \<Longrightarrow> y \<in> set xs \<Longrightarrow>
    join (fold (\<lambda>x a. join a x) xs a) y = fold (\<lambda>x a. join a x) xs a"
proof (induction xs arbitrary: a)
  case (Cons x xs)
  show ?case
  proof (cases "y = x")
    case True
    with Cons.prems have "join (join a x) x = join a x"
      by (simp add: assoc idem closed)
    with Cons.prems True show ?thesis
      by (simp add: fold_join [symmetric] closed)
  next
    case False
    with Cons show ?thesis by (simp add: closed)
  qed
qed simp

text \<open>Replicas that merged the same set of states agree, whatever order and multiplicity.\<close>

lemma fold_set_cong:
  assumes "carrier a" "\<forall>x\<in>set xs. carrier x" "set xs = set ys"
  shows "fold (\<lambda>x a. join a x) xs a = fold (\<lambda>x a. join a x) ys a"
proof -
  let ?F = "\<lambda>zs. fold (\<lambda>x a. join a x) zs a"
  have absorb: "\<forall>x\<in>set zs. carrier x \<and> x \<in> set us \<Longrightarrow> \<forall>x\<in>set us. carrier x \<Longrightarrow>
      fold (\<lambda>x a. join a x) zs (?F us) = ?F us" for zs us
    by (induction zs) (auto simp: absorb_member assms(1))
  have swap: "\<forall>x\<in>set zs. carrier x \<Longrightarrow> \<forall>x\<in>set us. carrier x \<Longrightarrow>
      fold (\<lambda>x a. join a x) zs (?F us) = fold (\<lambda>x a. join a x) us (?F zs)" for zs us
  proof (induction zs)
    case (Cons z zs)
    then have "fold (\<lambda>x a. join a x) zs (join (?F us) z)
        = join (fold (\<lambda>x a. join a x) us (?F zs)) z"
      by (simp add: fold_join fold_closed assms(1))
    also have "\<dots> = fold (\<lambda>x a. join a x) us (join (?F zs) z)"
      using Cons.prems by (simp add: fold_join fold_closed assms(1))
    also have "join (?F zs) z = ?F (z # zs)"
      using Cons.prems by (simp add: fold_join assms(1))
    finally show ?case by simp
  qed simp
  have "?F ys = fold (\<lambda>x a. join a x) xs (?F ys)"
    using absorb [of xs ys] assms by simp
  also have "\<dots> = fold (\<lambda>x a. join a x) ys (?F xs)"
    using swap [of xs ys] assms by simp
  also have "\<dots> = ?F xs"
    using absorb [of ys xs] assms by simp
  finally show ?thesis by simp
qed

end

section \<open>Invariants of steps\<close>

text \<open>A property that every step keeps holds after every run.\<close>

locale step_invariant =
  fixes step :: "'z \<Rightarrow> 'z \<Rightarrow> bool"
    and inv :: "'z \<Rightarrow> bool"
  assumes step_inv: "step z z' \<Longrightarrow> inv z \<Longrightarrow> inv z'"
begin

lemma run_inv: "step\<^sup>*\<^sup>* z z' \<Longrightarrow> inv z \<Longrightarrow> inv z'"
  by (induction rule: rtranclp_induct) (auto intro: step_inv)

end

end
