(* ===== verification/Hlc.thy ===== *)
theory Hlc
  imports Prelude
begin

text \<open>
  The hybrid logical clock of \<open>src/core/hlc.rs\<close>: timestamps with their derived lexicographic
  order, advance-on-send and advance-on-receive.  The counters keep their machine widths and
  \<open>+ 1\<close> wraps, as it does in the release profile of the crate (overflow checks are off there).
\<close>

section \<open>Timestamps\<close>

datatype hlc_timestamp = HlcTimestamp (wall_ms: u64) (logical: u32) (node_id: u64)

definition hlc_default :: hlc_timestamp where
  "hlc_default = HlcTimestamp 0 0 0"

abbreviation hlc_key :: "hlc_timestamp \<Rightarrow> u64 \<times> u32 \<times> u64" where
  "hlc_key t \<equiv> (wall_ms t, logical t, node_id t)"

lemma hlc_key_inject: "hlc_key s = hlc_key t \<longleftrightarrow> s = t"
  by (auto intro: hlc_timestamp.expand)

text \<open>The derived \<open>Ord\<close>: wall time, then logical counter, then node identifier.\<close>

instantiation hlc_timestamp :: linorder
begin

definition less_eq_hlc_timestamp :: "hlc_timestamp \<Rightarrow> hlc_timestamp \<Rightarrow> bool" where
  "less_eq_hlc_timestamp s t \<longleftrightarrow> hlc_key s \<le> hlc_key t"

definition less_hlc_timestamp :: "hlc_timestamp \<Rightarrow> hlc_timestamp \<Rightarrow> bool" where
  "less_hlc_timestamp s t \<longleftrightarrow> hlc_key s < hlc_key t"

instance
proof
  fix r s t :: hlc_timestamp
  show "s < t \<longleftrightarrow> s \<le> t \<and> \<not> t \<le> s"
    unfolding less_eq_hlc_timestamp_def less_hlc_timestamp_def by (rule less_le_not_le)
  show "s \<le> s"
    unfolding less_eq_hlc_timestamp_def by (rule order_refl)
  show "r \<le> s \<Longrightarrow> s \<le> t \<Longrightarrow> r \<le> t"
    unfolding less_eq_hlc_timestamp_def by (rule order_trans)
  show "s \<le> t \<Longrightarrow> t \<le> s \<Longrightarrow> s = t"
    unfolding less_eq_hlc_timestamp_def using hlc_key_inject antisym by blast
  show "s \<le> t \<or> t \<le> s"
    unfolding less_eq_hlc_timestamp_def by (rule linear)
qed

end

lemma hlc_less_iff:
  "s < t \<longleftrightarrow> wall_ms s < wall_ms t
     \<or> wall_ms s = wall_ms t \<and> (logical s < logical t
     \<or> logical s = logical t \<and> node_id s < node_id t)"
  by (auto simp: less_hlc_timestamp_def less_prod_def' less_le_not_le)

lemma hlc_default_least: "hlc_default \<le> t"
  by (cases t) (auto simp: less_eq_hlc_timestamp_def hlc_default_def less_eq_prod_def word_greater_zero_iff)

section \<open>The clock\<close>

record hlc =
  hlc_last :: hlc_timestamp

definition hlc_new :: "u64 \<Rightarrow> u64 \<Rightarrow> hlc" where
  "hlc_new now_ms node = \<lparr>hlc_last = HlcTimestamp now_ms 0 node\<rparr>"

definition advance_send :: "hlc \<Rightarrow> u64 \<Rightarrow> hlc_timestamp \<times> hlc" where
  "advance_send c now_ms =
     (let l = hlc_last c;
          wall = max now_ms (wall_ms l);
          lg = (if wall = wall_ms l then logical l + 1 else 0);
          t = HlcTimestamp wall lg (node_id l)
      in (t, c\<lparr>hlc_last := t\<rparr>))"

definition advance_recv :: "hlc \<Rightarrow> hlc_timestamp \<Rightarrow> u64 \<Rightarrow> hlc_timestamp \<times> hlc" where
  "advance_recv c remote now_ms =
     (let l = hlc_last c;
          wall = max (max now_ms (wall_ms l)) (wall_ms remote);
          lg = (if wall = wall_ms l \<and> wall = wall_ms remote
                then max (logical l) (logical remote) + 1
                else if wall = wall_ms l then logical l + 1
                else if wall = wall_ms remote then logical remote + 1
                else 0);
          t = HlcTimestamp wall lg (node_id l)
      in (t, c\<lparr>hlc_last := t\<rparr>))"

text \<open>The clock source is read once per call; its reading is an argument.\<close>

definition hlc_send :: "hlc \<Rightarrow> u64 \<Rightarrow> hlc_timestamp \<times> hlc" where
  "hlc_send c wall_now = advance_send c wall_now"

definition hlc_recv :: "hlc \<Rightarrow> hlc_timestamp \<Rightarrow> u64 \<Rightarrow> hlc_timestamp \<times> hlc" where
  "hlc_recv c remote wall_now = advance_recv c remote wall_now"

datatype hlc_event = Send u64 | Recv hlc_timestamp u64

fun hlc_step :: "hlc \<Rightarrow> hlc_event \<Rightarrow> hlc_timestamp \<times> hlc" where
  "hlc_step c (Send now) = hlc_send c now"
| "hlc_step c (Recv r now) = hlc_recv c r now"

fun hlc_run :: "hlc \<Rightarrow> hlc_event list \<Rightarrow> hlc_timestamp list" where
  "hlc_run c [] = []"
| "hlc_run c (e # es) = (case hlc_step c e of (t, c') \<Rightarrow> t # hlc_run c' es)"

text \<open>The event does not exhaust the 32-bit logical counter.\<close>

fun counter_room :: "hlc \<Rightarrow> hlc_event \<Rightarrow> bool" where
  "counter_room c (Send now) \<longleftrightarrow> logical (hlc_last c) \<noteq> 0xFFFFFFFF"
| "counter_room c (Recv r now) \<longleftrightarrow> logical (hlc_last c) \<noteq> 0xFFFFFFFF \<and> logical r \<noteq> 0xFFFFFFFF"

fun counter_room_run :: "hlc \<Rightarrow> hlc_event list \<Rightarrow> bool" where
  "counter_room_run c [] \<longleftrightarrow> True"
| "counter_room_run c (e # es) \<longleftrightarrow>
     counter_room c e \<and> counter_room_run (snd (hlc_step c e)) es"

section \<open>Monotonicity\<close>

lemma u32_succ_greater: "(x::u32) \<noteq> 0xFFFFFFFF \<Longrightarrow> x < x + 1"
proof -
  assume "x \<noteq> 0xFFFFFFFF"
  then have "unat x \<noteq> unat (0xFFFFFFFF :: u32)" by (simp only: word_unat_eq_iff) simp
  moreover have "unat x < 2 ^ 32" using unsigned_less [of x] by simp
  ultimately show ?thesis by (simp add: word_less_nat_alt unat_word_ariths)
qed

lemma u32_max_wraps: "(0xFFFFFFFF :: u32) + 1 = 0"
  by simp

lemma send_greater:
  assumes "counter_room c (Send now)" "hlc_send c now = (t, c')"
  shows "hlc_last c < t" "hlc_last c' = t" "node_id t = node_id (hlc_last c)" "now \<le> wall_ms t"
  using assms u32_succ_greater [of "logical (hlc_last c)"]
  by (auto simp: hlc_send_def advance_send_def Let_def hlc_less_iff max_def not_le split: if_splits)

lemma recv_greater:
  assumes "counter_room c (Recv r now)" "hlc_recv c r now = (t, c')"
  shows "hlc_last c < t" "r < t" "hlc_last c' = t" "node_id t = node_id (hlc_last c)"
    "now \<le> wall_ms t"
  using assms u32_succ_greater [of "logical (hlc_last c)"] u32_succ_greater [of "logical r"]
  by (auto simp: hlc_recv_def advance_recv_def Let_def hlc_less_iff max_def not_le split: if_splits)

lemma hlc_step_greater:
  assumes "counter_room c e" "hlc_step c e = (t, c')"
  shows "hlc_last c < t \<and> hlc_last c' = t \<and> node_id t = node_id (hlc_last c)"
  using assms by (cases e) (auto simp: send_greater recv_greater simp del: counter_room.simps)

lemma hlc_run_above:
  assumes "counter_room_run c es"
  shows "sorted_wrt (<) (hlc_last c # hlc_run c es)
    \<and> (\<forall>t\<in>set (hlc_run c es). node_id t = node_id (hlc_last c))"
  using assms
proof (induction es arbitrary: c)
  case (Cons e es)
  obtain t c' where st: "hlc_step c e = (t, c')" by force
  with Cons.prems have r: "counter_room c e" "counter_room_run c' es" by auto
  note g = hlc_step_greater [OF r(1) st]
  from Cons.IH [OF r(2)] g show ?case
    by (auto simp: st intro: less_trans)
qed simp

section \<open>Properties\<close>

text \<open>C35: every timestamp a clock issues, for local sends and for receipts in any mix, is
  strictly greater than all it issued before and carries the clock's node identifier, as long
  as no event meets an exhausted 32-bit counter; so one clock never issues a timestamp twice.\<close>

theorem hlc_run_strictly_increasing:
  assumes "counter_room_run c es"
  shows "sorted_wrt (<) (hlc_last c # hlc_run c es) \<and> distinct (hlc_run c es)
    \<and> (\<forall>t\<in>set (hlc_run c es). node_id t = node_id (hlc_last c))"
proof -
  note a = hlc_run_above [OF assms]
  then have "sorted_wrt (<) (hlc_run c es)" by simp
  then have "distinct (hlc_run c es)" by (simp add: strict_sorted_iff)
  with a show ?thesis by blast
qed

theorem hlc_run_strictly_increasing_witness:
  "sorted_wrt (<) (HlcTimestamp 5 0 7 # hlc_run (hlc_new 5 7) [Send 3, Recv (HlcTimestamp 9 4 1) 6, Send 9])"
proof -
  have "counter_room_run (hlc_new 5 7) [Send 3, Recv (HlcTimestamp 9 4 1) 6, Send 9]"
    by code_simp
  from hlc_run_strictly_increasing [OF this] show ?thesis by (simp add: hlc_new_def)
qed

text \<open>On receipt of a remote timestamp the clock moves strictly past both its own last
  timestamp and the remote one, and never behind the wall clock.\<close>

theorem recv_dominates:
  assumes "logical (hlc_last c) \<noteq> 0xFFFFFFFF" "logical remote \<noteq> 0xFFFFFFFF"
  shows "hlc_last c < fst (hlc_recv c remote now) \<and> remote < fst (hlc_recv c remote now)
    \<and> now \<le> wall_ms (fst (hlc_recv c remote now))
    \<and> hlc_last (snd (hlc_recv c remote now)) = fst (hlc_recv c remote now)"
proof -
  obtain t c' where st: "hlc_recv c remote now = (t, c')" by force
  have "counter_room c (Recv remote now)" using assms by simp
  note g = recv_greater [OF this st]
  show ?thesis unfolding st fst_conv snd_conv by (intro conjI g)
qed

theorem recv_dominates_witness:
  "HlcTimestamp 9 4 1 < fst (hlc_recv (hlc_new 5 7) (HlcTimestamp 9 4 1) 6)"
proof -
  have "logical (hlc_last (hlc_new 5 7)) \<noteq> 0xFFFFFFFF" "logical (HlcTimestamp 9 4 1) \<noteq> 0xFFFFFFFF"
    by (simp_all add: hlc_new_def)
  from recv_dominates [OF this] show ?thesis by blast
qed

text \<open>the bound is needed.  A clock whose logical counter is exhausted within one wall tick
  goes back: the counter wraps to zero and the timestamp it issues is below the one before,
  although the documentation of \<open>send\<close> promises a strictly greater one.  A single received
  timestamp with a nearly exhausted counter brings a clock into that state.\<close>

theorem send_wraps_below_last:
  assumes "logical (hlc_last c) = 0xFFFFFFFF" "now \<le> wall_ms (hlc_last c)"
  shows "fst (hlc_send c now) < hlc_last c"
proof -
  have "hlc_send c now = (HlcTimestamp (wall_ms (hlc_last c)) 0 (node_id (hlc_last c)),
      c\<lparr>hlc_last := HlcTimestamp (wall_ms (hlc_last c)) 0 (node_id (hlc_last c))\<rparr>)"
    using assms by (simp add: hlc_send_def advance_send_def max_def Let_def)
  then show ?thesis using assms(1) by (simp add: hlc_less_iff)
qed

theorem send_wraps_below_last_witness:
  "fst (hlc_send (snd (hlc_recv (hlc_new 5 7) (HlcTimestamp 9 0xFFFFFFFE 1) 6)) 8)
    < HlcTimestamp 9 0xFFFFFFFF 7"
proof -
  have l: "hlc_last (snd (hlc_recv (hlc_new 5 7) (HlcTimestamp 9 0xFFFFFFFE 1) 6))
      = HlcTimestamp 9 0xFFFFFFFF 7"
    by code_simp
  show ?thesis
    using send_wraps_below_last [of "snd (hlc_recv (hlc_new 5 7) (HlcTimestamp 9 0xFFFFFFFE 1) 6)" 8]
    unfolding l by simp
qed

end
