(* ===== verification/Types.thy ===== *)
theory Types
  imports Hlc
begin

text \<open>
  The data of the pure core: JSON values (\<open>serde_json::Value\<close>), DIDs, signature suites,
  verification relationships, delta operations, proofs and signed deltas (\<open>src/core/delta.rs\<close>),
  the entries and registers of the replicated fields (\<open>src/core/crdt.rs\<close>) and the error type
  (\<open>src/core/mod.rs\<close>).  Types that the sources order with \<open>derive(Ord)\<close> get their order here.
\<close>

section \<open>JSON values\<close>

datatype json_number = PosInt u64 | NegInt u64 | Float u64

datatype json =
    JNull
  | JBool bool
  | JNumber json_number
  | JString string
  | JArray "json list"
  | JObject "(string \<times> json) list"

section \<open>Identifiers, suites, relationships\<close>

datatype did = Did (did_str: string)

datatype suite_type = Ed25519Signature2020 | EcdsaSecp256k1Signature2019

definition suite_default :: suite_type where
  "suite_default = Ed25519Signature2020"

fun verification_method_type :: "suite_type \<Rightarrow> string" where
  "verification_method_type Ed25519Signature2020 = ''Ed25519VerificationKey2020''"
| "verification_method_type EcdsaSecp256k1Signature2019 = ''EcdsaSecp256k1VerificationKey2019''"

datatype verification_relationship =
    Authentication
  | AssertionMethod
  | KeyAgreement
  | CapabilityInvocation
  | CapabilityDelegation

definition default_relationships :: "verification_relationship list" where
  "default_relationships = [Authentication]"

text \<open>A derived order on an enumeration is the order of its variants.\<close>

fun suite_rank :: "suite_type \<Rightarrow> nat" where
  "suite_rank Ed25519Signature2020 = 0"
| "suite_rank EcdsaSecp256k1Signature2019 = 1"

fun relationship_rank :: "verification_relationship \<Rightarrow> nat" where
  "relationship_rank Authentication = 0"
| "relationship_rank AssertionMethod = 1"
| "relationship_rank KeyAgreement = 2"
| "relationship_rank CapabilityInvocation = 3"
| "relationship_rank CapabilityDelegation = 4"

lemma suite_rank_inject: "suite_rank x = suite_rank y \<longleftrightarrow> x = y"
  by (cases x; cases y) auto

lemma relationship_rank_inject: "relationship_rank x = relationship_rank y \<longleftrightarrow> x = y"
  by (cases x; cases y) auto

instantiation suite_type :: linorder
begin

definition less_eq_suite_type :: "suite_type \<Rightarrow> suite_type \<Rightarrow> bool" where
  "less_eq_suite_type x y \<longleftrightarrow> suite_rank x \<le> suite_rank y"

definition less_suite_type :: "suite_type \<Rightarrow> suite_type \<Rightarrow> bool" where
  "less_suite_type x y \<longleftrightarrow> suite_rank x < suite_rank y"

instance
  by standard (auto simp: less_eq_suite_type_def less_suite_type_def suite_rank_inject)

end

instantiation verification_relationship :: linorder
begin

definition less_eq_verification_relationship ::
    "verification_relationship \<Rightarrow> verification_relationship \<Rightarrow> bool" where
  "less_eq_verification_relationship x y \<longleftrightarrow> relationship_rank x \<le> relationship_rank y"

definition less_verification_relationship ::
    "verification_relationship \<Rightarrow> verification_relationship \<Rightarrow> bool" where
  "less_verification_relationship x y \<longleftrightarrow> relationship_rank x < relationship_rank y"

instance
  by standard
    (auto simp: less_eq_verification_relationship_def less_verification_relationship_def
      relationship_rank_inject)

end

section \<open>Deltas\<close>

datatype delta_hash = DeltaHash (hash_str: string)

instantiation delta_hash :: linorder
begin

definition less_eq_delta_hash :: "delta_hash \<Rightarrow> delta_hash \<Rightarrow> bool" where
  "less_eq_delta_hash g h \<longleftrightarrow> hash_str g \<le> hash_str h"

definition less_delta_hash :: "delta_hash \<Rightarrow> delta_hash \<Rightarrow> bool" where
  "less_delta_hash g h \<longleftrightarrow> hash_str g < hash_str h"

instance
  by standard (auto simp: less_eq_delta_hash_def less_delta_hash_def intro: delta_hash.expand)

end

datatype delta_op =
    AddVerificationMethod string string suite_type "verification_relationship list"
  | AddServiceEndpoint string string string
  | RemoveServiceEndpoint string
  | SetAlsoKnownAs "string list"
  | SetDocumentData string json
  | RotateKey u64 string
  | RevokeCredential string
  | RevokeVerificationMethod string
  | Deactivate

record delta_proof =
  pr_suite :: suite_type
  pr_verification_method :: string
  pr_created :: string
  pr_proof_value :: string

record signed_delta =
  sd_did :: did
  sd_timestamp :: hlc_timestamp
  sd_op :: delta_op
  sd_parents :: "delta_hash list"
  sd_proof :: delta_proof

text \<open>Everything the signature and the content hash cover: the delta without its proof.\<close>

definition payload :: "signed_delta \<Rightarrow> did \<times> hlc_timestamp \<times> delta_op \<times> delta_hash list" where
  "payload d = (sd_did d, sd_timestamp d, sd_op d, sd_parents d)"

section \<open>Entries and registers of the replicated fields\<close>

datatype verification_method_entry =
  VerificationMethodEntry (vme_id: string) (vme_public_key_multibase: string)
    (vme_suite_type: suite_type) (vme_relationships: "verification_relationship list")

abbreviation vme_key ::
    "verification_method_entry \<Rightarrow> string \<times> string \<times> suite_type \<times> verification_relationship list" where
  "vme_key e \<equiv> (vme_id e, vme_public_key_multibase e, vme_suite_type e, vme_relationships e)"

lemma vme_key_inject: "vme_key x = vme_key y \<longleftrightarrow> x = y"
  by (auto intro: verification_method_entry.expand)

instantiation verification_method_entry :: linorder
begin

definition less_eq_verification_method_entry ::
    "verification_method_entry \<Rightarrow> verification_method_entry \<Rightarrow> bool" where
  "less_eq_verification_method_entry x y \<longleftrightarrow> vme_key x \<le> vme_key y"

definition less_verification_method_entry ::
    "verification_method_entry \<Rightarrow> verification_method_entry \<Rightarrow> bool" where
  "less_verification_method_entry x y \<longleftrightarrow> vme_key x < vme_key y"

instance
proof
  fix x y z :: verification_method_entry
  show "x < y \<longleftrightarrow> x \<le> y \<and> \<not> y \<le> x"
    unfolding less_eq_verification_method_entry_def less_verification_method_entry_def
    by (rule less_le_not_le)
  show "x \<le> x"
    unfolding less_eq_verification_method_entry_def by (rule order_refl)
  show "x \<le> y \<Longrightarrow> y \<le> z \<Longrightarrow> x \<le> z"
    unfolding less_eq_verification_method_entry_def by (rule order_trans)
  show "x \<le> y \<Longrightarrow> y \<le> x \<Longrightarrow> x = y"
    unfolding less_eq_verification_method_entry_def using vme_key_inject antisym by blast
  show "x \<le> y \<or> y \<le> x"
    unfolding less_eq_verification_method_entry_def by (rule linear)
qed

end

datatype service_entry =
  ServiceEntry (se_id: string) (se_service_type: string) (se_endpoint: string)

text \<open>The tag of an add event is the timestamp of the delta that carried it.\<close>

type_synonym dot = hlc_timestamp

text \<open>The state of \<open>ServiceEndpoints\<close>: the live add events and the version vector.\<close>

record service_endpoints =
  svc_live :: "(dot, service_entry) fmap"
  svc_context :: "(u64, dot) fmap"

text \<open>The public fields of \<open>crdts::LWWReg\<close>, which the sources build and read directly.\<close>

record ('v, 'm) lww_reg =
  lww_val :: 'v
  lww_marker :: 'm

datatype active_key_marker = ActiveKeyMarker (akm_seq: u64) (akm_key_hash: bytes)

instantiation active_key_marker :: linorder
begin

definition less_eq_active_key_marker :: "active_key_marker \<Rightarrow> active_key_marker \<Rightarrow> bool" where
  "less_eq_active_key_marker a b \<longleftrightarrow> (akm_seq a, akm_key_hash a) \<le> (akm_seq b, akm_key_hash b)"

definition less_active_key_marker :: "active_key_marker \<Rightarrow> active_key_marker \<Rightarrow> bool" where
  "less_active_key_marker a b \<longleftrightarrow> (akm_seq a, akm_key_hash a) < (akm_seq b, akm_key_hash b)"

instance
proof
  fix x y z :: active_key_marker
  show "x < y \<longleftrightarrow> x \<le> y \<and> \<not> y \<le> x"
    unfolding less_eq_active_key_marker_def less_active_key_marker_def by (rule less_le_not_le)
  show "x \<le> x"
    unfolding less_eq_active_key_marker_def by (rule order_refl)
  show "x \<le> y \<Longrightarrow> y \<le> z \<Longrightarrow> x \<le> z"
    unfolding less_eq_active_key_marker_def by (rule order_trans)
  show "x \<le> y \<Longrightarrow> y \<le> x \<Longrightarrow> x = y"
    unfolding less_eq_active_key_marker_def by (metis active_key_marker.expand antisym prod.inject)
  show "x \<le> y \<or> y \<le> x"
    unfolding less_eq_active_key_marker_def by (rule linear)
qed

end

type_synonym value_reg = "(json, hlc_timestamp) lww_reg"
type_synonym key_reg = "(string option, active_key_marker) lww_reg"
type_synonym uris_reg = "(string list, hlc_timestamp) lww_reg"

section \<open>Errors\<close>

text \<open>
  The error type of the core.  Where the sources format a message into an error, the model has
  one constructor per message with the values that the message interpolates.
\<close>

datatype reject_reason =
    RR_DidMismatch
  | RR_Deactivated
  | RR_GenesisOpNotAllowed
  | RR_SignerNotAuthorised
  | RR_StaleRotation
  | RR_Revoked
  | RR_BadSignature
  | RR_TooLarge

datatype unauthorised_msg =
    CausallyUnauthorised reject_reason
  | SignerUnknown string
  | SignerRevokedImported string
  | SignerRevoked string
  | VerificationMethodNotFound string
  | NodeIdMismatch u64 u64
  | OnlyAddVmOnGenesis

datatype rejected_msg =
    DidMismatchMsg did did
  | TooManyAliases nat
  | AliasLength nat
  | AliasNoScheme string
  | AliasBadScheme string
  | AliasBadBody string
  | ReservedProperty string
  | ParentsNotCanonical
  | DeactivatedImported
  | DeactivatedDocument
  | MergeDifferentDids did did
  | EmptyHistory
  | NoClosureHistory
  | MissingTarget delta_hash
  | DanglingParent delta_hash
  | ParentCycle
  | MissingDelta delta_hash

datatype error =
    InvalidDid string
  | InvalidSignature
  | Unauthorised unauthorised_msg
  | Serialisation
  | DeltaRejected rejected_msg
  | DeltaPending "delta_hash list"
  | DeltaTooLarge nat nat

type_synonym 'a result = "error + 'a"

end
