(* ===== verification/Externs.thy ===== *)
theory Externs
  imports Types
begin

text \<open>
  Code of other crates that the core calls.  It is not part of the repository, so it is a
  parameter of the model: one record whose fields are the functions the sources use, passed to
  every operation that reaches them.  What the sources rely on is stated as named predicates,
  which the theorems take as hypotheses; a reference instance shows that they can hold.

  \<^item> \<open>crdts\<close>: the grow-only set \<open>GSet\<close> and the last-writer-wins register \<open>LWWReg\<close>.
  \<^item> \<open>blake3\<close>: the hash and its hexadecimal rendering.
  \<^item> \<open>base64ct\<close>: URL-safe base64 without padding.
  \<^item> \<open>serde_json\<close>: the text of a scalar value, and the byte serialisation of the structures that
    are only measured or hashed as a whole.
  \<^item> \<open>ed25519-dalek\<close> and \<open>k256\<close>: key and signature decoding, signing and verification.
\<close>

record 'a gset_ops =
  gs_insert :: "'a fset \<Rightarrow> 'a \<Rightarrow> 'a fset"
  gs_contains :: "'a fset \<Rightarrow> 'a \<Rightarrow> bool"
  gs_read :: "'a fset \<Rightarrow> 'a fset"
  gs_merge :: "'a fset \<Rightarrow> 'a fset \<Rightarrow> 'a fset"

record ('v, 'm) lww_ops =
  lww_update :: "('v, 'm) lww_reg \<Rightarrow> 'v \<Rightarrow> 'm \<Rightarrow> ('v, 'm) lww_reg"
  lww_merge :: "('v, 'm) lww_reg \<Rightarrow> ('v, 'm) lww_reg \<Rightarrow> ('v, 'm) lww_reg"

text \<open>The tuples that \<open>resolve\<close> and \<open>content_hash\<close> of a document serialise before hashing.\<close>

type_synonym version_content =
  "string \<times> verification_method_entry list \<times> service_entry list \<times> (string \<times> json) list
   \<times> string list \<times> string list \<times> string list \<times> string option \<times> u64 \<times> bool"

type_synonym state_content =
  "did \<times> verification_method_entry fset \<times> service_endpoints \<times> (string, value_reg) fmap
   \<times> key_reg \<times> string fset \<times> string fset \<times> bool \<times> u64 option \<times> u64 option"

record externs =
  gset_vm :: "verification_method_entry gset_ops"
  gset_str :: "string gset_ops"
  lww_value :: "(json, hlc_timestamp) lww_ops"
  lww_key :: "(string option, active_key_marker) lww_ops"
  lww_uris :: "(string list, hlc_timestamp) lww_ops"
  blake3 :: "bytes \<Rightarrow> bytes"
  to_hex :: "bytes \<Rightarrow> string"
  b64_decode :: "string \<Rightarrow> bytes option"
  b64_encode :: "bytes \<Rightarrow> string"
  scalar_to_string :: "json \<Rightarrow> string"
  delta_to_vec :: "signed_delta \<Rightarrow> bytes option"
  seed_to_vec :: "hlc_timestamp \<times> delta_op \<times> string \<Rightarrow> bytes option"
  version_to_vec :: "version_content \<Rightarrow> bytes option"
  state_to_vec :: "state_content \<Rightarrow> bytes option"
  ed25519_key_ok :: "bytes \<Rightarrow> bool"
  ed25519_verify :: "bytes \<Rightarrow> bytes \<Rightarrow> bytes \<Rightarrow> bool"
  ed25519_sign :: "bytes \<Rightarrow> bytes \<Rightarrow> bytes"
  secp256k1_key_ok :: "bytes \<Rightarrow> bool"
  secp256k1_sig_ok :: "bytes \<Rightarrow> bool"
  secp256k1_verify :: "bytes \<Rightarrow> bytes \<Rightarrow> bytes \<Rightarrow> bool"
  secp256k1_sign :: "bytes \<Rightarrow> bytes \<Rightarrow> bytes"

section \<open>What the sources rely on\<close>

text \<open>\<open>GSet\<close>: insertion, membership, snapshot and union of a grow-only set.\<close>

definition gset_laws :: "'a gset_ops \<Rightarrow> bool" where
  "gset_laws g \<longleftrightarrow>
     (\<forall>s x. gs_insert g s x = finsert x s) \<and>
     (\<forall>s x. gs_contains g s x \<longleftrightarrow> x |\<in>| s) \<and>
     (\<forall>s. gs_read g s = s) \<and>
     (\<forall>s t. gs_merge g s t = s |\<union>| t)"

text \<open>
  \<open>LWWReg\<close>: an update with a later marker replaces the value, any other update is a no-op; the
  crate's merge keeps the register with the later marker and leaves a register merged with
  itself alone (with equal markers and different values its result is not documented).
\<close>

definition lww_laws :: "('v, 'm::linorder) lww_ops \<Rightarrow> bool" where
  "lww_laws l \<longleftrightarrow>
     (\<forall>r v m. lww_update l r v m =
        (if lww_marker r < m then \<lparr>lww_val = v, lww_marker = m\<rparr> else r)) \<and>
     (\<forall>r q. lww_marker r < lww_marker q \<longrightarrow> lww_merge l r q = q) \<and>
     (\<forall>r q. lww_marker q < lww_marker r \<longrightarrow> lww_merge l r q = r) \<and>
     (\<forall>r. lww_merge l r r = r)"

definition crdts_laws :: "externs \<Rightarrow> bool" where
  "crdts_laws E \<longleftrightarrow>
     gset_laws (gset_vm E) \<and> gset_laws (gset_str E) \<and>
     lww_laws (lww_value E) \<and> lww_laws (lww_key E) \<and> lww_laws (lww_uris E)"

definition is_ascii_hexdigit :: "char \<Rightarrow> bool" where
  "is_ascii_hexdigit c \<longleftrightarrow> c \<in> set ''0123456789abcdefABCDEF''"

text \<open>\<open>blake3\<close>: 32 bytes, rendered as 64 hexadecimal digits.\<close>

definition blake3_laws :: "externs \<Rightarrow> bool" where
  "blake3_laws E \<longleftrightarrow>
     (\<forall>b. length (blake3 E b) = 32) \<and>
     (\<forall>h. length h = 32 \<longrightarrow> length (to_hex E h) = 64 \<and> list_all is_ascii_hexdigit (to_hex E h))"

text \<open>
  \<open>serde_json\<close>: the text of a scalar ends before a structural character and determines the
  scalar, and it does not start like an array or an object.
\<close>

definition json_delim :: "string \<Rightarrow> bool" where
  "json_delim r \<longleftrightarrow> r = [] \<or> hd r \<in> set '',:]}''"

fun is_scalar :: "json \<Rightarrow> bool" where
  "is_scalar (JArray _) \<longleftrightarrow> False"
| "is_scalar (JObject _) \<longleftrightarrow> False"
| "is_scalar _ \<longleftrightarrow> True"

definition json_laws :: "externs \<Rightarrow> bool" where
  "json_laws E \<longleftrightarrow>
     (\<forall>v. is_scalar v \<longrightarrow> scalar_to_string E v \<noteq> [] \<and> hd (scalar_to_string E v) \<notin> set ''[]{},:'') \<and>
     (\<forall>v w r s. is_scalar v \<longrightarrow> is_scalar w \<longrightarrow> json_delim r \<longrightarrow> json_delim s \<longrightarrow>
        scalar_to_string E v @ r = scalar_to_string E w @ s \<longrightarrow> v = w \<and> r = s)"

lemma crdts_simps:
  assumes "crdts_laws E"
  shows "gs_insert (gset_vm E) s x = finsert x s"
    "gs_contains (gset_vm E) s x \<longleftrightarrow> x |\<in>| s"
    "gs_read (gset_vm E) s = s"
    "gs_merge (gset_vm E) s t = s |\<union>| t"
    "gs_insert (gset_str E) u y = finsert y u"
    "gs_contains (gset_str E) u y \<longleftrightarrow> y |\<in>| u"
    "gs_read (gset_str E) u = u"
    "gs_merge (gset_str E) u v = u |\<union>| v"
  using assms by (simp_all add: crdts_laws_def gset_laws_def)

lemma lww_laws_update:
  "lww_laws l \<Longrightarrow> lww_update l r v m = (if lww_marker r < m then \<lparr>lww_val = v, lww_marker = m\<rparr> else r)"
  by (simp add: lww_laws_def)

lemma lww_laws_merge:
  assumes "lww_laws l" "lww_marker r = lww_marker q \<Longrightarrow> r = q"
  shows "lww_merge l r q = (if lww_marker r < lww_marker q then q else r)"
  using assms by (cases "lww_marker r" "lww_marker q" rule: linorder_cases) (auto simp: lww_laws_def)

lemma crdts_lww:
  assumes "crdts_laws E"
  shows "lww_laws (lww_value E)" "lww_laws (lww_key E)" "lww_laws (lww_uris E)"
  using assms by (simp_all add: crdts_laws_def)

definition str_bytes :: "string \<Rightarrow> bytes" where
  "str_bytes s = map (\<lambda>c. word_of_nat (of_char c)) s"

lemma str_bytes_inject [simp]: "str_bytes s = str_bytes t \<longleftrightarrow> s = t"
proof -
  have "inj (\<lambda>c. word_of_nat (of_char c) :: u8)"
  proof (rule injI)
    fix a b :: char
    assume "(word_of_nat (of_char a) :: u8) = word_of_nat (of_char b)"
    then have "unat (word_of_nat (of_char a) :: u8) = unat (word_of_nat (of_char b) :: u8)" by simp
    then have "(of_char a :: nat) mod 256 = of_char b mod 256"
      by (simp add: unat_of_nat)
    then show "a = b" by simp
  qed
  then show ?thesis by (simp add: str_bytes_def inj_map_eq_map)
qed

section \<open>A reference instance\<close>

text \<open>
  A concrete instance that satisfies the laws, used to evaluate the model on examples.  Its hash
  keeps the last 32 bytes of its input; it is a stand-in for evaluation, not a model of BLAKE3.
\<close>

definition ref_gset :: "'a gset_ops" where
  "ref_gset = \<lparr>gs_insert = (\<lambda>s x. finsert x s), gs_contains = (\<lambda>s x. x |\<in>| s),
     gs_read = (\<lambda>s. s), gs_merge = (\<lambda>s t. s |\<union>| t)\<rparr>"

definition ref_lww :: "('v, 'm::linorder) lww_ops" where
  "ref_lww = \<lparr>lww_update = (\<lambda>r v m. if lww_marker r < m then \<lparr>lww_val = v, lww_marker = m\<rparr> else r),
     lww_merge = (\<lambda>r q. if lww_marker r < lww_marker q then q else r)\<rparr>"

definition ref_hash :: "bytes \<Rightarrow> bytes" where
  "ref_hash b = rev (take 32 (rev b @ replicate 32 0))"

definition hex_digit :: "nat \<Rightarrow> char" where
  "hex_digit n = ''0123456789abcdef'' ! n"

definition ref_hex :: "bytes \<Rightarrow> string" where
  "ref_hex b = concat (map (\<lambda>w. [hex_digit (unat w div 16), hex_digit (unat w mod 16)]) b)"

definition ref_number :: "json_number \<Rightarrow> string" where
  "ref_number n = (case n of PosInt w \<Rightarrow> CHR ''p'' # replicate (unat w) (CHR ''1'')
     | NegInt w \<Rightarrow> CHR ''n'' # replicate (unat w) (CHR ''1'')
     | Float w \<Rightarrow> CHR ''f'' # replicate (unat w) (CHR ''1''))"

definition ref_scalar :: "json \<Rightarrow> string" where
  "ref_scalar v = (case v of JNull \<Rightarrow> ''N'' | JBool b \<Rightarrow> (if b then ''T'' else ''F'')
     | JNumber n \<Rightarrow> ref_number n
     | JString s \<Rightarrow> CHR ''Q'' # concat (map (\<lambda>c. [CHR ''+'', c]) s) @ ''Q''
     | _ \<Rightarrow> ''?'')"

definition ref_externs :: externs where
  "ref_externs = \<lparr>gset_vm = ref_gset, gset_str = ref_gset, lww_value = ref_lww, lww_key = ref_lww,
     lww_uris = ref_lww, blake3 = ref_hash, to_hex = ref_hex,
     b64_decode = (\<lambda>s. Some (str_bytes s)), b64_encode = (\<lambda>b. map (\<lambda>w. char_of (unat w)) b),
     scalar_to_string = ref_scalar,
     delta_to_vec = (\<lambda>d. Some (str_bytes (pr_proof_value (sd_proof d)))),
     seed_to_vec = (\<lambda>(t, p, k). Some (str_bytes k)),
     version_to_vec = (\<lambda>c. Some []), state_to_vec = (\<lambda>c. Some []),
     ed25519_key_ok = (\<lambda>k. True), ed25519_verify = (\<lambda>k m s. s = k @ k),
     ed25519_sign = (\<lambda>k m. k @ k),
     secp256k1_key_ok = (\<lambda>k. True), secp256k1_sig_ok = (\<lambda>s. True),
     secp256k1_verify = (\<lambda>k m s. s = k), secp256k1_sign = (\<lambda>k m. k)\<rparr>"

lemma ref_crdts_laws: "crdts_laws ref_externs"
  by (auto simp: crdts_laws_def gset_laws_def lww_laws_def ref_externs_def ref_gset_def ref_lww_def)

lemma hex_digit_ok: "n < 16 \<Longrightarrow> is_ascii_hexdigit (hex_digit n)"
  unfolding is_ascii_hexdigit_def hex_digit_def
  by (auto simp: less_Suc_eq numeral_nat)

lemma ref_blake3_laws: "blake3_laws ref_externs"
proof -
  have "list_all is_ascii_hexdigit (ref_hex h) \<and> length (ref_hex h) = 2 * length h" for h
  proof (induction h)
    case (Cons w h)
    have "unat w < 256" using unsigned_less [of w] by simp
    then have "unat w div 16 < 16" "unat w mod 16 < 16" by auto
    with Cons show ?case by (simp add: ref_hex_def hex_digit_ok)
  qed (simp add: ref_hex_def)
  then show ?thesis
    by (simp add: blake3_laws_def ref_externs_def ref_hash_def min_def)
qed

lemma ref_string_prefix:
  "concat (map (\<lambda>c. [CHR ''+'', c]) s) @ CHR ''Q'' # r = concat (map (\<lambda>c. [CHR ''+'', c]) t) @ CHR ''Q'' # u
    \<Longrightarrow> s = t \<and> r = u"
proof (induction s arbitrary: t)
  case Nil
  then show ?case by (cases t) auto
next
  case (Cons a s)
  then show ?case by (cases t) auto
qed

lemma ref_ones_prefix:
  "json_delim r \<Longrightarrow> json_delim u \<Longrightarrow>
    replicate m (CHR ''1'') @ r = replicate n (CHR ''1'') @ u \<Longrightarrow> m = n \<and> r = u"
proof (induction m arbitrary: n)
  case 0
  then show ?case by (cases n) (auto simp: json_delim_def)
next
  case (Suc m)
  then show ?case by (cases n) (auto simp: json_delim_def)
qed

lemma ref_number_prefix:
  assumes "json_delim r" "json_delim u" "ref_number m @ r = ref_number n @ u"
  shows "m = n \<and> r = u"
proof -
  have *: "replicate (unat a) (CHR ''1'') @ r = replicate (unat b) (CHR ''1'') @ u \<Longrightarrow> a = b \<and> r = u"
    for a b :: u64
    by (drule ref_ones_prefix [OF assms(1,2)]) (simp add: word_unat_eq_iff)
  show ?thesis
    using assms(3) by (cases m; cases n) (auto simp: ref_number_def dest: *)
qed

lemma ref_number_head [simp]:
  "ref_number n \<noteq> []"
  "hd (ref_number n) \<noteq> CHR ''Q''" "hd (ref_number n) \<noteq> CHR ''N''"
  "hd (ref_number n) \<noteq> CHR ''T''" "hd (ref_number n) \<noteq> CHR ''F''"
  by (cases n; simp add: ref_number_def)+

lemmas ref_number_head_sym [simp] = ref_number_head(2-) [symmetric]

lemma ref_scalar_prefix:
  assumes "is_scalar v" "is_scalar w" "json_delim r" "json_delim u"
    and eq: "ref_scalar v @ r = ref_scalar w @ u"
  shows "v = w \<and> r = u"
proof -
  have hd: "hd (ref_scalar v) = hd (ref_scalar w)"
    using arg_cong [OF eq, of hd] assms(1,2)
    by (cases v; cases w) (simp_all add: ref_scalar_def)
  note hd' = hd hd [symmetric]
  show ?thesis
  proof (cases v)
    case (JNumber m)
    with hd' assms(2) obtain n where "w = JNumber n"
      by (cases w) (simp_all add: ref_scalar_def split: if_splits)
    with JNumber eq ref_number_prefix [OF assms(3,4)] show ?thesis by (simp add: ref_scalar_def)
  next
    case (JString s)
    with hd' assms(2) obtain t where "w = JString t"
      by (cases w) (simp_all add: ref_scalar_def split: if_splits)
    with JString eq ref_string_prefix [of s r t u] show ?thesis by (simp add: ref_scalar_def)
  next
    case JNull
    with hd' assms(2) have "w = JNull"
      by (cases w) (simp_all add: ref_scalar_def split: if_splits)
    with JNull eq show ?thesis by (simp add: ref_scalar_def)
  next
    case (JBool b)
    with hd' assms(2) have "w = JBool b"
      by (cases w) (simp_all add: ref_scalar_def split: if_splits)
    with JBool eq show ?thesis by (simp add: ref_scalar_def split: if_splits)
  qed (use assms(1) in simp_all)
qed

lemma ref_json_laws: "json_laws ref_externs"
proof -
  have "ref_scalar v \<noteq> [] \<and> hd (ref_scalar v) \<notin> set ''[]{},:''" if "is_scalar v" for v
    using that by (cases v) (auto simp: ref_scalar_def ref_number_def split: json_number.splits)
  then show ?thesis
    using ref_scalar_prefix by (simp add: json_laws_def ref_externs_def)
qed

end
