(* ===== verification/Did.thy ===== *)
theory Did
  imports Externs
begin

text \<open>
  The identifier type of \<open>src/core/did.rs\<close>: construction from a creation hash, parsing,
  printing, and the string form that (de)serialisation goes through.
\<close>

definition did_method :: string where
  "did_method = ''crdt''"

definition did_prefix :: string where
  "did_prefix = ''did:crdt:''"

text \<open>\<open>str::strip_prefix\<close>.\<close>

fun strip_prefix :: "string \<Rightarrow> string \<Rightarrow> string option" where
  "strip_prefix [] s = Some s"
| "strip_prefix (p # ps) [] = None"
| "strip_prefix (p # ps) (c # cs) = (if p = c then strip_prefix ps cs else None)"

definition from_creation_hash :: "externs \<Rightarrow> bytes \<Rightarrow> did" where
  "from_creation_hash E hash = Did (did_prefix @ to_hex E hash)"

text \<open>\<open>None\<close> is the panic of \<open>expect\<close> on a value that does not have the prefix.\<close>

definition method_specific_id :: "did \<Rightarrow> string option" where
  "method_specific_id d = strip_prefix did_prefix (did_str d)"

definition did_as_str :: "did \<Rightarrow> string" where
  "did_as_str d = did_str d"

definition did_to_string :: "did \<Rightarrow> string" where
  "did_to_string d = did_str d"

definition did_from_str :: "string \<Rightarrow> did result" where
  "did_from_str s =
     (case strip_prefix did_prefix s of
        None \<Rightarrow> Inl (InvalidDid s)
      | Some i \<Rightarrow>
          if length i \<noteq> 64 \<or> \<not> list_all is_ascii_hexdigit i then Inl (InvalidDid s)
          else Inr (Did s))"

definition did_serialize :: "did \<Rightarrow> json" where
  "did_serialize d = JString (did_str d)"

text \<open>Deserialisation reads a string and parses it, so every path enforces the invariant.\<close>

fun did_deserialize :: "json \<Rightarrow> did result" where
  "did_deserialize (JString raw) = did_from_str raw"
| "did_deserialize _ = Inl Serialisation"

text \<open>The invariant that the type promises: \<open>did:crdt:\<close> and 64 hexadecimal digits.\<close>

definition did_wf :: "did \<Rightarrow> bool" where
  "did_wf d \<longleftrightarrow> (\<exists>i. did_str d = did_prefix @ i \<and> length i = 64 \<and> list_all is_ascii_hexdigit i)"

lemma strip_prefix_Some: "strip_prefix p s = Some r \<longleftrightarrow> s = p @ r"
  by (induction p s rule: strip_prefix.induct) auto

lemma strip_prefix_append [simp]: "strip_prefix p (p @ r) = Some r"
  by (simp add: strip_prefix_Some)

lemma did_from_str_Inr: "did_from_str s = Inr d \<longleftrightarrow> d = Did s \<and> did_wf d"
  by (cases "strip_prefix did_prefix s")
    (auto simp: did_from_str_def did_wf_def strip_prefix_Some split: if_splits)

section \<open>Properties\<close>

text \<open>parsing accepts exactly the well-formed identifiers and prints back to its input;
  any other string is refused with the string as the error's payload.\<close>

theorem did_parse_print:
  "(did_from_str s = Inr d \<longleftrightarrow> did_wf d \<and> did_to_string d = s) \<and>
   (did_from_str s = Inl e \<longleftrightarrow> e = InvalidDid s \<and> \<not> did_wf (Did s))"
proof -
  have "did_from_str s = Inl e \<longleftrightarrow> e = InvalidDid s \<and> (\<forall>d. did_from_str s \<noteq> Inr d)"
    by (auto simp: did_from_str_def split: option.splits)
  then show ?thesis
    by (auto simp: did_from_str_Inr did_to_string_def)
qed

text \<open>An identifier derived from a creation hash is well-formed, survives a round trip
  through its serialised form, and its method-specific part is the hash in hexadecimal, so the
  accessor that unwraps the prefix cannot panic on it.\<close>

theorem creation_did_roundtrip:
  assumes "blake3_laws E"
  shows "did_wf (from_creation_hash E (blake3 E b)) \<and>
    did_deserialize (did_serialize (from_creation_hash E (blake3 E b)))
      = Inr (from_creation_hash E (blake3 E b)) \<and>
    method_specific_id (from_creation_hash E (blake3 E b)) = Some (to_hex E (blake3 E b))"
proof -
  have "did_wf (from_creation_hash E (blake3 E b))"
    using assms by (simp add: did_wf_def from_creation_hash_def blake3_laws_def)
  then show ?thesis
    by (simp add: did_serialize_def did_from_str_Inr method_specific_id_def from_creation_hash_def)
qed

theorem creation_did_roundtrip_witness:
  "did_wf (from_creation_hash ref_externs (blake3 ref_externs [1, 2]))"
  using creation_did_roundtrip [OF ref_blake3_laws] by blast

end
