(* ===== verification/Delta.thy ===== *)
theory Delta
  imports Did
begin

text \<open>
  Signed deltas (\<open>src/core/delta.rs\<close>): canonical JSON, the bytes that are signed and hashed, the
  content identity of a delta, the constructors, and the ISO 8601 rendering of timestamps.
  The lemmas show that the signing input determines the payload, so that neither a signature nor
  a content hash can stand for two different mutations.
\<close>

definition MAX_DELTA_SIZE :: nat where
  "MAX_DELTA_SIZE = 65536"

section \<open>Canonical JSON\<close>

text \<open>\<open>[String]::join\<close>.\<close>

fun join_sep :: "string \<Rightarrow> string list \<Rightarrow> string" where
  "join_sep sep [] = []"
| "join_sep sep [x] = x"
| "join_sep sep (x # y # zs) = x @ sep @ join_sep sep (y # zs)"

fun canonical_json :: "externs \<Rightarrow> json \<Rightarrow> string" where
  "canonical_json E (JObject m) =
     ''{'' @ join_sep '','' (map (\<lambda>(k, v). scalar_to_string E (JString k) @ '':'' @ canonical_json E v)
        (sort_key fst m)) @ ''}''"
| "canonical_json E (JArray vs) = ''['' @ join_sep '','' (map (canonical_json E) vs) @ '']''"
| "canonical_json E v = scalar_to_string E v"

section \<open>Conversion to JSON values\<close>

text \<open>
  The \<open>Serialize\<close> implementations that the derive attributes of the sources describe: a struct
  is an object of its fields, a newtype is its content, an enumeration variant without fields
  is its name, and \<open>DeltaOp\<close> is tagged with \<open>type\<close> in snake case.
\<close>

definition u64_value :: "u64 \<Rightarrow> json" where
  "u64_value n = JNumber (PosInt n)"

definition timestamp_value :: "hlc_timestamp \<Rightarrow> json" where
  "timestamp_value t = JObject
     [(''wall_ms'', u64_value (wall_ms t)), (''logical'', u64_value (ucast (logical t))),
      (''node_id'', u64_value (node_id t))]"

fun suite_name :: "suite_type \<Rightarrow> string" where
  "suite_name Ed25519Signature2020 = ''Ed25519Signature2020''"
| "suite_name EcdsaSecp256k1Signature2019 = ''EcdsaSecp256k1Signature2019''"

fun relationship_name :: "verification_relationship \<Rightarrow> string" where
  "relationship_name Authentication = ''Authentication''"
| "relationship_name AssertionMethod = ''AssertionMethod''"
| "relationship_name KeyAgreement = ''KeyAgreement''"
| "relationship_name CapabilityInvocation = ''CapabilityInvocation''"
| "relationship_name CapabilityDelegation = ''CapabilityDelegation''"

fun op_value :: "delta_op \<Rightarrow> json" where
  "op_value (AddVerificationMethod i k s rs) = JObject
     [(''type'', JString ''add_verification_method''), (''id'', JString i),
      (''public_key_multibase'', JString k), (''suite_type'', JString (suite_name s)),
      (''relationships'', JArray (map (\<lambda>r. JString (relationship_name r)) rs))]"
| "op_value (AddServiceEndpoint i t e) = JObject
     [(''type'', JString ''add_service_endpoint''), (''id'', JString i),
      (''service_type'', JString t), (''endpoint'', JString e)]"
| "op_value (RemoveServiceEndpoint i) = JObject
     [(''type'', JString ''remove_service_endpoint''), (''id'', JString i)]"
| "op_value (SetAlsoKnownAs us) = JObject
     [(''type'', JString ''set_also_known_as''), (''uris'', JArray (map JString us))]"
| "op_value (SetDocumentData k v) = JObject
     [(''type'', JString ''set_document_data''), (''key'', JString k), (''value'', v)]"
| "op_value (RotateKey n k) = JObject
     [(''type'', JString ''rotate_key''), (''seq'', u64_value n), (''key_ref'', JString k)]"
| "op_value (RevokeCredential c) = JObject
     [(''type'', JString ''revoke_credential''), (''credential_id'', JString c)]"
| "op_value (RevokeVerificationMethod k) = JObject
     [(''type'', JString ''revoke_verification_method''), (''key_id'', JString k)]"
| "op_value Deactivate = JObject [(''type'', JString ''deactivate'')]"

section \<open>Signing input and content identity\<close>

definition payload_value :: "did \<Rightarrow> hlc_timestamp \<Rightarrow> delta_op \<Rightarrow> delta_hash list \<Rightarrow> json" where
  "payload_value i ts op parents = JObject
     [(''did'', did_serialize i), (''op'', op_value op),
      (''parents'', JArray (map (\<lambda>h. JString (hash_str h)) parents)),
      (''timestamp'', timestamp_value ts)]"

definition compute_signing_input ::
    "externs \<Rightarrow> did \<Rightarrow> hlc_timestamp \<Rightarrow> delta_op \<Rightarrow> delta_hash list \<Rightarrow> bytes result" where
  "compute_signing_input E i ts op parents =
     Inr (str_bytes (canonical_json E (payload_value i ts op parents)))"

definition signing_input :: "externs \<Rightarrow> signed_delta \<Rightarrow> bytes result" where
  "signing_input E d = compute_signing_input E (sd_did d) (sd_timestamp d) (sd_op d) (sd_parents d)"

definition content_hash :: "externs \<Rightarrow> signed_delta \<Rightarrow> delta_hash result" where
  "content_hash E d =
     (case signing_input E d of
        Inl e \<Rightarrow> Inl e
      | Inr input \<Rightarrow> Inr (DeltaHash (to_hex E (blake3 E input))))"

definition canonicalise_parents :: "delta_hash list \<Rightarrow> delta_hash list" where
  "canonicalise_parents ps = sort_dedup ps"

section \<open>ISO 8601\<close>

text \<open>Decimal digits of a number, and the zero padding of \<open>{:0w}\<close>.\<close>

fun dec_string :: "nat \<Rightarrow> string" where
  "dec_string n =
     (if n < 10 then [char_of (48 + n)] else dec_string (n div 10) @ [char_of (48 + n mod 10)])"

declare dec_string.simps [simp del]

definition zero_pad :: "nat \<Rightarrow> nat \<Rightarrow> string" where
  "zero_pad w n = (let s = dec_string n in replicate (w - length s) (CHR ''0'') @ s)"

text \<open>The values stay far below \<open>2 ^ 64\<close>, and no subtraction underflows (shown below).\<close>

definition secs_to_civil :: "nat \<Rightarrow> nat \<times> nat \<times> nat \<times> nat \<times> nat \<times> nat" where
  "secs_to_civil secs =
     (let days = secs div 86400;
          time = secs mod 86400;
          h = time div 3600;
          mi = (time mod 3600) div 60;
          s = time mod 60;
          z = days + 719468;
          era = z div 146097;
          doe = z - era * 146097;
          yoe = (doe - doe div 1460 + doe div 36524 - doe div 146096) div 365;
          y = yoe + era * 400;
          doy = doe - (365 * yoe + yoe div 4 - yoe div 100);
          mp = (5 * doy + 2) div 153;
          day = doy - (153 * mp + 2) div 5 + 1;
          month = (if mp < 10 then mp + 3 else mp - 9);
          year = (if month \<le> 2 then y + 1 else y)
      in (year, month, day, h, mi, s))"

definition ms_to_iso8601 :: "u64 \<Rightarrow> string" where
  "ms_to_iso8601 wall =
     (let secs = unat wall div 1000; ms = unat wall mod 1000
      in case secs_to_civil secs of (y, mo, d, h, mi, s) \<Rightarrow>
        zero_pad 4 y @ ''-'' @ zero_pad 2 mo @ ''-'' @ zero_pad 2 d @ ''T'' @ zero_pad 2 h @ '':''
        @ zero_pad 2 mi @ '':'' @ zero_pad 2 s @ ''.'' @ zero_pad 3 ms @ ''Z'')"

section \<open>Construction\<close>

text \<open>A signing key is known by its secret bytes; the crates sign with them.\<close>

datatype signing_key = Ed25519Key bytes | Secp256k1Key bytes

fun signing_key_suite :: "signing_key \<Rightarrow> suite_type" where
  "signing_key_suite (Ed25519Key _) = Ed25519Signature2020"
| "signing_key_suite (Secp256k1Key _) = EcdsaSecp256k1Signature2019"

definition new_with_parents ::
    "externs \<Rightarrow> did \<Rightarrow> delta_op \<Rightarrow> hlc_timestamp \<Rightarrow> delta_hash list \<Rightarrow> string \<Rightarrow> signing_key
     \<Rightarrow> signed_delta result" where
  "new_with_parents E i op ts parents vm key =
     (let parents' = canonicalise_parents parents
      in case compute_signing_input E i ts op parents' of
           Inl e \<Rightarrow> Inl e
         | Inr input \<Rightarrow>
             let created = ms_to_iso8601 (wall_ms ts);
                 sp = (case key of
                         Ed25519Key sk \<Rightarrow>
                           (Ed25519Signature2020, ''u'' @ b64_encode E (ed25519_sign E sk input))
                       | Secp256k1Key sk \<Rightarrow>
                           (EcdsaSecp256k1Signature2019, ''u'' @ b64_encode E (secp256k1_sign E sk input)))
             in Inr \<lparr>sd_did = i, sd_timestamp = ts, sd_op = op, sd_parents = parents',
                  sd_proof = \<lparr>pr_suite = fst sp, pr_verification_method = vm, pr_created = created,
                    pr_proof_value = snd sp\<rparr>\<rparr>)"

definition new_genesis ::
    "externs \<Rightarrow> did \<Rightarrow> delta_op \<Rightarrow> hlc_timestamp \<Rightarrow> string \<Rightarrow> signing_key \<Rightarrow> signed_delta result" where
  "new_genesis E i op ts vm key = new_with_parents E i op ts [] vm key"

definition unsigned_delta :: "did \<Rightarrow> delta_op \<Rightarrow> hlc_timestamp \<Rightarrow> string \<Rightarrow> signed_delta" where
  "unsigned_delta i op ts vm =
     \<lparr>sd_did = i, sd_timestamp = ts, sd_op = op, sd_parents = [],
      sd_proof = \<lparr>pr_suite = Ed25519Signature2020, pr_verification_method = vm,
        pr_created = ms_to_iso8601 (wall_ms ts), pr_proof_value = []\<rparr>\<rparr>"

section \<open>The content identity is total and covers the payload only\<close>

definition delta_id :: "externs \<Rightarrow> signed_delta \<Rightarrow> delta_hash" where
  "delta_id E d = DeltaHash (to_hex E (blake3 E (str_bytes (canonical_json E
     (payload_value (sd_did d) (sd_timestamp d) (sd_op d) (sd_parents d))))))"

lemma content_hash_Inr [simp]: "content_hash E d = Inr (delta_id E d)"
  by (simp add: content_hash_def signing_input_def compute_signing_input_def delta_id_def)

lemma delta_id_payload: "payload d = payload d' \<Longrightarrow> delta_id E d = delta_id E d'"
  by (simp add: delta_id_def payload_def)

section \<open>Canonical JSON is unambiguous\<close>

text \<open>Canonical printing is plain printing of the value with its objects sorted.\<close>

fun sort_objects :: "json \<Rightarrow> json" where
  "sort_objects (JObject m) = JObject (map (\<lambda>(k, v). (k, sort_objects v)) (sort_key fst m))"
| "sort_objects (JArray vs) = JArray (map sort_objects vs)"
| "sort_objects v = v"

fun plain_json :: "externs \<Rightarrow> json \<Rightarrow> string" where
  "plain_json E (JObject m) =
     ''{'' @ join_sep '','' (map (\<lambda>(k, v). scalar_to_string E (JString k) @ '':'' @ plain_json E v) m) @ ''}''"
| "plain_json E (JArray vs) = ''['' @ join_sep '','' (map (plain_json E) vs) @ '']''"
| "plain_json E v = scalar_to_string E v"

lemma canonical_plain: "canonical_json E v = plain_json E (sort_objects v)"
proof (induction E v rule: canonical_json.induct)
  case (1 E m)
  then show ?case
    by (auto intro!: arg_cong [where f = "join_sep _"] map_cong simp: comp_def case_prod_beta)
next
  case (2 E vs)
  then show ?case by (auto intro!: arg_cong [where f = "join_sep _"] map_cong simp: comp_def)
qed simp_all

lemma plain_json_head:
  assumes "json_laws E"
  shows "plain_json E v \<noteq> [] \<and> hd (plain_json E v) \<notin> set '']},:''"
  using assms by (cases v) (auto simp: json_laws_def)

text \<open>A printer that is decodable on the elements is decodable on a bracketed list of them.\<close>

lemma join_decodable:
  assumes dec: "\<And>x y r s. x \<in> set xs \<Longrightarrow> json_delim r \<Longrightarrow> json_delim s \<Longrightarrow> f x @ r = f y @ s \<Longrightarrow> x = y \<and> r = s"
    and head: "\<And>x. f x \<noteq> [] \<and> hd (f x) \<notin> set '']},:''"
    and close: "c = CHR '']'' \<or> c = CHR ''}''"
    and eq: "join_sep '','' (map f xs) @ c # r = join_sep '','' (map f ys) @ c # s"
  shows "xs = ys \<and> r = s"
  using dec eq
proof (induction xs arbitrary: ys)
  case Nil
  then show ?case
    using head [of "hd ys"] close by (cases ys; cases "tl ys"; cases "f (hd ys)") auto
next
  case (Cons x xs)
  obtain y ys' where ys: "ys = y # ys'"
    using Cons.prems(2) head [of x] close by (cases ys; cases xs; cases "f x") auto
  define R where "R = (if xs = [] then c # r else '','' @ join_sep '','' (map f xs) @ c # r)"
  define S where "S = (if ys' = [] then c # s else '','' @ join_sep '','' (map f ys') @ c # s)"
  have "f x @ R = f y @ S"
    using Cons.prems(2) ys by (cases xs; cases ys') (auto simp: R_def S_def)
  moreover have "json_delim R" "json_delim S"
    using close by (auto simp: R_def S_def json_delim_def)
  ultimately have xy: "x = y" and RS: "R = S"
    using Cons.prems(1) [of x R S y] by auto
  show ?case
  proof (cases "xs = []")
    case True
    with RS close ys xy show ?thesis by (auto simp: R_def S_def split: if_splits)
  next
    case False
    with RS close have ne: "ys' \<noteq> []"
      and "join_sep '','' (map f xs) @ c # r = join_sep '','' (map f ys') @ c # s"
      by (auto simp: R_def S_def split: if_splits)
    then have "xs = ys' \<and> r = s"
      using Cons.IH [of ys'] Cons.prems(1) by auto
    with xy ys show ?thesis by simp
  qed
qed

lemma scalar_decodable:
  "json_laws E \<Longrightarrow> is_scalar v \<Longrightarrow> is_scalar w \<Longrightarrow> json_delim r \<Longrightarrow> json_delim s \<Longrightarrow>
    scalar_to_string E v @ r = scalar_to_string E w @ s \<Longrightarrow> v = w \<and> r = s"
  unfolding json_laws_def by blast

lemma scalar_head:
  "json_laws E \<Longrightarrow> is_scalar v \<Longrightarrow>
    scalar_to_string E v \<noteq> [] \<and> hd (scalar_to_string E v) \<notin> set ''[]{},:''"
  unfolding json_laws_def by blast

lemma plain_json_kind:
  assumes L: "json_laws E"
  shows "hd (plain_json E v) = CHR ''['' \<longleftrightarrow> (\<exists>vs. v = JArray vs)"
    and "hd (plain_json E v) = CHR ''{'' \<longleftrightarrow> (\<exists>m. v = JObject m)"
  using scalar_head [OF L, of v] by (cases v; auto)+

lemma plain_json_same_kind:
  assumes L: "json_laws E" and eq: "plain_json E v @ r = plain_json E w @ s"
  shows "(\<exists>vs. v = JArray vs) = (\<exists>ws. w = JArray ws)" "(\<exists>m. v = JObject m) = (\<exists>n. w = JObject n)"
    "is_scalar v = is_scalar w"
proof -
  have "hd (plain_json E v) = hd (plain_json E w)"
    using arg_cong [OF eq, of hd] plain_json_head [OF L] by (simp add: hd_append)
  with plain_json_kind [OF L]
  show a: "(\<exists>vs. v = JArray vs) = (\<exists>ws. w = JArray ws)"
    and b: "(\<exists>m. v = JObject m) = (\<exists>n. w = JObject n)"
    by metis+
  show "is_scalar v = is_scalar w"
    using a b by (cases v; cases w) auto
qed

lemma plain_json_scalar: "is_scalar v \<Longrightarrow> plain_json E v = scalar_to_string E v"
  by (cases v) auto

lemma plain_scalar_decodable:
  assumes L: "json_laws E" and v: "is_scalar v" and d: "json_delim r" "json_delim s"
    and eq: "plain_json E v @ r = plain_json E w @ s"
  shows "v = w \<and> r = s"
proof -
  have w: "is_scalar w" using plain_json_same_kind(3) [OF L eq] v by simp
  show ?thesis
    by (rule scalar_decodable [OF L v w d]) (use eq v w in \<open>simp add: plain_json_scalar\<close>)
qed

lemma plain_json_decodable:
  assumes L: "json_laws E"
  shows "json_delim r \<Longrightarrow> json_delim s \<Longrightarrow> plain_json E v @ r = plain_json E w @ s \<Longrightarrow> v = w \<and> r = s"
proof (induction v arbitrary: w r s)
  case (JArray vs)
  from plain_json_same_kind [OF L JArray.prems(3)] obtain ws where w: "w = JArray ws" by auto
  have "vs = ws \<and> r = s"
    by (rule join_decodable [where f = "plain_json E" and c = "CHR '']''"])
      (use JArray w plain_json_head [OF L] in auto)
  with w show ?case by simp
next
  case (JObject m)
  let ?f = "\<lambda>(k, v). scalar_to_string E (JString k) @ '':'' @ plain_json E v"
  from plain_json_same_kind [OF L JObject.prems(3)] obtain n where w: "w = JObject n" by auto
  have "m = n \<and> r = s"
  proof (rule join_decodable [where f = ?f and c = "CHR ''}''"])
    fix x y :: "string \<times> json" and r s
    assume x: "x \<in> set m" and d: "json_delim r" "json_delim s" and eq: "?f x @ r = ?f y @ s"
    have "JString (fst x) = JString (fst y) \<and>
        '':'' @ plain_json E (snd x) @ r = '':'' @ plain_json E (snd y) @ s"
      by (rule scalar_decodable [OF L]) (use eq in \<open>simp_all add: json_delim_def case_prod_beta\<close>)
    moreover have "snd x \<in> Basic_BNFs.snds x" by (cases x) simp
    ultimately show "x = y \<and> r = s"
      using JObject.IH [OF x, of "snd x" r s "snd y"] d by (auto intro: prod_eqI)
  next
    show "?f x \<noteq> [] \<and> hd (?f x) \<notin> set '']},:''" for x
      using scalar_head [OF L, of "JString (fst x)"] by (auto simp: case_prod_beta)
  qed (use JObject.prems(3) w in auto)
  with w show ?case by simp
qed (rule plain_scalar_decodable [OF L]; simp)+

text \<open>Equal canonical texts come from values that differ at most in the order of object members.\<close>

lemma canonical_json_inject:
  "json_laws E \<Longrightarrow> canonical_json E v = canonical_json E w \<Longrightarrow> sort_objects v = sort_objects w"
  using plain_json_decodable [of E "[]" "[]"] by (simp add: canonical_plain json_delim_def)

text \<open>Objects with distinct keys that sort alike have equal members up to the same relation.\<close>

lemma sort_objects_lookup:
  assumes "sort_objects (JObject m) = sort_objects (JObject n)"
    "distinct (map fst m)" "distinct (map fst n)"
  shows "map_option sort_objects (map_of m k) = map_option sort_objects (map_of n k)"
proof -
  have lk: "map_option sort_objects (map_of m' k)
      = map_of (map (\<lambda>(k, v). (k, sort_objects v)) (sort_key fst m')) k"
    if "distinct (map fst m')" for m' :: "(string \<times> json) list"
  proof -
    have "distinct (map fst (sort_key fst m'))"
      using that by (metis distinct_map distinct_sort set_sort)
    then have "map_of (sort_key fst m') = map_of m'"
      using that by (intro map_of_inject_set [THEN iffD2]) auto
    then show ?thesis by (simp add: map_of_map)
  qed
  from assms show ?thesis by (simp add: lk)
qed

fun norm_op :: "delta_op \<Rightarrow> delta_op" where
  "norm_op (SetDocumentData k v) = SetDocumentData k (sort_objects v)"
| "norm_op op = op"

fun op_fields :: "json \<Rightarrow> (string \<times> json) list" where
  "op_fields (JObject m) = m"
| "op_fields _ = []"

lemma op_value_fields: "op_value op = JObject (op_fields (op_value op))"
  "distinct (map fst (op_fields (op_value op)))"
  by (cases op; simp)+

lemma relationship_name_inject: "relationship_name x = relationship_name y \<longleftrightarrow> x = y"
  by (cases x; cases y) auto

lemma suite_name_inject: "suite_name x = suite_name y \<longleftrightarrow> x = y"
  by (cases x; cases y) auto

lemma map_JString_inject: "map JString us = map JString vs \<longleftrightarrow> us = vs"
  by (simp add: inj_map_eq_map inj_on_def)

lemma map_relationship_inject:
  "map (\<lambda>r. JString (relationship_name r)) us = map (\<lambda>r. JString (relationship_name r)) vs \<longleftrightarrow> us = vs"
  by (simp add: inj_map_eq_map inj_on_def relationship_name_inject)

fun op_tag :: "delta_op \<Rightarrow> string" where
  "op_tag (AddVerificationMethod _ _ _ _) = ''add_verification_method''"
| "op_tag (AddServiceEndpoint _ _ _) = ''add_service_endpoint''"
| "op_tag (RemoveServiceEndpoint _) = ''remove_service_endpoint''"
| "op_tag (SetAlsoKnownAs _) = ''set_also_known_as''"
| "op_tag (SetDocumentData _ _) = ''set_document_data''"
| "op_tag (RotateKey _ _) = ''rotate_key''"
| "op_tag (RevokeCredential _) = ''revoke_credential''"
| "op_tag (RevokeVerificationMethod _) = ''revoke_verification_method''"
| "op_tag Deactivate = ''deactivate''"

lemma op_value_tag: "map_of (op_fields (op_value op)) ''type'' = Some (JString (op_tag op))"
  by (cases op) simp_all

lemma op_value_inject:
  assumes "sort_objects (op_value a) = sort_objects (op_value b)"
  shows "norm_op a = norm_op b"
proof -
  have lk: "map_option sort_objects (map_of (op_fields (op_value a)) k)
      = map_option sort_objects (map_of (op_fields (op_value b)) k)" for k
    using assms op_value_fields by (intro sort_objects_lookup) metis+
  have tag: "op_tag a = op_tag b"
    using lk [of "''type''"] by (simp add: op_value_tag)
  note fields = lk [of "''id''"] lk [of "''public_key_multibase''"] lk [of "''suite_type''"]
    lk [of "''relationships''"] lk [of "''service_type''"] lk [of "''endpoint''"]
    lk [of "''uris''"] lk [of "''key''"] lk [of "''value''"] lk [of "''seq''"] lk [of "''key_ref''"]
    lk [of "''credential_id''"] lk [of "''key_id''"]
  show ?thesis
    using tag fields
    by (cases a; cases b)
      (simp_all add: comp_def map_JString_inject map_relationship_inject suite_name_inject u64_value_def)
qed

section \<open>The calendar\<close>

definition is_leap :: "nat \<Rightarrow> bool" where
  "is_leap y \<longleftrightarrow> (y mod 4 = 0 \<and> y mod 100 \<noteq> 0) \<or> y mod 400 = 0"

definition days_in_month :: "nat \<Rightarrow> nat \<Rightarrow> nat" where
  "days_in_month y m =
     (if m = 2 then (if is_leap y then 29 else 28) else if m \<in> {4, 6, 9, 11} then 30 else 31)"

text \<open>Days of the proleptic Gregorian calendar before a date, counted from 1 March of year 0.\<close>

definition days_before :: "nat \<Rightarrow> nat \<Rightarrow> nat \<Rightarrow> nat" where
  "days_before y m d =
     (let yy = (if m \<le> 2 then y - 1 else y); mp = (if m \<le> 2 then m + 9 else m - 3)
      in 365 * yy + yy div 4 - yy div 100 + yy div 400 + (153 * mp + 2) div 5 + (d - 1))"

lemma capped_div:
  fixes x d m :: nat
  assumes "0 < d" "x \<le> d * m + d"
  defines "q \<equiv> min m (x div d)"
  shows "q \<le> m" "x = d * q + (x - d * q)" "x - d * q \<le> d" "x - d * q = d \<Longrightarrow> q = m"
proof -
  show "q \<le> m" by (simp add: q_def)
  have "d * (x div d) \<le> x" by simp
  moreover have "d * q \<le> d * (x div d)" by (simp add: q_def)
  ultimately have "d * q \<le> x" by linarith
  then show "x = d * q + (x - d * q)" by simp
  have *: "x - d * q = x mod d" if "q \<noteq> m"
    using that by (simp add: q_def min_def minus_mult_div_eq_mod split: if_splits)
  show "x - d * q \<le> d"
  proof (cases "q = m")
    case True
    with assms(2) show ?thesis by simp
  next
    case False
    with * assms(1) show ?thesis by (simp add: less_imp_le)
  qed
  show "q = m" if "x - d * q = d"
  proof (rule ccontr)
    assume "q \<noteq> m"
    with that * have "x mod d = d" by simp
    with assms(1) show False by (metis less_irrefl mod_less_divisor)
  qed
qed

lemma doe_split:
  fixes doe :: nat
  assumes "doe < 146097"
  obtains c f k t where "doe = 36524 * c + 1461 * f + 365 * k + t" "c \<le> 3" "f \<le> 24" "k \<le> 3"
    "t \<le> 365" "t = 365 \<Longrightarrow> k = 3 \<and> (f = 24 \<longrightarrow> c = 3)"
proof -
  define c where "c = min 3 (doe div 36524)"
  define r where "r = doe - 36524 * c"
  have c: "c \<le> 3" "doe = 36524 * c + r" "r \<le> 36524" "r = 36524 \<Longrightarrow> c = 3"
    unfolding c_def r_def using capped_div [of 36524 doe 3] assms by simp_all
  define f where "f = r div 1461"
  define u where "u = r mod 1461"
  have f: "r = 1461 * f + u" "u < 1461" "f \<le> 24"
    using c(3) unfolding f_def u_def by auto
  define k where "k = min 3 (u div 365)"
  define t where "t = u - 365 * k"
  have k: "k \<le> 3" "u = 365 * k + t" "t \<le> 365" "t = 365 \<Longrightarrow> k = 3"
    unfolding k_def t_def using capped_div [of 365 u 3] f(2) by simp_all
  have "t = 365 \<Longrightarrow> f = 24 \<Longrightarrow> c = 3"
    using k c f by auto
  then show ?thesis
    using that [of c f k t] c f k by auto
qed

lemma doe_year:
  fixes c f k t :: nat
  assumes "c \<le> 3" "f \<le> 24" "k \<le> 3" "t \<le> 365" "t = 365 \<Longrightarrow> k = 3 \<and> (f = 24 \<longrightarrow> c = 3)"
  defines "doe \<equiv> 36524 * c + 1461 * f + 365 * k + t"
  shows "(doe - doe div 1460 + doe div 36524 - doe div 146096) div 365 = 100 * c + 4 * f + k"
proof -
  define e where "e = (if 24 * c + f + 365 * k + t \<ge> 1460 then 1 else 0 :: nat)"
  have lo: "24 * c + f + 365 * k + t < 2 * 1460" using assms(1-4) by linarith
  have q1: "doe div 1460 = 25 * c + f + e"
  proof -
    have "doe = 1460 * (25 * c + f) + (24 * c + f + 365 * k + t)"
      unfolding doe_def by simp
    then have "doe div 1460 = 25 * c + f + (24 * c + f + 365 * k + t) div 1460"
      by (metis div_mult_self4 zero_neq_numeral)
    moreover have "(24 * c + f + 365 * k + t) div 1460 = e"
      using lo unfolding e_def by auto
    ultimately show ?thesis by simp
  qed
  have b: "1461 * f + 365 * k + t \<le> 36524" using assms(2-4) by linarith
  have b3: "c = 3" if "1461 * f + 365 * k + t = 36524"
  proof -
    have "f = 24" "t = 365" using that assms(2-4) by linarith+
    then show ?thesis using assms(5) by simp
  qed
  have q23: "doe div 36524 - doe div 146096 = c" "doe div 146096 \<le> doe div 36524"
  proof -
    show "doe div 36524 - doe div 146096 = c"
      using b b3 assms(1) unfolding doe_def by (cases "1461 * f + 365 * k + t = 36524") auto
    show "doe div 146096 \<le> doe div 36524" by (simp add: div_le_mono2)
  qed
  have te: "e \<le> t \<and> t - e < 365"
    using assms(1-5) unfolding e_def by (cases "t = 365") auto
  have "doe - doe div 1460 + doe div 36524 - doe div 146096 = doe - (25 * c + f + e) + c"
    using Nat.add_diff_assoc [OF q23(2), of "doe - doe div 1460"] by (simp add: q1 q23(1))
  also have "\<dots> = 365 * (100 * c + 4 * f + k) + (t - e)"
    using te unfolding doe_def by simp
  finally have "doe - doe div 1460 + doe div 36524 - doe div 146096
      = (t - e) + (100 * c + 4 * f + k) * 365" by simp
  then show ?thesis using te by (simp only: div_mult_self1) simp
qed

lemma month_of_day:
  fixes t :: nat
  assumes "t \<le> 365"
  defines "mp \<equiv> (5 * t + 2) div 153"
  shows "mp \<le> 11" "(153 * mp + 2) div 5 \<le> t" "t < (153 * (mp + 1) + 2) div 5"
proof -
  define r where "r = (5 * t + 2) mod 153"
  have r: "5 * t + 2 = 153 * mp + r" "r < 153"
    unfolding mp_def r_def by simp_all
  have a: "153 * mp \<le> 5 * t + 2" "5 * t + 2 < 153 * (mp + 1)" using r by simp_all
  then show "mp \<le> 11" using assms(1) by linarith
  show "(153 * mp + 2) div 5 \<le> t" using a(1) by linarith
  show "t < (153 * (mp + 1) + 2) div 5" using a(2) by linarith
qed

lemma civil_parts:
  obtains c f k t era where
    "secs div 86400 + 719468 = 146097 * era + 36524 * c + 1461 * f + 365 * k + t"
    "c \<le> 3" "f \<le> 24" "k \<le> 3" "t \<le> 365" "t = 365 \<Longrightarrow> k = 3 \<and> (f = 24 \<longrightarrow> c = 3)"
    "secs_to_civil secs =
       (let mp = (5 * t + 2) div 153; m = (if mp < 10 then mp + 3 else mp - 9);
            y = 100 * c + 4 * f + k + era * 400
        in (if m \<le> 2 then y + 1 else y, m, t - (153 * mp + 2) div 5 + 1,
            secs mod 86400 div 3600, secs mod 86400 mod 3600 div 60, secs mod 86400 mod 60))"
proof -
  define z where "z = secs div 86400 + 719468"
  define doe where "doe = z - z div 146097 * 146097"
  have doe: "doe = z mod 146097" unfolding doe_def by (simp add: minus_div_mult_eq_mod)
  then have "doe < 146097" by simp
  then obtain c f k t where s: "doe = 36524 * c + 1461 * f + 365 * k + t" "c \<le> 3" "f \<le> 24" "k \<le> 3"
    "t \<le> 365" "t = 365 \<Longrightarrow> k = 3 \<and> (f = 24 \<longrightarrow> c = 3)"
    by (rule doe_split) blast
  have yoe: "(doe - doe div 1460 + doe div 36524 - doe div 146096) div 365 = 100 * c + 4 * f + k"
    unfolding s(1) by (rule doe_year [OF s(2-6)])
  have sub: "doe - (365 * (100 * c + 4 * f + k) + (100 * c + 4 * f + k) div 4
      - (100 * c + 4 * f + k) div 100) = t"
  proof -
    have "(100 * c + 4 * f + k) div 4 = 25 * c + f" "(100 * c + 4 * f + k) div 100 = c"
      using s(3,4) by auto
    then show ?thesis using s(1) by simp
  qed
  have "z = 146097 * (z div 146097) + doe" by (simp add: doe)
  then have "secs div 86400 + 719468
      = 146097 * (z div 146097) + 36524 * c + 1461 * f + 365 * k + t"
    using s(1) z_def by simp
  moreover have "secs_to_civil secs =
       (let mp = (5 * t + 2) div 153; m = (if mp < 10 then mp + 3 else mp - 9);
            y = 100 * c + 4 * f + k + z div 146097 * 400
        in (if m \<le> 2 then y + 1 else y, m, t - (153 * mp + 2) div 5 + 1,
            secs mod 86400 div 3600, secs mod 86400 mod 3600 div 60, secs mod 86400 mod 60))"
    unfolding secs_to_civil_def Let_def z_def [symmetric] doe_def [symmetric] yoe sub
    by (rule refl)
  ultimately show thesis using that s(2-6) by blast
qed

lemma time_of_day:
  assumes "(x::nat) < 86400"
  shows "x div 3600 < 24" "x mod 3600 div 60 < 60" "x mod 60 < 60"
    "x = 3600 * (x div 3600) + 60 * (x mod 3600 div 60) + x mod 60"
proof -
  show "x div 3600 < 24" using assms by (simp add: less_mult_imp_div_less)
  have "x mod 3600 < 60 * 60" by simp
  then show "x mod 3600 div 60 < 60" by (rule less_mult_imp_div_less)
  show "x mod 60 < 60" by simp
  have "x mod 60 = x mod 3600 mod 60" by (simp add: mod_mod_cancel)
  then have "60 * (x mod 3600 div 60) + x mod 60 = x mod 3600"
    using mult_div_mod_eq [of 60 "x mod 3600"] by simp
  then show "x = 3600 * (x div 3600) + 60 * (x mod 3600 div 60) + x mod 60"
    by (metis add.assoc mult_div_mod_eq)
qed

lemma leap_after:
  assumes "k = 3 \<and> (f = 24 \<longrightarrow> c = 3)" "(f::nat) \<le> 24" "(c::nat) \<le> 3"
  shows "is_leap (100 * c + 4 * f + k + era * 400 + 1)"
proof -
  have y: "100 * c + 4 * f + k + era * 400 + 1 = 4 * (25 * c + f + 1 + 100 * era)"
    using assms(1) by simp
  have m: "(100 * c + 4 * f + k + era * 400 + 1) mod 100 = (4 * f + 4) mod 100"
  proof -
    have "100 * c + 4 * f + k + era * 400 + 1 = 4 * f + 4 + 100 * (c + 4 * era)"
      using assms(1) by simp
    then show ?thesis by (simp only: mod_mult_self2)
  qed
  show ?thesis
  proof (cases "f = 24")
    case True
    with assms have "100 * c + 4 * f + k + era * 400 + 1 = 400 * (era + 1)" by simp
    then show ?thesis unfolding is_leap_def by (metis mod_mult_self1_is_0)
  next
    case False
    with assms(2) have "(4 * f + 4) mod 100 = 4 * f + 4" by simp
    then show ?thesis unfolding is_leap_def m by (metis y mod_mult_self1_is_0 add_is_0 zero_neq_numeral)
  qed
qed

text \<open>the date arithmetic is right for every instant: the year, month and day that
  \<open>secs_to_civil\<close> returns form a date of the Gregorian calendar, the number of days before that
  date is the number of whole days since the epoch (719468 days after 1 March of year 0), and
  the time of day is the remaining seconds.\<close>

theorem secs_to_civil_correct:
  "case secs_to_civil secs of (y, m, d, h, mi, s) \<Rightarrow>
     1 \<le> m \<and> m \<le> 12 \<and> 1 \<le> d \<and> d \<le> days_in_month y m \<and>
     days_before y m d = secs div 86400 + 719468 \<and>
     h < 24 \<and> mi < 60 \<and> s < 60 \<and> secs mod 86400 = 3600 * h + 60 * mi + s"
proof -
  obtain c f k t era where p:
    "secs div 86400 + 719468 = 146097 * era + 36524 * c + 1461 * f + 365 * k + t"
    "c \<le> 3" "f \<le> 24" "k \<le> 3" "t \<le> 365" "t = 365 \<Longrightarrow> k = 3 \<and> (f = 24 \<longrightarrow> c = 3)"
    and civ: "secs_to_civil secs =
       (let mp = (5 * t + 2) div 153; m = (if mp < 10 then mp + 3 else mp - 9);
            y = 100 * c + 4 * f + k + era * 400
        in (if m \<le> 2 then y + 1 else y, m, t - (153 * mp + 2) div 5 + 1,
            secs mod 86400 div 3600, secs mod 86400 mod 3600 div 60, secs mod 86400 mod 60))"
    by (rule civil_parts [of secs]) blast
  define mp where "mp = (5 * t + 2) div 153"
  define m where "m = (if mp < 10 then mp + 3 else mp - 9)"
  define Y where "Y = 100 * c + 4 * f + k + era * 400"
  note md = month_of_day [OF p(5), folded mp_def]
  have mb: "(if m \<le> 2 then m + 9 else m - 3) = mp" "1 \<le> m" "m \<le> 12"
    using md(1) by (auto simp: m_def)
  have dv: "Y div 4 = 25 * c + f + era * 100" "Y div 100 = c + 4 * era" "Y div 400 = era"
    using p(2-4) by (auto simp: Y_def)
  have days: "365 * Y + Y div 4 - Y div 100 + Y div 400 + t = secs div 86400 + 719468"
    unfolding dv p(1) by (simp add: Y_def)
  have len: "t - (153 * mp + 2) div 5 + 1 \<le> days_in_month (if m \<le> 2 then Y + 1 else Y) m"
  proof (cases "mp = 11")
    case True
    then have "m = 2" "t - (153 * mp + 2) div 5 + 1 \<le> 29" "t \<noteq> 365 \<Longrightarrow> t - (153 * mp + 2) div 5 + 1 \<le> 28"
      using p(5) by (auto simp: m_def)
    moreover have "t = 365 \<Longrightarrow> is_leap (Y + 1)"
      using leap_after [OF p(6) p(3,2)] by (simp add: Y_def)
    ultimately show ?thesis by (cases "t = 365") (auto simp: days_in_month_def)
  next
    case False
    with md(1) have "mp \<in> {0, 1, 2, 3, 4, 5, 6, 7, 8, 9, 10}"
      unfolding insert_iff empty_iff by arith
    with md(2,3) show ?thesis by (auto simp: m_def days_in_month_def)
  qed
  note time = time_of_day [of "secs mod 86400"]
  show ?thesis
    unfolding civ Let_def mp_def [symmetric] m_def [symmetric] Y_def [symmetric] prod.case
    using mb len time days md(2) by (auto simp: days_before_def Let_def)
qed

section \<open>What a delta commits to\<close>

lemma ucast_u32_inject: "(ucast (x :: u32) :: u64) = ucast y \<longleftrightarrow> x = y"
proof
  assume "(ucast x :: u64) = ucast y"
  then have "(ucast (ucast x :: u64) :: u32) = ucast (ucast y :: u64)" by simp
  then show "x = y" by (simp add: ucast_up_ucast_id is_up source_size target_size word_size)
qed simp

text \<open>C30: the signing input determines what is signed.  Two deltas with the same signing input
  target the same DID, carry the same timestamp, the same parents and the same operation (an
  arbitrary JSON value up to the order of object members), so a signature over one never
  authorises another mutation and a delta cannot be re-parented under its signature.\<close>

theorem signing_input_commits:
  assumes "json_laws E" "signing_input E d = signing_input E d'"
  shows "sd_did d = sd_did d' \<and> sd_timestamp d = sd_timestamp d' \<and>
    sd_parents d = sd_parents d' \<and> norm_op (sd_op d) = norm_op (sd_op d')"
proof -
  let ?f = "\<lambda>d. [(''did'', did_serialize (sd_did d)), (''op'', op_value (sd_op d)),
      (''parents'', JArray (map (\<lambda>h. JString (hash_str h)) (sd_parents d))),
      (''timestamp'', timestamp_value (sd_timestamp d))]"
  have "sort_objects (JObject (?f d)) = sort_objects (JObject (?f d'))"
    using assms(2)
    by (intro canonical_json_inject [OF assms(1)])
      (simp add: signing_input_def compute_signing_input_def payload_value_def del: canonical_json.simps)
  then have lk: "map_option sort_objects (map_of (?f d) k) = map_option sort_objects (map_of (?f d') k)" for k
    by (rule sort_objects_lookup) simp_all
  have did: "sd_did d = sd_did d'"
    using lk [of "''did''"] by (simp add: did_serialize_def did.expand)
  have op: "norm_op (sd_op d) = norm_op (sd_op d')"
    using lk [of "''op''"] by (intro op_value_inject) simp
  have "map (\<lambda>h. JString (hash_str h)) (sd_parents d) = map (\<lambda>h. JString (hash_str h)) (sd_parents d')"
    using lk [of "''parents''"] by (simp add: comp_def)
  then have par: "sd_parents d = sd_parents d'"
    by (simp add: inj_map_eq_map inj_on_def delta_hash.expand)
  let ?t = "\<lambda>d. [(''wall_ms'', u64_value (wall_ms (sd_timestamp d))),
      (''logical'', u64_value (ucast (logical (sd_timestamp d)))),
      (''node_id'', u64_value (node_id (sd_timestamp d)))]"
  have "sort_objects (JObject (?t d)) = sort_objects (JObject (?t d'))"
    using lk [of "''timestamp''"] by (simp add: timestamp_value_def)
  then have lt: "map_option sort_objects (map_of (?t d) k) = map_option sort_objects (map_of (?t d') k)" for k
    by (rule sort_objects_lookup) simp_all
  have "wall_ms (sd_timestamp d) = wall_ms (sd_timestamp d')"
    "ucast (logical (sd_timestamp d)) = (ucast (logical (sd_timestamp d')) :: u64)"
    "node_id (sd_timestamp d) = node_id (sd_timestamp d')"
    using lt [of "''wall_ms''"] lt [of "''logical''"] lt [of "''node_id''"] by (simp_all add: u64_value_def)
  then have "sd_timestamp d = sd_timestamp d'"
    by (intro hlc_timestamp.expand) (simp add: ucast_u32_inject)
  with did op par show ?thesis by simp
qed

lemma signing_input_commits_example:
  "signing_input ref_externs (unsigned_delta (Did ''a'') Deactivate hlc_default ''k'')
    = signing_input ref_externs (unsigned_delta (Did ''a'') Deactivate hlc_default ''other'')"
  by (simp add: signing_input_def unsigned_delta_def del: canonical_json.simps)

theorem signing_input_commits_witness:
  "sd_did (unsigned_delta (Did ''a'') Deactivate hlc_default ''k'')
    = sd_did (unsigned_delta (Did ''a'') Deactivate hlc_default ''other'')"
  using signing_input_commits [OF ref_json_laws signing_input_commits_example] by blast

text \<open>A delta built by the constructors carries a sorted, duplicate-free parent set with the
  parents it was given, names the suite of its key, and its proof value is the signature over
  exactly the bytes that verification recomputes from the delta.\<close>

theorem new_with_parents_signs:
  "\<exists>d input. new_with_parents E i op ts parents vm key = Inr d \<and> signing_input E d = Inr input \<and>
     sd_did d = i \<and> sd_op d = op \<and> sd_timestamp d = ts \<and>
     sorted (sd_parents d) \<and> distinct (sd_parents d) \<and> set (sd_parents d) = set parents \<and>
     pr_suite (sd_proof d) = signing_key_suite key \<and> pr_verification_method (sd_proof d) = vm \<and>
     pr_proof_value (sd_proof d) = CHR ''u'' # b64_encode E (case key of
       Ed25519Key sk \<Rightarrow> ed25519_sign E sk input | Secp256k1Key sk \<Rightarrow> secp256k1_sign E sk input)"
  by (cases key)
    (simp_all add: new_with_parents_def compute_signing_input_def signing_input_def
      canonicalise_parents_def Let_def del: canonical_json.simps)

end
