(* ===== verification/Crdt.thy ===== *)
theory Crdt
  imports Delta
begin

text \<open>
  The replicated fields of a document (\<open>src/core/crdt.rs\<close>): two grow-only sets of strings and
  one of verification methods, the add-wins observed-remove set of service endpoints, the
  last-writer-wins map of document data, the active-key register, the alias register and the
  deactivation latch.  A \<open>BTreeMap\<close> is a finite map, iterated in ascending key order.
\<close>

section \<open>Verification methods\<close>

type_synonym verification_methods = "verification_method_entry fset"

definition vm_new :: verification_methods where
  "vm_new = {||}"

definition vm_insert ::
    "externs \<Rightarrow> verification_methods \<Rightarrow> string \<Rightarrow> string \<Rightarrow> suite_type
     \<Rightarrow> verification_relationship list \<Rightarrow> verification_methods" where
  "vm_insert E s i pk suite rels = gs_insert (gset_vm E) s (VerificationMethodEntry i pk suite rels)"

definition vm_entries :: "externs \<Rightarrow> verification_methods \<Rightarrow> verification_method_entry list" where
  "vm_entries E s = sorted_list_of_fset (gs_read (gset_vm E) s)"

definition vm_contains_id :: "externs \<Rightarrow> verification_methods \<Rightarrow> string \<Rightarrow> bool" where
  "vm_contains_id E s i = list_ex (\<lambda>e. vme_id e = i) (vm_entries E s)"

definition vm_merge :: "externs \<Rightarrow> verification_methods \<Rightarrow> verification_methods \<Rightarrow> verification_methods" where
  "vm_merge E s t = gs_merge (gset_vm E) s t"

section \<open>Revoked credentials\<close>

type_synonym revocations = "string fset"

definition rev_new :: revocations where
  "rev_new = {||}"

definition rev_insert :: "externs \<Rightarrow> revocations \<Rightarrow> string \<Rightarrow> revocations" where
  "rev_insert E s c = gs_insert (gset_str E) s c"

definition rev_contains :: "externs \<Rightarrow> revocations \<Rightarrow> string \<Rightarrow> bool" where
  "rev_contains E s c = gs_contains (gset_str E) s c"

definition rev_entries :: "externs \<Rightarrow> revocations \<Rightarrow> string list" where
  "rev_entries E s = sorted_list_of_fset (gs_read (gset_str E) s)"

definition rev_merge :: "externs \<Rightarrow> revocations \<Rightarrow> revocations \<Rightarrow> revocations" where
  "rev_merge E s t = gs_merge (gset_str E) s t"

section \<open>Revoked verification methods\<close>

type_synonym revoked_vms = "string fset"

definition rvm_new :: revoked_vms where
  "rvm_new = {||}"

definition rvm_insert :: "externs \<Rightarrow> revoked_vms \<Rightarrow> string \<Rightarrow> revoked_vms" where
  "rvm_insert E s k = gs_insert (gset_str E) s k"

definition rvm_contains :: "externs \<Rightarrow> revoked_vms \<Rightarrow> string \<Rightarrow> bool" where
  "rvm_contains E s k = gs_contains (gset_str E) s k"

definition rvm_entries :: "externs \<Rightarrow> revoked_vms \<Rightarrow> string list" where
  "rvm_entries E s = sorted_list_of_fset (gs_read (gset_str E) s)"

definition rvm_merge :: "externs \<Rightarrow> revoked_vms \<Rightarrow> revoked_vms \<Rightarrow> revoked_vms" where
  "rvm_merge E s t = gs_merge (gset_str E) s t"

section \<open>Service endpoints\<close>

definition svc_new :: service_endpoints where
  "svc_new = \<lparr>svc_live = fmempty, svc_context = fmempty\<rparr>"

text \<open>\<open>entry(n).or_insert(d)\<close>, then raise the slot when \<open>d\<close> is greater.\<close>

definition ctx_raise :: "(u64, dot) fmap \<Rightarrow> u64 \<Rightarrow> dot \<Rightarrow> (u64, dot) fmap" where
  "ctx_raise c n d =
     (case fmlookup c n of
        None \<Rightarrow> fmupd n d c
      | Some hi \<Rightarrow> if d > hi then fmupd n d c else c)"

definition svc_observe :: "service_endpoints \<Rightarrow> dot \<Rightarrow> service_endpoints" where
  "svc_observe s d = s\<lparr>svc_context := ctx_raise (svc_context s) (node_id d) d\<rparr>"

definition svc_apply_add :: "service_endpoints \<Rightarrow> service_entry \<Rightarrow> dot \<Rightarrow> service_endpoints" where
  "svc_apply_add s e d =
     (let s' = svc_observe s d in s'\<lparr>svc_live := fmupd d e (svc_live s')\<rparr>)"

definition svc_apply_remove :: "service_endpoints \<Rightarrow> dot list \<Rightarrow> dot \<Rightarrow> service_endpoints" where
  "svc_apply_remove s dots witness =
     fold (\<lambda>d s. let s' = svc_observe s d in s'\<lparr>svc_live := fmdrop d (svc_live s')\<rparr>) dots
       (svc_observe s witness)"

definition svc_seen :: "(u64, dot) fmap \<Rightarrow> dot \<Rightarrow> bool" where
  "svc_seen c d = (case fmlookup c (node_id d) of None \<Rightarrow> False | Some hi \<Rightarrow> d \<le> hi)"

definition svc_contains_id :: "service_endpoints \<Rightarrow> string \<Rightarrow> bool" where
  "svc_contains_id s i = list_ex (\<lambda>e. se_id e = i) (map snd (sorted_list_of_fmap (svc_live s)))"

text \<open>Keep the first occurrence of each value, as the loop over a \<open>HashSet\<close> of seen values does.\<close>

fun dedup_first :: "'a fset \<Rightarrow> 'a list \<Rightarrow> 'a list" where
  "dedup_first seen [] = []"
| "dedup_first seen (x # xs) =
     (if x |\<in>| seen then dedup_first seen xs else x # dedup_first (finsert x seen) xs)"

definition svc_entries :: "service_endpoints \<Rightarrow> service_entry list" where
  "svc_entries s = sort_key se_id (dedup_first {||} (map snd (sorted_list_of_fmap (svc_live s))))"

definition svc_merge :: "service_endpoints \<Rightarrow> service_endpoints \<Rightarrow> service_endpoints" where
  "svc_merge self other =
     (let keep = (\<lambda>live ctx. \<lambda>(d, e) m.
            if fmlookup live d \<noteq> None \<or> \<not> svc_seen ctx d then fmupd d e m else m);
          merged1 = fold (keep (svc_live other) (svc_context other)) (sorted_list_of_fmap (svc_live self)) fmempty;
          merged = fold (keep (svc_live self) (svc_context self)) (sorted_list_of_fmap (svc_live other)) merged1;
          ctx = fold (\<lambda>(n, d) c. ctx_raise c n d) (sorted_list_of_fmap (svc_context other)) (svc_context self)
      in \<lparr>svc_live = merged, svc_context = ctx\<rparr>)"

text \<open>The wire form: two lists of pairs.\<close>

type_synonym service_endpoints_repr = "(dot \<times> service_entry) list \<times> (u64 \<times> dot) list"

definition svc_serialize :: "service_endpoints \<Rightarrow> service_endpoints_repr" where
  "svc_serialize s = (sorted_list_of_fmap (svc_live s), sorted_list_of_fmap (svc_context s))"

text \<open>Collecting pairs into a \<open>BTreeMap\<close> inserts them in order, so a later pair wins.\<close>

definition collect_pairs :: "('k \<times> 'v) list \<Rightarrow> ('k, 'v) fmap" where
  "collect_pairs ps = fold (\<lambda>(k, v) m. fmupd k v m) ps fmempty"

definition svc_deserialize :: "service_endpoints_repr \<Rightarrow> service_endpoints" where
  "svc_deserialize r = \<lparr>svc_live = collect_pairs (fst r), svc_context = collect_pairs (snd r)\<rparr>"

section \<open>Document data\<close>

type_synonym document_data = "(string, value_reg) fmap"

definition data_new :: document_data where
  "data_new = fmempty"

text \<open>The register that \<open>or_insert_with\<close> puts under a new key.\<close>

definition null_reg :: value_reg where
  "null_reg = \<lparr>lww_val = JNull, lww_marker = hlc_default\<rparr>"

definition data_set :: "externs \<Rightarrow> document_data \<Rightarrow> string \<Rightarrow> json \<Rightarrow> hlc_timestamp \<Rightarrow> document_data" where
  "data_set E m k v t =
     (let r = (case fmlookup m k of None \<Rightarrow> null_reg | Some r \<Rightarrow> r)
      in fmupd k (lww_update (lww_value E) r v t) m)"

definition data_get :: "document_data \<Rightarrow> string \<Rightarrow> json option" where
  "data_get m k = map_option lww_val (fmlookup m k)"

definition data_iter :: "document_data \<Rightarrow> (string \<times> json) list" where
  "data_iter m = map (\<lambda>(k, r). (k, lww_val r)) (sorted_list_of_fmap m)"

definition data_merge :: "externs \<Rightarrow> document_data \<Rightarrow> document_data \<Rightarrow> document_data" where
  "data_merge E m other =
     fold (\<lambda>(k, r) m. data_set E m k (lww_val r) (lww_marker r)) (sorted_list_of_fmap other) m"

section \<open>The active key\<close>

type_synonym active_key = key_reg

definition marker_new :: "externs \<Rightarrow> u64 \<Rightarrow> string \<Rightarrow> active_key_marker" where
  "marker_new E seq key_ref = ActiveKeyMarker seq (blake3 E (str_bytes key_ref))"

definition marker_default :: active_key_marker where
  "marker_default = ActiveKeyMarker 0 (replicate 32 0)"

definition ak_new :: active_key where
  "ak_new = \<lparr>lww_val = None, lww_marker = marker_default\<rparr>"

definition ak_rotate :: "externs \<Rightarrow> active_key \<Rightarrow> u64 \<Rightarrow> string \<Rightarrow> active_key" where
  "ak_rotate E k seq key_ref = lww_update (lww_key E) k (Some key_ref) (marker_new E seq key_ref)"

definition ak_current :: "active_key \<Rightarrow> string option" where
  "ak_current k = lww_val k"

definition ak_seq :: "active_key \<Rightarrow> u64" where
  "ak_seq k = akm_seq (lww_marker k)"

definition ak_merge :: "externs \<Rightarrow> active_key \<Rightarrow> active_key \<Rightarrow> active_key" where
  "ak_merge E k l = lww_merge (lww_key E) k l"

section \<open>Deactivation latch\<close>

type_synonym deactivated = bool

definition deact_new :: deactivated where
  "deact_new = False"

definition deact_set :: "deactivated \<Rightarrow> deactivated" where
  "deact_set b = True"

definition deact_is_set :: "deactivated \<Rightarrow> bool" where
  "deact_is_set b = b"

definition deact_merge :: "deactivated \<Rightarrow> deactivated \<Rightarrow> deactivated" where
  "deact_merge a b = (a \<or> b)"

section \<open>Also known as\<close>

type_synonym also_known_as = uris_reg

definition aka_new :: also_known_as where
  "aka_new = \<lparr>lww_val = [], lww_marker = hlc_default\<rparr>"

definition aka_set :: "externs \<Rightarrow> also_known_as \<Rightarrow> string list \<Rightarrow> hlc_timestamp \<Rightarrow> also_known_as" where
  "aka_set E a uris t = lww_update (lww_uris E) a (sort_dedup uris) t"

definition aka_entries :: "also_known_as \<Rightarrow> string list" where
  "aka_entries a = lww_val a"

definition aka_merge :: "externs \<Rightarrow> also_known_as \<Rightarrow> also_known_as \<Rightarrow> also_known_as" where
  "aka_merge E a b = lww_update (lww_uris E) a (lww_val b) (lww_marker b)"

section \<open>Laws of the service endpoints\<close>

lemma lookup_ctx_raise:
  "fmlookup (ctx_raise c n d) n' =
     (if n' = n then Some (case fmlookup c n of None \<Rightarrow> d | Some hi \<Rightarrow> max hi d) else fmlookup c n')"
  by (auto simp: ctx_raise_def max_def split: option.split)

lemma svc_merge_context:
  "fmlookup (svc_context (svc_merge s t)) n =
     (case fmlookup (svc_context t) n of
        None \<Rightarrow> fmlookup (svc_context s) n
      | Some d \<Rightarrow> Some (case fmlookup (svc_context s) n of None \<Rightarrow> d | Some hi \<Rightarrow> max hi d))"
  unfolding svc_merge_def Let_def
  by (simp add: fold_slotwise [where h = "\<lambda>_ d old. Some (case old of None \<Rightarrow> d | Some hi \<Rightarrow> max hi d)"]
      lookup_ctx_raise)

lemma svc_merge_live:
  "fmlookup (svc_live (svc_merge s t)) d =
     (case (fmlookup (svc_live s) d, fmlookup (svc_live t) d) of
        (None, None) \<Rightarrow> None
      | (Some e, None) \<Rightarrow> if svc_seen (svc_context t) d then None else Some e
      | (None, Some e) \<Rightarrow> if svc_seen (svc_context s) d then None else Some e
      | (Some _, Some e) \<Rightarrow> Some e)"
proof -
  have slot: "fmlookup (fold (\<lambda>(d, e) m. if fmlookup l d \<noteq> None \<or> \<not> svc_seen c d then fmupd d e m else m)
        (sorted_list_of_fmap f) m) d =
      (case fmlookup f d of None \<Rightarrow> fmlookup m d
       | Some e \<Rightarrow> if fmlookup l d \<noteq> None \<or> \<not> svc_seen c d then Some e else fmlookup m d)"
    for l c f and m :: "(dot, service_entry) fmap"
    by (subst fold_slotwise [where h =
          "\<lambda>d e old. if fmlookup l d \<noteq> None \<or> \<not> svc_seen c d then Some e else old"]) auto
  show ?thesis
    unfolding svc_merge_def Let_def service_endpoints.simps slot
    by (auto split: option.split)
qed

lemma svc_seen_merge [crdt_simps]:
  "svc_seen (svc_context (svc_merge s t)) d \<longleftrightarrow> svc_seen (svc_context s) d \<or> svc_seen (svc_context t) d"
  by (auto simp: svc_seen_def svc_merge_context le_max_iff_disj split: option.splits)

text \<open>
  The invariant of the set: every live dot carries the entry that its add event carried
  (\<open>\<phi>\<close> gives the entry of each add event), every live dot has been seen, and the version
  vector files each dot under its own node.
\<close>

definition svc_ok :: "(dot \<Rightarrow> service_entry) \<Rightarrow> service_endpoints \<Rightarrow> bool" where
  "svc_ok \<phi> s \<longleftrightarrow>
     (\<forall>d e. fmlookup (svc_live s) d = Some e \<longrightarrow> e = \<phi> d \<and> svc_seen (svc_context s) d) \<and>
     (\<forall>n d. fmlookup (svc_context s) n = Some d \<longrightarrow> node_id d = n)"

lemma svc_okD:
  "svc_ok \<phi> s \<Longrightarrow> fmlookup (svc_live s) d = Some e \<Longrightarrow> e = \<phi> d"
  "svc_ok \<phi> s \<Longrightarrow> fmlookup (svc_live s) d = Some e \<Longrightarrow> svc_seen (svc_context s) d"
  "svc_ok \<phi> s \<Longrightarrow> fmlookup (svc_context s) n = Some d \<Longrightarrow> node_id d = n"
  by (auto simp: svc_ok_def)

lemma svc_eqI:
  assumes "\<And>d. fmlookup (svc_live s) d = fmlookup (svc_live t) d"
    and "\<And>n. fmlookup (svc_context s) n = fmlookup (svc_context t) n"
  shows "s = (t :: service_endpoints)"
  using assms by (simp add: fmap_ext service_endpoints.equality)

lemma svc_merge_ok:
  assumes "svc_ok \<phi> s" "svc_ok \<phi> t"
  shows "svc_ok \<phi> (svc_merge s t)"
  unfolding svc_ok_def svc_seen_merge svc_merge_live svc_merge_context
  using svc_okD [OF assms(1)] svc_okD [OF assms(2)]
  by (auto simp: max_def split: option.splits if_splits) metis

lemma svc_live_cases:
  assumes "svc_ok \<phi> s"
  obtains "fmlookup (svc_live s) d = Some (\<phi> d)" "svc_seen (svc_context s) d"
  | "fmlookup (svc_live s) d = None"
  using svc_okD(1,2) [OF assms, of d] by (cases "fmlookup (svc_live s) d") auto

lemma svc_merge_assoc:
  assumes "svc_ok \<phi> s" "svc_ok \<phi> t" "svc_ok \<phi> u"
  shows "svc_merge (svc_merge s t) u = svc_merge s (svc_merge t u)"
proof (rule svc_eqI)
  fix d
  show "fmlookup (svc_live (svc_merge (svc_merge s t) u)) d
      = fmlookup (svc_live (svc_merge s (svc_merge t u))) d"
    by (rule svc_live_cases [OF assms(1), of d]; rule svc_live_cases [OF assms(2), of d];
        rule svc_live_cases [OF assms(3), of d])
      (simp_all add: svc_merge_live svc_seen_merge)
next
  fix n
  show "fmlookup (svc_context (svc_merge (svc_merge s t) u)) n
      = fmlookup (svc_context (svc_merge s (svc_merge t u))) n"
    by (simp add: svc_merge_context max.assoc split: option.split)
qed

lemma svc_merge_comm:
  assumes "svc_ok \<phi> s" "svc_ok \<phi> t"
  shows "svc_merge s t = svc_merge t s"
proof (rule svc_eqI)
  fix d
  show "fmlookup (svc_live (svc_merge s t)) d = fmlookup (svc_live (svc_merge t s)) d"
    by (rule svc_live_cases [OF assms(1), of d]; rule svc_live_cases [OF assms(2), of d])
      (simp_all add: svc_merge_live)
qed (simp add: svc_merge_context max.commute split: option.split)

lemma svc_merge_idem [simp]: "svc_merge s s = s"
  by (rule svc_eqI) (simp_all add: svc_merge_live svc_merge_context split: option.split)

interpretation svc: join_semilattice "svc_ok \<phi>" svc_merge for \<phi>
  by unfold_locales (auto intro: svc_merge_ok svc_merge_assoc svc_merge_comm)

text \<open>The two local operations, slot by slot.\<close>

lemma svc_seen_raise [crdt_simps]:
  "svc_seen (ctx_raise c (node_id d) d) d' \<longleftrightarrow> svc_seen c d' \<or> (node_id d' = node_id d \<and> d' \<le> d)"
  by (auto simp: svc_seen_def lookup_ctx_raise le_max_iff_disj split: option.splits)

lemma svc_observe_simps [crdt_simps]:
  "svc_live (svc_observe s d) = svc_live s"
  "svc_context (svc_observe s d) = ctx_raise (svc_context s) (node_id d) d"
  by (simp_all add: svc_observe_def)

lemma svc_apply_add_simps [crdt_simps]:
  "svc_live (svc_apply_add s e d) = fmupd d e (svc_live s)"
  "svc_context (svc_apply_add s e d) = ctx_raise (svc_context s) (node_id d) d"
  by (simp_all add: svc_apply_add_def svc_observe_def)

lemma svc_remove_fold:
  "fmlookup (svc_live (fold (\<lambda>d s. let s' = svc_observe s d in s'\<lparr>svc_live := fmdrop d (svc_live s')\<rparr>) ds s)) d'
     = (if d' \<in> set ds then None else fmlookup (svc_live s) d')"
  "svc_context (fold (\<lambda>d s. let s' = svc_observe s d in s'\<lparr>svc_live := fmdrop d (svc_live s')\<rparr>) ds s)
     = fold (\<lambda>d c. ctx_raise c (node_id d) d) ds (svc_context s)"
  by (induction ds arbitrary: s) (auto simp: Let_def svc_observe_def)

lemma svc_apply_remove_simps [crdt_simps]:
  "fmlookup (svc_live (svc_apply_remove s ds w)) d = (if d \<in> set ds then None else fmlookup (svc_live s) d)"
  "svc_context (svc_apply_remove s ds w)
     = fold (\<lambda>d c. ctx_raise c (node_id d) d) (w # ds) (svc_context s)"
  by (simp_all only: svc_apply_remove_def svc_remove_fold svc_observe_simps fold_simps)

lemma svc_seen_raise_list:
  "svc_seen (fold (\<lambda>d c. ctx_raise c (node_id d) d) ds c) d \<longleftrightarrow>
     svc_seen c d \<or> (\<exists>d'\<in>set ds. node_id d = node_id d' \<and> d \<le> d')"
  by (induction ds arbitrary: c) (auto simp: svc_seen_raise)

lemma svc_keyed_raise_list:
  assumes "\<And>n d. fmlookup c n = Some d \<Longrightarrow> node_id d = n"
  shows "fmlookup (fold (\<lambda>d c. ctx_raise c (node_id d) d) ds c) n = Some d \<Longrightarrow> node_id d = n"
  using assms
proof (induction ds arbitrary: c)
  case (Cons x ds)
  show ?case
    by (rule Cons.IH [of "ctx_raise c (node_id x) x"])
      (use Cons.prems in \<open>auto simp: lookup_ctx_raise max_def split: if_splits option.splits\<close>)
qed simp

lemma svc_new_ok [simp]: "svc_ok \<phi> svc_new"
  by (simp add: svc_ok_def svc_new_def)

lemma svc_apply_add_ok:
  assumes "svc_ok \<phi> s" "e = \<phi> d"
  shows "svc_ok \<phi> (svc_apply_add s e d)"
  unfolding svc_ok_def svc_apply_add_simps svc_seen_raise lookup_ctx_raise
  using svc_okD [OF assms(1)] assms(2)
  by (auto simp: max_def split: option.splits if_splits)

lemma svc_apply_remove_ok:
  assumes "svc_ok \<phi> s"
  shows "svc_ok \<phi> (svc_apply_remove s ds w)"
  unfolding svc_ok_def
proof (intro conjI allI impI)
  fix d e
  assume "fmlookup (svc_live (svc_apply_remove s ds w)) d = Some e"
  then have "fmlookup (svc_live s) d = Some e"
    by (simp add: svc_apply_remove_simps split: if_splits)
  with svc_okD(1,2) [OF assms] show "e = \<phi> d" "svc_seen (svc_context (svc_apply_remove s ds w)) d"
    by (simp_all only: svc_apply_remove_simps svc_seen_raise_list) blast
next
  fix n d
  assume "fmlookup (svc_context (svc_apply_remove s ds w)) n = Some d"
  then show "node_id d = n"
    unfolding svc_apply_remove_simps
    using svc_keyed_raise_list [of "svc_context s"] svc_okD(3) [OF assms] by blast
qed

text \<open>What a reader sees.\<close>

lemma set_dedup_first: "set (dedup_first seen xs) = set xs - fset seen"
  by (induction seen xs rule: dedup_first.induct) auto

lemma distinct_dedup_first: "distinct (dedup_first seen xs)"
  by (induction seen xs rule: dedup_first.induct) (auto simp: set_dedup_first)

lemma set_snd_sorted_list_of_fmap: "set (map snd (sorted_list_of_fmap m)) = fmran' m"
proof -
  have "v \<in> fmran' m \<longleftrightarrow> (\<exists>k. fmlookup m k = Some v)" for v
    by (auto elim: fmran'E intro: fmran'I)
  moreover have "(\<exists>k. map_of (sorted_list_of_fmap m) k = Some v)
      \<longleftrightarrow> (\<exists>k. (k, v) \<in> set (sorted_list_of_fmap m))" for v
    by (simp only: map_of_eq_Some_iff distinct_fst_sorted_list_of_fmap)
  ultimately have "v \<in> fmran' m \<longleftrightarrow> (\<exists>k. (k, v) \<in> set (sorted_list_of_fmap m))" for v
    by (simp only: map_of_sorted_list)
  then show ?thesis by (auto simp: set_eq_iff image_iff Bex_def split_paired_Ex)
qed

section \<open>Properties of the service endpoints\<close>

text \<open>
  Merging service-endpoint states is strongly convergent.  Starting from one well-formed state,
  two replicas that merged the same set of well-formed states, in any order and with any
  repetitions, hold the same state, and it is well-formed.
\<close>

theorem svc_merge_converges:
  assumes "svc_ok \<phi> s" "\<forall>t\<in>set xs. svc_ok \<phi> t" "set xs = set ys"
  shows "fold (\<lambda>t a. svc_merge a t) xs s = fold (\<lambda>t a. svc_merge a t) ys s \<and>
         svc_ok \<phi> (fold (\<lambda>t a. svc_merge a t) xs s)"
  using svc.fold_set_cong [OF assms] svc.fold_closed [OF assms(1,2)] by blast

theorem svc_merge_converges_witness:
  "let \<phi> = (\<lambda>d. ServiceEntry ''#s'' ''T'' ''u'');
       a = svc_apply_add svc_new (\<phi> (HlcTimestamp 5 0 1)) (HlcTimestamp 5 0 1);
       b = svc_apply_add svc_new (\<phi> (HlcTimestamp 6 0 2)) (HlcTimestamp 6 0 2);
       c = svc_apply_remove a [HlcTimestamp 5 0 1] (HlcTimestamp 7 0 3)
   in fold (\<lambda>t a. svc_merge a t) [a, b, c] svc_new = fold (\<lambda>t a. svc_merge a t) [c, c, a, b] svc_new"
proof -
  let ?\<phi> = "\<lambda>d::dot. ServiceEntry ''#s'' ''T'' ''u''"
  let ?a = "svc_apply_add svc_new (?\<phi> (HlcTimestamp 5 0 1)) (HlcTimestamp 5 0 1)"
  let ?b = "svc_apply_add svc_new (?\<phi> (HlcTimestamp 6 0 2)) (HlcTimestamp 6 0 2)"
  let ?c = "svc_apply_remove ?a [HlcTimestamp 5 0 1] (HlcTimestamp 7 0 3)"
  have "\<forall>t\<in>set [?a, ?b, ?c]. svc_ok ?\<phi> t"
    by (simp add: svc_apply_add_ok svc_apply_remove_ok)
  moreover have "set [?a, ?b, ?c] = set [?c, ?c, ?a, ?b]" by auto
  ultimately show ?thesis
    unfolding Let_def by (intro svc_merge_converges [OF svc_new_ok, THEN conjunct1])
qed

text \<open>
  Add wins, and only observed adds are removed.  Merging a replica that added a service
  under dot \<open>d\<close> with a replica whose removal never saw \<open>d\<close> keeps the service; merging any replica
  with one whose removal observed \<open>d\<close> and which does not hold it otherwise drops \<open>d\<close>.
\<close>

theorem svc_add_wins_observed_remove:
  assumes "svc_ok \<phi> u" "t = svc_apply_remove u dots w" "d' \<in> set dots" "\<not> svc_seen (svc_context t) d"
  shows "fmlookup (svc_live (svc_merge (svc_apply_add s e d) t)) d = Some e \<and>
         svc_contains_id (svc_merge (svc_apply_add s e d) t) (se_id e) \<and>
         fmlookup (svc_live (svc_merge s t)) d' = None"
proof -
  let ?m = "svc_merge (svc_apply_add s e d) t"
  have dead: "fmlookup (svc_live t) d' = None"
    using assms by (simp add: svc_apply_remove_simps)
  have "svc_seen (svc_context t) d'"
    using assms by (auto simp: svc_apply_remove_simps svc_seen_raise_list simp del: fold_simps)
  then have "fmlookup (svc_live (svc_merge s t)) d' = None"
    by (simp add: svc_merge_live dead split: option.split)
  moreover have "svc_ok \<phi> t"
    unfolding assms(2) by (rule svc_apply_remove_ok [OF assms(1)])
  then have "fmlookup (svc_live t) d = None"
    using assms(4) svc_okD(2) by (cases "fmlookup (svc_live t) d") auto
  then have d: "fmlookup (svc_live ?m) d = Some e"
    using assms(4) by (simp add: svc_merge_live svc_apply_add_simps)
  then have "svc_contains_id ?m (se_id e)"
    unfolding svc_contains_id_def list_ex_iff set_snd_sorted_list_of_fmap by (auto intro: fmran'I)
  ultimately show ?thesis using d by blast
qed

theorem svc_add_wins_observed_remove_witness:
  "let d = HlcTimestamp 9 0 2; d' = HlcTimestamp 5 0 1; e = ServiceEntry ''#s'' ''T'' ''u'';
       u = svc_apply_add svc_new e d'; t = svc_apply_remove u [d'] (HlcTimestamp 9 0 3)
   in fmlookup (svc_live (svc_merge (svc_apply_add u e d) t)) d = Some e \<and>
      svc_contains_id (svc_merge (svc_apply_add u e d) t) (se_id e) \<and>
      fmlookup (svc_live (svc_merge u t)) d' = None"
proof -
  let ?d = "HlcTimestamp 9 0 2" and ?d' = "HlcTimestamp 5 0 1" and ?e = "ServiceEntry ''#s'' ''T'' ''u''"
  let ?u = "svc_apply_add svc_new ?e ?d'"
  have ok: "svc_ok (\<lambda>_. ?e) ?u" by (simp add: svc_apply_add_ok)
  have unseen: "\<not> svc_seen (svc_context (svc_apply_remove ?u [?d'] (HlcTimestamp 9 0 3))) ?d"
    by code_simp
  show ?thesis
    unfolding Let_def by (rule svc_add_wins_observed_remove [OF ok refl _ unseen]) simp
qed

lemma collect_sorted_list [simp]: "collect_pairs (sorted_list_of_fmap m) = m"
  unfolding collect_pairs_def
  by (rule fmap_ext) (simp add: fold_slotwise [where h = "\<lambda>_ v _. Some v"] split: option.split)

text \<open>
  What readers see.  The snapshot of the service endpoints lists exactly the live entries,
  without repetition and sorted by id, and the membership test agrees with it; the wire form
  (two arrays of pairs) restores the state exactly.
\<close>

theorem svc_snapshot_and_wire:
  "set (svc_entries s) = fmran' (svc_live s) \<and> distinct (svc_entries s) \<and>
   sorted (map se_id (svc_entries s)) \<and>
   (svc_contains_id s i \<longleftrightarrow> i \<in> se_id ` set (svc_entries s)) \<and>
   svc_deserialize (svc_serialize s) = s"
proof -
  have set: "set (svc_entries s) = fmran' (svc_live s)"
    by (simp add: svc_entries_def set_dedup_first flip: set_snd_sorted_list_of_fmap)
  have "distinct (svc_entries s)"
    by (simp add: svc_entries_def distinct_dedup_first)
  moreover have "sorted (map se_id (svc_entries s))"
    by (simp add: svc_entries_def)
  moreover have "svc_contains_id s i \<longleftrightarrow> i \<in> se_id ` set (svc_entries s)"
    unfolding set svc_contains_id_def list_ex_iff set_snd_sorted_list_of_fmap by auto
  moreover have "svc_deserialize (svc_serialize s) = s"
    by (rule svc_eqI) (simp_all add: svc_deserialize_def svc_serialize_def collect_sorted_list)
  ultimately show ?thesis using set by blast
qed

section \<open>Laws of the registers and the latch\<close>

text \<open>
  A register whose marker determines its value (\<open>\<psi>\<close> gives the value written under each marker);
  the register with the later marker wins.
\<close>

definition reg_ok :: "('m \<Rightarrow> 'v) \<Rightarrow> ('v, 'm) lww_reg \<Rightarrow> bool" where
  "reg_ok \<psi> r \<longleftrightarrow> lww_val r = \<psi> (lww_marker r)"

definition lww_join :: "('v, 'm::linorder) lww_reg \<Rightarrow> ('v, 'm) lww_reg \<Rightarrow> ('v, 'm) lww_reg" where
  "lww_join r q = (if lww_marker r < lww_marker q then q else r)"

lemma reg_eqI: "reg_ok \<psi> r \<Longrightarrow> reg_ok \<psi> q \<Longrightarrow> lww_marker r = lww_marker q \<Longrightarrow> r = q"
  by (cases r; cases q) (simp add: reg_ok_def)

interpretation lww: join_semilattice "reg_ok \<psi>" lww_join for \<psi> :: "'m::linorder \<Rightarrow> 'v"
  by unfold_locales (auto simp: lww_join_def intro: reg_eqI)

lemma aka_merge_join: "crdts_laws E \<Longrightarrow> aka_merge E a b = lww_join a b"
  by (cases b) (simp add: aka_merge_def lww_laws_update [OF crdts_lww(3)] lww_join_def)

lemma ak_merge_join:
  assumes "crdts_laws E" "reg_ok \<psi> k" "reg_ok \<psi> l"
  shows "ak_merge E k l = lww_join k l"
  unfolding ak_merge_def lww_join_def
  by (rule lww_laws_merge [OF crdts_lww(2) [OF assms(1)]]) (rule reg_eqI [OF assms(2,3)])

interpretation aka: join_semilattice "\<lambda>a. crdts_laws E \<and> reg_ok \<psi> a" "aka_merge E" for E \<psi>
  by unfold_locales (auto simp: aka_merge_join lww.closed lww.assoc lww.idem intro: lww.comm)

interpretation ak: join_semilattice "\<lambda>k. crdts_laws E \<and> reg_ok \<psi> k" "ak_merge E" for E \<psi>
  by unfold_locales
    (auto simp: ak_merge_join [of E \<psi>] lww.closed [of \<psi>] lww.assoc [of \<psi>] lww.idem [of \<psi>] intro: lww.comm)

interpretation deact: join_semilattice "\<lambda>_. True" deact_merge
  by unfold_locales (auto simp: deact_merge_def)

interpretation vm: join_semilattice "\<lambda>_. crdts_laws E" "vm_merge E" for E
  by unfold_locales (auto simp: vm_merge_def crdts_simps)

interpretation rev: join_semilattice "\<lambda>_. crdts_laws E" "rev_merge E" for E
  by unfold_locales (auto simp: rev_merge_def crdts_simps)

interpretation rvm: join_semilattice "\<lambda>_. crdts_laws E" "rvm_merge E" for E
  by unfold_locales (auto simp: rvm_merge_def crdts_simps)

subsection \<open>Document data\<close>

definition data_ok :: "(string \<Rightarrow> hlc_timestamp \<Rightarrow> json) \<Rightarrow> document_data \<Rightarrow> bool" where
  "data_ok \<psi> m \<longleftrightarrow> (\<forall>k r. fmlookup m k = Some r \<longrightarrow> reg_ok (\<psi> k) r \<and> hlc_default < lww_marker r)"

lemma data_okD:
  "data_ok \<psi> m \<Longrightarrow> fmlookup m k = Some r \<Longrightarrow> reg_ok (\<psi> k) r"
  "data_ok \<psi> m \<Longrightarrow> fmlookup m k = Some r \<Longrightarrow> hlc_default < lww_marker r"
  by (auto simp: data_ok_def)

lemma lookup_data_set:
  assumes "crdts_laws E"
  shows "fmlookup (data_set E m k v t) k' =
    (if k' = k then Some (lww_join (case fmlookup m k of None \<Rightarrow> null_reg | Some r \<Rightarrow> r)
                            \<lparr>lww_val = v, lww_marker = t\<rparr>)
     else fmlookup m k')"
  by (simp add: data_set_def Let_def lww_laws_update [OF crdts_lww(1) [OF assms]] lww_join_def)

lemma reg_eta [simp]: "\<lparr>lww_val = lww_val r, lww_marker = lww_marker r\<rparr> = (r :: ('v, 'm) lww_reg)"
  by (cases r) simp

lemma lookup_data_merge:
  assumes "crdts_laws E"
  shows "fmlookup (data_merge E m n) k =
    (case fmlookup n k of None \<Rightarrow> fmlookup m k
     | Some r \<Rightarrow> Some (lww_join (case fmlookup m k of None \<Rightarrow> null_reg | Some q \<Rightarrow> q) r))"
  unfolding data_merge_def
  by (subst fold_slotwise [where h = "\<lambda>_ r old. Some (lww_join (case old of None \<Rightarrow> null_reg | Some q \<Rightarrow> q) r)"])
    (auto simp: lookup_data_set [OF assms])

lemma null_reg_join: "hlc_default < lww_marker r \<Longrightarrow> lww_join null_reg r = r"
  by (simp add: lww_join_def null_reg_def)

lemma data_set_ok:
  assumes "crdts_laws E" "data_ok \<psi> m" "hlc_default < t" "v = \<psi> k t"
  shows "data_ok \<psi> (data_set E m k v t)"
  unfolding data_ok_def lookup_data_set [OF assms(1)]
  using data_okD [OF assms(2)] assms(3,4)
  by (auto simp: lww_join_def reg_ok_def null_reg_def split: option.splits)

text \<open>The slot of a key in a merge, for well-formed maps.\<close>

definition slot_join :: "value_reg option \<Rightarrow> value_reg option \<Rightarrow> value_reg option" where
  "slot_join p q = (case (p, q) of (None, _) \<Rightarrow> q | (_, None) \<Rightarrow> p | (Some r, Some s) \<Rightarrow> Some (lww_join r s))"

lemma data_merge_slot:
  assumes "crdts_laws E" "data_ok \<psi> n"
  shows "fmlookup (data_merge E m n) k = slot_join (fmlookup m k) (fmlookup n k)"
  using data_okD(2) [OF assms(2), of k]
  by (simp add: lookup_data_merge [OF assms(1)] slot_join_def null_reg_join split: option.split)

lemma data_merge_ok:
  assumes "crdts_laws E" "data_ok \<psi> m" "data_ok \<psi> n"
  shows "data_ok \<psi> (data_merge E m n)"
  unfolding data_ok_def data_merge_slot [OF assms(1,3)]
  using data_okD [OF assms(2)] data_okD [OF assms(3)]
  by (auto simp: slot_join_def lww_join_def split: option.splits if_splits)

definition slot_ok :: "(string \<Rightarrow> hlc_timestamp \<Rightarrow> json) \<Rightarrow> string \<Rightarrow> value_reg option \<Rightarrow> bool" where
  "slot_ok \<psi> k p \<longleftrightarrow> (case p of None \<Rightarrow> True | Some r \<Rightarrow> reg_ok (\<psi> k) r)"

lemma data_slot_ok: "data_ok \<psi> m \<Longrightarrow> slot_ok \<psi> k (fmlookup m k)"
  using data_okD(1) [of \<psi> m k] by (simp add: slot_ok_def split: option.split)

interpretation slot: join_semilattice "slot_ok \<psi> k" slot_join for \<psi> k
  by unfold_locales
    (auto simp: slot_ok_def slot_join_def lww.closed lww.assoc lww.idem intro: lww.comm split: option.splits)

interpretation data: join_semilattice "\<lambda>m. crdts_laws E \<and> data_ok \<psi> m" "data_merge E" for E \<psi>
proof unfold_locales
  fix x y z
  assume x: "crdts_laws E \<and> data_ok \<psi> x" and y: "crdts_laws E \<and> data_ok \<psi> y"
  show "crdts_laws E \<and> data_ok \<psi> (data_merge E x y)"
    using x y by (simp add: data_merge_ok)
  note slots = data_merge_slot [of E \<psi>] data_merge_ok data_slot_ok
  show "data_merge E x y = data_merge E y x"
    using x y by (intro fmap_ext) (auto simp: slots intro: slot.comm [OF data_slot_ok data_slot_ok])
  show "data_merge E x x = x"
    using x by (intro fmap_ext) (auto simp: slots intro: slot.idem [OF data_slot_ok])
  assume z: "crdts_laws E \<and> data_ok \<psi> z"
  show "data_merge E (data_merge E x y) z = data_merge E x (data_merge E y z)"
    using x y z by (intro fmap_ext) (auto simp: slots intro: slot.assoc [OF data_slot_ok data_slot_ok data_slot_ok])
qed

text \<open>
  The last-writer-wins map converges.  Two replicas that merged the same set of maps, in any
  order and with repetitions, hold the same map, provided a key and a timestamp determine the
  value written and no write carries the default timestamp.
\<close>

theorem data_merge_converges:
  assumes "crdts_laws E" "data_ok \<psi> m" "\<forall>n\<in>set xs. data_ok \<psi> n" "set xs = set ys"
  shows "fold (\<lambda>n a. data_merge E a n) xs m = fold (\<lambda>n a. data_merge E a n) ys m"
  using data.fold_set_cong [of E \<psi> m xs ys] assms by blast

theorem data_merge_converges_witness:
  "let E = ref_externs; a = data_set E data_new ''k'' (JBool True) (HlcTimestamp 1 0 0);
       b = data_set E data_new ''k'' (JBool True) (HlcTimestamp 2 0 0)
   in fold (\<lambda>n a. data_merge E a n) [a, b] data_new = fold (\<lambda>n a. data_merge E a n) [b, a, b] data_new"
proof -
  let ?f = "\<lambda>t. data_set ref_externs data_new ''k'' (JBool True) t"
  let ?\<psi> = "\<lambda>(k::string) (t::hlc_timestamp). JBool True"
  have new: "data_ok ?\<psi> data_new" by (simp add: data_ok_def data_new_def)
  have a: "data_ok ?\<psi> (?f (HlcTimestamp 1 0 0))"
    by (rule data_set_ok [OF ref_crdts_laws new]) (code_simp, simp)
  have b: "data_ok ?\<psi> (?f (HlcTimestamp 2 0 0))"
    by (rule data_set_ok [OF ref_crdts_laws new]) (code_simp, simp)
  show ?thesis
    unfolding Let_def by (rule data_merge_converges [OF ref_crdts_laws new]) (use a b in auto)
qed

end
