(* ===== verification/Dag.thy ===== *)
theory Dag
  imports Delta
begin

text \<open>
  The delta DAG (\<open>src/core/dag.rs\<close>): a hash-indexed store of deltas with the set of referenced
  hashes and the frontier, and the queries over the causal closure.  The traversals are the
  depth-first loops of the sources: the stack is a list whose head is its top, so pushing the
  parents in order puts them in front reversed; the hash map and the hash sets are finite maps and
  sets, since the sources only look up, insert, or fold them into something order-independent.
\<close>

record delta_dag =
  dag_by_hash :: "(delta_hash, signed_delta) fmap"
  dag_referenced :: "delta_hash fset"
  dag_frontier :: "delta_hash fset"

datatype closure_query = Found | NotFound | Incomplete "delta_hash list"

section \<open>Operations\<close>

definition dag_new :: delta_dag where
  "dag_new = \<lparr>dag_by_hash = fmempty, dag_referenced = {||}, dag_frontier = {||}\<rparr>"

definition dag_len :: "delta_dag \<Rightarrow> nat" where
  "dag_len g = fcard (fmdom (dag_by_hash g))"

definition dag_is_empty :: "delta_dag \<Rightarrow> bool" where
  "dag_is_empty g \<longleftrightarrow> fmdom (dag_by_hash g) = {||}"

definition dag_contains :: "delta_dag \<Rightarrow> delta_hash \<Rightarrow> bool" where
  "dag_contains g h \<longleftrightarrow> fmlookup (dag_by_hash g) h \<noteq> None"

definition dag_get :: "delta_dag \<Rightarrow> delta_hash \<Rightarrow> signed_delta option" where
  "dag_get g h = fmlookup (dag_by_hash g) h"

definition frontier_of :: "delta_dag \<Rightarrow> delta_hash list" where
  "frontier_of g = sorted_list_of_fset (dag_frontier g)"

text \<open>The held deltas; the sources only ask whether some held delta satisfies a predicate.\<close>

definition dag_values :: "delta_dag \<Rightarrow> signed_delta list" where
  "dag_values g = map snd (sorted_list_of_fmap (dag_by_hash g))"

fun adds_key :: "string \<Rightarrow> delta_op \<Rightarrow> bool" where
  "adds_key k (AddVerificationMethod i _ _ _) \<longleftrightarrow> i = k"
| "adds_key k _ \<longleftrightarrow> False"

fun revokes_key :: "string \<Rightarrow> delta_op \<Rightarrow> bool" where
  "revokes_key k (RevokeVerificationMethod i) \<longleftrightarrow> i = k"
| "revokes_key k _ \<longleftrightarrow> False"

definition has_authorising_delta :: "delta_dag \<Rightarrow> string \<Rightarrow> bool" where
  "has_authorising_delta g key_id \<longleftrightarrow> list_ex (\<lambda>d. adds_key key_id (sd_op d)) (dag_values g)"

definition has_revoking_delta :: "delta_dag \<Rightarrow> string \<Rightarrow> bool" where
  "has_revoking_delta g key_id \<longleftrightarrow> list_ex (\<lambda>d. revokes_key key_id (sd_op d)) (dag_values g)"

definition has_deactivate_delta :: "delta_dag \<Rightarrow> bool" where
  "has_deactivate_delta g \<longleftrightarrow> list_ex (\<lambda>d. sd_op d = Deactivate) (dag_values g)"

definition incomplete_ancestors :: "delta_dag \<Rightarrow> delta_hash list" where
  "incomplete_ancestors g =
     sort (filter (\<lambda>h. \<not> dag_contains g h) (sorted_list_of_fset (dag_referenced g)))"

definition dag_insert :: "externs \<Rightarrow> delta_dag \<Rightarrow> signed_delta \<Rightarrow> (delta_hash \<times> delta_dag) result" where
  "dag_insert E g d =
     (case content_hash E d of
        Inl e \<Rightarrow> Inl e
      | Inr h \<Rightarrow>
          if dag_contains g h then Inr (h, g)
          else
            let (refd, front) = fold (\<lambda>p (r, f). (finsert p r, f |-| {|p|})) (sd_parents d)
                                  (dag_referenced g, dag_frontier g);
                front' = (if h |\<in>| refd then front else finsert h front)
            in Inr (h, \<lparr>dag_by_hash = fmupd h d (dag_by_hash g),
                        dag_referenced = refd, dag_frontier = front'\<rparr>))"

definition missing_parents :: "delta_dag \<Rightarrow> signed_delta \<Rightarrow> delta_hash list" where
  "missing_parents g d = sort_dedup (filter (\<lambda>p. \<not> dag_contains g p) (sd_parents d))"

text \<open>Pushing the unvisited parents of a delta.\<close>

definition push_parents :: "delta_hash fset \<Rightarrow> signed_delta \<Rightarrow> delta_hash list \<Rightarrow> delta_hash list" where
  "push_parents visited d stack = rev (filter (\<lambda>p. p |\<notin>| visited) (sd_parents d)) @ stack"

abbreviation dfs_measure ::
    "(delta_hash, signed_delta) fmap \<Rightarrow> delta_hash fset \<Rightarrow> delta_hash list \<Rightarrow> nat \<times> nat" where
  "dfs_measure m visited stack \<equiv> (fcard (fmdom m |-| visited), length stack)"

lemma dfs_measure_visit:
  assumes "h |\<notin>| visited" "fmlookup m h = Some d"
  shows "fcard (fmdom m |-| finsert h visited) < fcard (fmdom m |-| visited)"
proof -
  have "fmdom m |-| finsert h visited |\<subset>| fmdom m |-| visited"
    using assms by (auto intro: fmdomI)
  then show ?thesis by (rule pfsubset_fcard_mono)
qed

lemma dfs_measure_skip:
  assumes "fmlookup m h = None"
  shows "fmdom m |-| finsert h visited = fmdom m |-| visited"
  using assms by (auto simp: fmdom_notD fmdomI)

function closure_find_loop ::
    "(delta_hash, signed_delta) fmap \<Rightarrow> (signed_delta \<Rightarrow> bool) \<Rightarrow> delta_hash list \<Rightarrow> delta_hash fset
     \<Rightarrow> delta_hash list \<Rightarrow> closure_query" where
  "closure_find_loop m pred [] visited missing =
     (if missing = [] then NotFound else Incomplete (sort_dedup missing))"
| "closure_find_loop m pred (h # stack) visited missing =
     (if h |\<in>| visited then closure_find_loop m pred stack visited missing
      else case fmlookup m h of
             None \<Rightarrow> closure_find_loop m pred stack (finsert h visited) (missing @ [h])
           | Some d \<Rightarrow>
               if pred d then Found
               else closure_find_loop m pred (push_parents (finsert h visited) d stack)
                      (finsert h visited) missing)"
  by pat_completeness auto
termination
  by (relation "inv_image (less_than <*lex*> less_than)
        (\<lambda>(m, pred, stack, visited, missing). dfs_measure m visited stack)")
    (auto simp: dfs_measure_visit dfs_measure_skip)

definition closure_find :: "delta_dag \<Rightarrow> delta_hash list \<Rightarrow> (signed_delta \<Rightarrow> bool) \<Rightarrow> closure_query" where
  "closure_find g parents pred = closure_find_loop (dag_by_hash g) pred (rev parents) {||} []"

definition closure_complete :: "delta_dag \<Rightarrow> delta_hash list \<Rightarrow> bool" where
  "closure_complete g parents \<longleftrightarrow> closure_find g parents (\<lambda>_. False) = NotFound"

function closure_collect_loop ::
    "(delta_hash, signed_delta) fmap \<Rightarrow> (signed_delta \<Rightarrow> 'a option) \<Rightarrow> delta_hash list \<Rightarrow> delta_hash fset
     \<Rightarrow> 'a list \<Rightarrow> 'a list" where
  "closure_collect_loop m f [] visited out = out"
| "closure_collect_loop m f (h # stack) visited out =
     (if h |\<in>| visited then closure_collect_loop m f stack visited out
      else case fmlookup m h of
             None \<Rightarrow> closure_collect_loop m f stack (finsert h visited) out
           | Some d \<Rightarrow>
               closure_collect_loop m f (push_parents (finsert h visited) d stack) (finsert h visited)
                 (case f d of None \<Rightarrow> out | Some t \<Rightarrow> out @ [t]))"
  by pat_completeness auto
termination
  by (relation "inv_image (less_than <*lex*> less_than)
        (\<lambda>(m, f, stack, visited, out). dfs_measure m visited stack)")
    (auto simp: dfs_measure_visit dfs_measure_skip)

definition closure_collect :: "delta_dag \<Rightarrow> delta_hash list \<Rightarrow> (signed_delta \<Rightarrow> 'a option) \<Rightarrow> 'a list" where
  "closure_collect g parents f = closure_collect_loop (dag_by_hash g) f (rev parents) {||} []"

section \<open>The traversal order and the causal closure\<close>

text \<open>
  All the traversals visit the same hashes in the same order; \<open>dfs\<close> lists them.  The causal closure
  of a list of hashes is what the parent links reach from it.
\<close>

function dfs ::
    "(delta_hash, signed_delta) fmap \<Rightarrow> delta_hash list \<Rightarrow> delta_hash fset \<Rightarrow> delta_hash list" where
  "dfs m [] visited = []"
| "dfs m (h # stack) visited =
     (if h |\<in>| visited then dfs m stack visited
      else h # (case fmlookup m h of
                  None \<Rightarrow> dfs m stack (finsert h visited)
                | Some d \<Rightarrow> dfs m (push_parents (finsert h visited) d stack) (finsert h visited)))"
  by pat_completeness auto
termination
  by (relation "inv_image (less_than <*lex*> less_than)
        (\<lambda>(m, stack, visited). dfs_measure m visited stack)")
    (auto simp: dfs_measure_visit dfs_measure_skip)

definition dag_edges :: "(delta_hash, signed_delta) fmap \<Rightarrow> (delta_hash \<times> delta_hash) set" where
  "dag_edges m = {(h, p). \<exists>d. fmlookup m h = Some d \<and> p \<in> set (sd_parents d)}"

definition closure_of :: "delta_dag \<Rightarrow> delta_hash list \<Rightarrow> delta_hash set" where
  "closure_of g ps = (dag_edges (dag_by_hash g))\<^sup>* `` set ps"

lemma set_push_parents [simp]:
  "set (push_parents visited d stack) = (set (sd_parents d) - fset visited) \<union> set stack"
  by (auto simp: push_parents_def)

lemma dag_edgesI: "fmlookup m h = Some d \<Longrightarrow> p \<in> set (sd_parents d) \<Longrightarrow> (h, p) \<in> dag_edges m"
  by (auto simp: dag_edges_def)

lemma dfs_reach: "h \<in> set (dfs m stack visited) \<Longrightarrow> h \<in> (dag_edges m)\<^sup>* `` set stack"
proof (induction m stack visited rule: dfs.induct)
  case (2 m x stack visited)
  consider "x |\<in>| visited" | "x |\<notin>| visited" "fmlookup m x = None"
    | d where "x |\<notin>| visited" "fmlookup m x = Some d" by fastforce
  then show ?case
  proof cases
    case 3
    show ?thesis
    proof (cases "h = x")
      case False
      with 2 3 have "h \<in> (dag_edges m)\<^sup>* `` set (push_parents (finsert x visited) d stack)" by auto
      then show ?thesis
        by (auto dest: dag_edgesI [OF 3(2)] intro: converse_rtrancl_into_rtrancl)
    qed auto
  qed (use 2 in auto)
qed simp

lemma dfs_covers: "set stack \<subseteq> fset visited \<union> set (dfs m stack visited)"
  by (induction m stack visited rule: dfs.induct) (auto split: option.splits)

lemma dfs_closed:
  "h \<in> set (dfs m stack visited) \<Longrightarrow> (h, p) \<in> dag_edges m \<Longrightarrow> p \<in> fset visited \<union> set (dfs m stack visited)"
proof (induction m stack visited rule: dfs.induct)
  case (2 m x stack visited)
  consider "x |\<in>| visited" | "x |\<notin>| visited" "fmlookup m x = None"
    | d where "x |\<notin>| visited" "fmlookup m x = Some d" by fastforce
  then show ?case
  proof cases
    case 3
    have "p \<in> insert x (fset visited) \<union> set (dfs m (push_parents (finsert x visited) d stack) (finsert x visited))"
      if "h = x"
      using that 2 3 dfs_covers [of "push_parents (finsert x visited) d stack" "finsert x visited" m]
      by (auto simp: dag_edges_def)
    with 2 3 show ?thesis by auto
  qed (use 2 in \<open>auto simp: dag_edges_def\<close>)
qed simp

lemma dfs_fresh: "distinct (dfs m stack visited) \<and> set (dfs m stack visited) \<inter> fset visited = {}"
  by (induction m stack visited rule: dfs.induct) (auto split: option.splits)

lemma set_dfs: "set (dfs m stack {||}) = (dag_edges m)\<^sup>* `` set stack"
proof
  show "(dag_edges m)\<^sup>* `` set stack \<subseteq> set (dfs m stack {||})"
  proof
    fix h
    assume "h \<in> (dag_edges m)\<^sup>* `` set stack"
    then obtain s where "(s, h) \<in> (dag_edges m)\<^sup>*" "s \<in> set stack" by blast
    then show "h \<in> set (dfs m stack {||})"
    proof (induction rule: rtrancl_induct)
      case base
      then show ?case using dfs_covers [of stack "{||}" m] by auto
    next
      case (step y z)
      then show ?case using dfs_closed [of y m stack "{||}" z] by simp
    qed
  qed
qed (blast dest: dfs_reach)

lemma set_dfs_rev [simp]: "set (dfs (dag_by_hash g) (rev ps) {||}) = closure_of g ps"
  by (simp add: set_dfs closure_of_def)

lemma finite_closure_of [simp]: "finite (closure_of g ps)"
  by (metis List.finite_set set_dfs_rev)

lemma set_map_filter: "set (List.map_filter f xs) = {y. \<exists>x\<in>set xs. f x = Some y}"
  by (induction xs) (auto simp: List.map_filter_simps split: option.splits)

text \<open>Each loop is a fold over the traversal order.\<close>

fun query_of ::
    "(delta_hash, signed_delta) fmap \<Rightarrow> (signed_delta \<Rightarrow> bool) \<Rightarrow> delta_hash list \<Rightarrow> delta_hash list
     \<Rightarrow> closure_query" where
  "query_of m pred [] missing = (if missing = [] then NotFound else Incomplete (sort_dedup missing))"
| "query_of m pred (h # hs) missing =
     (case fmlookup m h of
        None \<Rightarrow> query_of m pred hs (missing @ [h])
      | Some d \<Rightarrow> if pred d then Found else query_of m pred hs missing)"

lemma closure_find_loop_dfs:
  "closure_find_loop m pred stack visited missing = query_of m pred (dfs m stack visited) missing"
  by (induction m pred stack visited missing rule: closure_find_loop.induct)
    (simp_all split: option.split)

lemma query_of_eq:
  "query_of m pred hs missing =
     (let ms = missing @ filter (\<lambda>h. fmlookup m h = None) hs
      in if \<exists>h\<in>set hs. \<exists>d. fmlookup m h = Some d \<and> pred d then Found
         else if ms = [] then NotFound else Incomplete (sort_dedup ms))"
  by (induction hs arbitrary: missing) (auto simp: Let_def split: option.split)

lemma closure_collect_loop_dfs:
  "closure_collect_loop m f stack visited out =
     out @ List.map_filter (\<lambda>h. Option.bind (fmlookup m h) f) (dfs m stack visited)"
  by (induction m f stack visited out rule: closure_collect_loop.induct)
    (auto simp: List.map_filter_simps split: option.splits)

section \<open>What the closure queries return\<close>

text \<open>
  C28: The closure search is exact.  It answers \<open>Found\<close> when some held delta of the causal closure
  satisfies the predicate, whatever is missing; otherwise \<open>NotFound\<close> when the whole closure is held,
  and \<open>Incomplete\<close> with precisely the missing hashes of the closure, sorted without repetition, when
  it is not.
\<close>

theorem closure_find_exact:
  "closure_find g parents pred =
     (if \<exists>h d. h \<in> closure_of g parents \<and> dag_get g h = Some d \<and> pred d then Found
      else if closure_of g parents \<subseteq> {h. dag_contains g h} then NotFound
      else Incomplete (sorted_list_of_set {h \<in> closure_of g parents. \<not> dag_contains g h}))"
proof -
  let ?hs = "dfs (dag_by_hash g) (rev parents) {||}"
  have ms: "filter (\<lambda>h. fmlookup (dag_by_hash g) h = None) ?hs = [] \<longleftrightarrow>
      closure_of g parents \<subseteq> {h. dag_contains g h}"
    by (auto simp: filter_empty_conv dag_contains_def)
  have "sort_dedup (filter (\<lambda>h. fmlookup (dag_by_hash g) h = None) ?hs) =
      sorted_list_of_set {h \<in> closure_of g parents. \<not> dag_contains g h}"
    by (simp add: sort_dedup_eq dag_contains_def)
  with ms show ?thesis
    by (simp add: closure_find_def closure_find_loop_dfs query_of_eq Let_def dag_get_def Bex_def)
qed

lemma closure_collect_set:
  "set (closure_collect g parents f) =
     {t. \<exists>h d. h \<in> closure_of g parents \<and> dag_get g h = Some d \<and> f d = Some t}"
  by (auto simp: closure_collect_def closure_collect_loop_dfs set_map_filter dag_get_def
      bind_eq_Some_conv)

text \<open>
  Collecting over the closure returns exactly the results of the held deltas that the parent
  links reach: no ancestor is skipped, nothing outside the causal past is read.
\<close>

theorem closure_collect_exact:
  "set (closure_collect g parents f) =
     {t. \<exists>h d. h \<in> closure_of g parents \<and> dag_get g h = Some d \<and> f d = Some t}"
  by (rule closure_collect_set)

lemma closure_complete_iff:
  "closure_complete g parents \<longleftrightarrow> (\<forall>h\<in>closure_of g parents. dag_contains g h)"
  by (auto simp: closure_complete_def closure_find_def closure_find_loop_dfs query_of_eq Let_def
      filter_empty_conv dag_contains_def)

section \<open>The store\<close>

text \<open>
  The contract of a content-addressed store: inserting puts a delta under its key unless the key is
  taken, and nothing is ever dropped.  Reconciliation and the document rely on nothing else of it.
\<close>

locale delta_store =
  fixes get :: "'s \<Rightarrow> 'k \<Rightarrow> 'd option" and put :: "'s \<Rightarrow> 'd \<Rightarrow> 's" and key :: "'d \<Rightarrow> 'k"
  assumes get_put: "get (put s d) h = (if get s h = None \<and> h = key d then Some d else get s h)"
begin

lemma put_idem: "get (put (put s d) d) = get (put s d)"
  by (auto simp: get_put fun_eq_iff)

lemma get_put_all:
  "get (fold (\<lambda>d s. put s d) ds s) h =
     (case get s h of Some d \<Rightarrow> Some d | None \<Rightarrow> find (\<lambda>d. key d = h) ds)"
  by (induction ds arbitrary: s) (auto simp: get_put split: option.split)

lemma put_all_grows: "get s h = Some d \<Longrightarrow> get (fold (\<lambda>d s. put s d) ds s) h = Some d"
  by (simp add: get_put_all)

lemma held_put_all:
  "get (fold (\<lambda>d s. put s d) ds s) h \<noteq> None \<longleftrightarrow> get s h \<noteq> None \<or> h \<in> key ` set ds"
proof -
  have "find (\<lambda>d. key d = h) ds \<noteq> None \<longleftrightarrow> h \<in> key ` set ds"
    unfolding find_None_iff by auto
  then show ?thesis by (simp add: get_put_all split: option.split)
qed

end

definition dag_put :: "externs \<Rightarrow> delta_dag \<Rightarrow> signed_delta \<Rightarrow> delta_dag" where
  "dag_put E g d = (case dag_insert E g d of Inl _ \<Rightarrow> g | Inr (h, g') \<Rightarrow> g')"

lemma fold_ref_front:
  "fold (\<lambda>p (r, f). (finsert p r, f |-| {|p|})) ps (r, f) = (r |\<union>| fset_of_list ps, f |-| fset_of_list ps)"
  by (induction ps arbitrary: r f) auto

lemma dag_put_simps [dag_simps]:
  "dag_by_hash (dag_put E g d) =
     (if dag_contains g (delta_id E d) then dag_by_hash g else fmupd (delta_id E d) d (dag_by_hash g))"
  "dag_referenced (dag_put E g d) =
     (if dag_contains g (delta_id E d) then dag_referenced g
      else dag_referenced g |\<union>| fset_of_list (sd_parents d))"
  "dag_frontier (dag_put E g d) =
     (if dag_contains g (delta_id E d) then dag_frontier g
      else (let f = dag_frontier g |-| fset_of_list (sd_parents d)
            in if delta_id E d |\<in>| dag_referenced g |\<union>| fset_of_list (sd_parents d) then f
               else finsert (delta_id E d) f))"
  by (simp_all add: dag_put_def dag_insert_def fold_ref_front Let_def)

lemma dag_insert_put: "dag_insert E g d = Inr (delta_id E d, dag_put E g d)"
  by (simp add: dag_put_def dag_insert_def split: prod.split)

interpretation dag: delta_store dag_get "dag_put E" "delta_id E" for E
  by unfold_locales (simp add: dag_get_def dag_contains_def dag_put_simps)

lemma dag_contains_get: "dag_contains g h \<longleftrightarrow> dag_get g h \<noteq> None"
  by (simp add: dag_contains_def dag_get_def)

text \<open>
  The invariant of the store: every delta is filed under its content hash, the referenced hashes
  are the parents of held deltas, and the frontier is what is held and not referenced.
\<close>

definition dag_ok :: "externs \<Rightarrow> delta_dag \<Rightarrow> bool" where
  "dag_ok E g \<longleftrightarrow>
     (\<forall>h d. dag_get g h = Some d \<longrightarrow> delta_id E d = h) \<and>
     fset (dag_referenced g) = {p. \<exists>h d. dag_get g h = Some d \<and> p \<in> set (sd_parents d)} \<and>
     fset (dag_frontier g) = {h. dag_contains g h \<and> h |\<notin>| dag_referenced g}"

lemma dag_okD:
  assumes "dag_ok E g"
  shows "dag_get g h = Some d \<Longrightarrow> delta_id E d = h"
    "p |\<in>| dag_referenced g \<longleftrightarrow> (\<exists>h d. dag_get g h = Some d \<and> p \<in> set (sd_parents d))"
    "h |\<in>| dag_frontier g \<longleftrightarrow> dag_contains g h \<and> h |\<notin>| dag_referenced g"
  using assms by (auto simp: dag_ok_def)

lemma dag_get_new [simp]: "dag_get dag_new h = None"
  by (simp add: dag_new_def dag_get_def)

lemma dag_new_ok [simp]: "dag_ok E dag_new"
  by (simp add: dag_ok_def dag_new_def dag_get_def dag_contains_def)

lemma dag_put_ok:
  assumes "dag_ok E g"
  shows "dag_ok E (dag_put E g d)"
proof (cases "dag_contains g (delta_id E d)")
  case True
  then have "dag_put E g d = g" by (simp add: dag_put_def dag_insert_def)
  with assms show ?thesis by simp
next
  case False
  then have get: "dag_get (dag_put E g d) h = (if h = delta_id E d then Some d else dag_get g h)" for h
    using dag.get_put [of E g d h] by (auto simp: dag_contains_get)
  have held: "dag_contains (dag_put E g d) h \<longleftrightarrow> h = delta_id E d \<or> dag_contains g h" for h
    by (simp add: dag_contains_get get)
  have ref: "p |\<in>| dag_referenced (dag_put E g d) \<longleftrightarrow>
      (\<exists>h d'. dag_get (dag_put E g d) h = Some d' \<and> p \<in> set (sd_parents d'))" for p
    using False by (auto simp: dag_put_simps get dag_okD(2) [OF assms] fset_of_list_elem dag_contains_get)
      (metis option.distinct(1))
  have front: "h |\<in>| dag_frontier (dag_put E g d) \<longleftrightarrow>
      dag_contains (dag_put E g d) h \<and> h |\<notin>| dag_referenced (dag_put E g d)" for h
    using False by (auto simp: dag_put_simps Let_def held dag_okD(3) [OF assms] fset_of_list_elem)
  show ?thesis
    unfolding dag_ok_def
  proof (intro conjI allI impI set_eqI)
    fix h x
    assume "dag_get (dag_put E g d) h = Some x"
    then show "delta_id E x = h"
      using dag_okD(1) [OF assms] by (auto simp: get split: if_splits)
  qed (simp_all only: ref front mem_Collect_eq)
qed

lemma dag_put_all_ok: "dag_ok E g \<Longrightarrow> dag_ok E (fold (\<lambda>d g. dag_put E g d) ds g)"
  by (induction ds arbitrary: g) (auto intro: dag_put_ok)

text \<open>
  Inserting a delta never fails, files it under its content hash unless that hash is held, and
  keeps the invariant of the store, in particular that the frontier is exactly the set of held
  hashes no held delta references; inserting it again changes nothing.
\<close>

theorem dag_insert_frontier:
  assumes "dag_ok E g"
  shows "\<exists>g'. dag_insert E g d = Inr (delta_id E d, g') \<and> dag_ok E g' \<and>
           dag_get g' (delta_id E d) \<noteq> None \<and>
           set (frontier_of g') = {h. dag_contains g' h} - {p. \<exists>h x. dag_get g' h = Some x \<and> p \<in> set (sd_parents x)} \<and>
           dag_insert E g' d = Inr (delta_id E d, g')"
proof -
  let ?g = "dag_put E g d"
  have ok: "dag_ok E ?g" by (rule dag_put_ok [OF assms])
  have held: "dag_get ?g (delta_id E d) \<noteq> None" by (simp add: dag.get_put)
  then have "dag_insert E ?g d = Inr (delta_id E d, ?g)"
    by (simp add: dag_insert_def dag_contains_get)
  moreover have "set (frontier_of ?g) =
      {h. dag_contains ?g h} - {p. \<exists>h x. dag_get ?g h = Some x \<and> p \<in> set (sd_parents x)}"
    using dag_okD(2,3) [OF ok] by (auto simp: frontier_of_def)
  ultimately have "dag_insert E g d = Inr (delta_id E d, ?g) \<and> dag_ok E ?g \<and>
      dag_get ?g (delta_id E d) \<noteq> None \<and>
      set (frontier_of ?g) = {h. dag_contains ?g h} - {p. \<exists>h x. dag_get ?g h = Some x \<and> p \<in> set (sd_parents x)} \<and>
      dag_insert E ?g d = Inr (delta_id E d, ?g)"
    by (intro conjI dag_insert_put ok held)
  then show ?thesis by (rule exI)
qed

text \<open>Two deltas with one content hash have one payload: no hash collision among \<open>D\<close>.\<close>

definition collision_free :: "externs \<Rightarrow> signed_delta set \<Rightarrow> bool" where
  "collision_free E D \<longleftrightarrow> (\<forall>x\<in>D. \<forall>y\<in>D. delta_id E x = delta_id E y \<longrightarrow> payload x = payload y)"

lemma collision_freeD:
  "collision_free E D \<Longrightarrow> x \<in> D \<Longrightarrow> y \<in> D \<Longrightarrow> delta_id E x = delta_id E y \<Longrightarrow> payload x = payload y"
  unfolding collision_free_def by blast

lemma collision_free_subset: "D \<subseteq> D' \<Longrightarrow> collision_free E D' \<Longrightarrow> collision_free E D"
  unfolding collision_free_def by blast

lemma payload_eqD:
  assumes "payload x = payload y"
  shows "sd_did x = sd_did y" "sd_timestamp x = sd_timestamp y" "sd_op x = sd_op y"
    "sd_parents x = sd_parents y"
  using assms by (simp_all add: payload_def)

lemma dag_of_list_get:
  assumes "dag_get (fold (\<lambda>d g. dag_put E g d) xs dag_new) h = Some x"
  shows "x \<in> set xs \<and> delta_id E x = h"
  using assms by (auto simp: dag.get_put_all find_Some_iff)

text \<open>
  The DAG built from a set of deltas does not depend on the order (or repetition) of arrival:
  it holds the same hashes, references the same parents and has the same frontier, namely the
  hashes of the set that no member names as a parent.
\<close>

theorem dag_order_independent:
  assumes "collision_free E (set xs)" "set xs = set ys"
  shows "(let g = fold (\<lambda>d g. dag_put E g d) xs dag_new; g' = fold (\<lambda>d g. dag_put E g d) ys dag_new
          in fmdom (dag_by_hash g) = fmdom (dag_by_hash g') \<and>
             dag_referenced g = dag_referenced g' \<and> frontier_of g = frontier_of g' \<and>
             set (frontier_of g) = delta_id E ` set xs - (\<Union>x\<in>set xs. set (sd_parents x)))"
proof -
  let ?G = "\<lambda>zs. fold (\<lambda>d g. dag_put E g d) zs dag_new"
  have held: "dag_contains (?G zs) h \<longleftrightarrow> h \<in> delta_id E ` set zs" for zs h
    unfolding dag_contains_get dag.held_put_all by simp
  have ref: "p |\<in>| dag_referenced (?G zs) \<longleftrightarrow> (\<exists>x\<in>set zs. p \<in> set (sd_parents x))"
    if "set zs = set xs" for zs p
  proof -
    have "\<exists>h x'. dag_get (?G zs) h = Some x' \<and> sd_parents x' = sd_parents x" if x: "x \<in> set zs" for x
    proof -
      obtain x' where "dag_get (?G zs) (delta_id E x) = Some x'"
        using held [of zs "delta_id E x"] x by (auto simp: dag_contains_get)
      with dag_of_list_get [OF this] x \<open>set zs = set xs\<close> collision_freeD [OF assms(1)] payload_eqD(4)
      show ?thesis by metis
    qed
    then show ?thesis
      unfolding dag_okD(2) [OF dag_put_all_ok [OF dag_new_ok]] using dag_of_list_get by metis
  qed
  have front: "h |\<in>| dag_frontier (?G zs) \<longleftrightarrow>
      h \<in> delta_id E ` set xs - (\<Union>x\<in>set xs. set (sd_parents x))" if "set zs = set xs" for zs h
    using ref [OF that] held [of zs] that by (auto simp: dag_okD(3) [OF dag_put_all_ok [OF dag_new_ok]])
  have "fmdom (dag_by_hash (?G zs)) = fset_of_list (map (delta_id E) zs)" for zs
    using held [of zs]
    by (intro fset_eqI) (simp add: dag_contains_def fmlookup_dom_iff fset_of_list.rep_eq)
  moreover have "fset_of_list (map (delta_id E) xs) = fset_of_list (map (delta_id E) ys)"
    using assms(2) by (intro fset_eqI) (simp add: fset_of_list.rep_eq)
  moreover have "dag_referenced (?G xs) = dag_referenced (?G ys)"
    using ref [of xs] ref [of ys] assms(2) by (intro fset_eqI) simp
  moreover have "dag_frontier (?G xs) = dag_frontier (?G ys)"
    using front [of xs] front [of ys] assms(2) by (intro fset_eqI) simp
  ultimately show ?thesis
    using front [of xs] by (auto simp: Let_def frontier_of_def)
qed

section \<open>Examples\<close>

text \<open>
  Deltas of a small history, to evaluate the model on: signer \<open>#k\<close>, times 1, 2, 3, \<open>\<dots>\<close>.  The
  evaluation uses a variant of the reference instance whose hash reads the last number of the
  canonical text, the time of the delta, so that the hashes of the examples are single letters.
\<close>

definition ex_externs :: externs where
  "ex_externs = ref_externs\<lparr>blake3 := (\<lambda>b. b), to_hex := (\<lambda>b. [char_of (unat (rev b ! 2))]),
     scalar_to_string := (\<lambda>v. case v of JNumber (PosInt w) \<Rightarrow> [char_of (unat w)] | _ \<Rightarrow> '''')\<rparr>"

lemma ex_crdts_laws [simp]: "crdts_laws ex_externs"
  using ref_crdts_laws by (simp add: crdts_laws_def ex_externs_def)

lemma ex_delta_id [simp]:
  "delta_id ex_externs d = DeltaHash [char_of (unat (wall_ms (sd_timestamp d)))]"
  by (simp add: delta_id_def payload_value_def timestamp_value_def u64_value_def ex_externs_def
      str_bytes_def unat_of_nat)

definition ex_delta :: "u64 \<Rightarrow> delta_op \<Rightarrow> delta_hash list \<Rightarrow> signed_delta" where
  "ex_delta w op ps =
     \<lparr>sd_did = Did ''d'', sd_timestamp = HlcTimestamp w 0 0, sd_op = op, sd_parents = ps,
      sd_proof = \<lparr>pr_suite = Ed25519Signature2020, pr_verification_method = ''#k'',
        pr_created = '''', pr_proof_value = ''''\<rparr>\<rparr>"

lemma ex_delta_simps [simp]:
  "sd_did (ex_delta w op ps) = Did ''d''" "sd_timestamp (ex_delta w op ps) = HlcTimestamp w 0 0"
  "sd_op (ex_delta w op ps) = op" "sd_parents (ex_delta w op ps) = ps"
  "pr_verification_method (sd_proof (ex_delta w op ps)) = ''#k''"
  by (simp_all add: ex_delta_def)

definition ex_genesis :: signed_delta where
  "ex_genesis = ex_delta 1 (AddVerificationMethod ''#k'' ''uk'' Ed25519Signature2020 [Authentication]) []"

definition ex_child :: signed_delta where
  "ex_child = ex_delta 2 (RevokeCredential ''c'') [DeltaHash [char_of (1::nat)]]"

lemmas ex_deltas = ex_genesis_def ex_child_def

definition ex_dag :: delta_dag where
  "ex_dag = \<lparr>dag_by_hash = fmupd (DeltaHash [char_of (1::nat)]) ex_genesis fmempty,
     dag_referenced = {||}, dag_frontier = {|DeltaHash [char_of (1::nat)]|}\<rparr>"

lemma ex_dag_put: "dag_put ex_externs dag_new ex_genesis = ex_dag"
  by (simp add: dag_put_def dag_insert_def dag_contains_def dag_new_def ex_deltas ex_dag_def)

lemma ex_dag_ok [simp]: "dag_ok ex_externs ex_dag"
  unfolding ex_dag_put [symmetric] by (rule dag_put_ok [OF dag_new_ok])

lemma ex_collision_free: "collision_free ex_externs {ex_child, ex_genesis}"
  by (simp add: collision_free_def ex_deltas)

theorem dag_insert_frontier_witness:
  "\<exists>g'. dag_insert ex_externs dag_new ex_child = Inr (delta_id ex_externs ex_child, g') \<and> dag_ok ex_externs g' \<and>
     set (frontier_of g') = {h. dag_contains g' h} - {p. \<exists>h x. dag_get g' h = Some x \<and> p \<in> set (sd_parents x)}"
  using dag_insert_frontier [OF dag_new_ok [of ex_externs], of ex_child] by blast

theorem dag_order_independent_witness:
  "set (frontier_of (fold (\<lambda>d g. dag_put ex_externs g d) [ex_child, ex_genesis] dag_new))
     = {delta_id ex_externs ex_child}"
proof -
  have "collision_free ex_externs (set [ex_child, ex_genesis])" by (simp add: ex_collision_free)
  moreover have "set [ex_child, ex_genesis] = set [ex_genesis, ex_child]" by auto
  ultimately have "set (frontier_of (fold (\<lambda>d g. dag_put ex_externs g d) [ex_child, ex_genesis] dag_new))
      = delta_id ex_externs ` set [ex_child, ex_genesis] - (\<Union>x\<in>set [ex_child, ex_genesis]. set (sd_parents x))"
    by (rule dag_order_independent [unfolded Let_def, THEN conjunct2, THEN conjunct2, THEN conjunct2])
  also have "\<dots> = {delta_id ex_externs ex_child}"
    by (simp add: ex_deltas insert_Diff_if)
  finally show ?thesis .
qed

end
