(* ===== verification/Admission.thy ===== *)
theory Admission
  imports Types
begin

text \<open>
  The three-valued admission result (\<open>src/core/admission.rs\<close>): its conjunction \<open>meet\<close>, the threshold
  tests, the fetch list and the knowledge order.
\<close>

text \<open>The derived order of \<open>RejectReason\<close> is the order of its variants.\<close>

fun reject_rank :: "reject_reason \<Rightarrow> nat" where
  "reject_rank RR_DidMismatch = 0"
| "reject_rank RR_Deactivated = 1"
| "reject_rank RR_GenesisOpNotAllowed = 2"
| "reject_rank RR_SignerNotAuthorised = 3"
| "reject_rank RR_StaleRotation = 4"
| "reject_rank RR_Revoked = 5"
| "reject_rank RR_BadSignature = 6"
| "reject_rank RR_TooLarge = 7"

lemma reject_rank_inject: "reject_rank x = reject_rank y \<longleftrightarrow> x = y"
  by (cases x; cases y) auto

instantiation reject_reason :: linorder
begin

definition less_eq_reject_reason :: "reject_reason \<Rightarrow> reject_reason \<Rightarrow> bool" where
  "less_eq_reject_reason x y \<longleftrightarrow> reject_rank x \<le> reject_rank y"

definition less_reject_reason :: "reject_reason \<Rightarrow> reject_reason \<Rightarrow> bool" where
  "less_reject_reason x y \<longleftrightarrow> reject_rank x < reject_rank y"

instance
  by standard (auto simp: less_eq_reject_reason_def less_reject_reason_def reject_rank_inject)

end

datatype admission_result = Unknown "delta_hash list" | Valid | Invalid reject_reason

definition merge_missing :: "delta_hash list \<Rightarrow> delta_hash list \<Rightarrow> delta_hash list" where
  "merge_missing a b = sort_dedup (a @ b)"

fun meet :: "admission_result \<Rightarrow> admission_result \<Rightarrow> admission_result" where
  "meet (Invalid a) (Invalid b) = Invalid (min a b)"
| "meet (Invalid r) _ = Invalid r"
| "meet _ (Invalid r) = Invalid r"
| "meet (Unknown a) (Unknown b) = Unknown (merge_missing a b)"
| "meet (Unknown a) Valid = Unknown a"
| "meet Valid (Unknown a) = Unknown a"
| "meet Valid Valid = Valid"

fun is_resolved :: "admission_result \<Rightarrow> bool" where
  "is_resolved (Unknown _) \<longleftrightarrow> False"
| "is_resolved _ \<longleftrightarrow> True"

definition is_stable :: "admission_result \<Rightarrow> bool" where
  "is_stable a \<longleftrightarrow> is_resolved a"

fun missing :: "admission_result \<Rightarrow> delta_hash list" where
  "missing (Unknown m) = m"
| "missing _ = []"

datatype ordering = Less | Equal | Greater

fun admission_cmp :: "admission_result \<Rightarrow> admission_result \<Rightarrow> ordering option" where
  "admission_cmp (Unknown _) (Unknown _) = Some Equal"
| "admission_cmp Valid Valid = Some Equal"
| "admission_cmp (Invalid _) (Invalid _) = Some Equal"
| "admission_cmp (Unknown _) _ = Some Less"
| "admission_cmp _ (Unknown _) = Some Greater"
| "admission_cmp Valid (Invalid _) = None"
| "admission_cmp (Invalid _) Valid = None"

section \<open>Algebra of the conjunction\<close>

text \<open>
  The fetch lists that the program puts into \<open>Unknown\<close> are sorted without repetition; on those
  results the conjunction is a semilattice operation.
\<close>

definition admission_ok :: "admission_result \<Rightarrow> bool" where
  "admission_ok a \<longleftrightarrow> sorted (missing a) \<and> distinct (missing a)"

lemma merge_missing_eq: "merge_missing a b = sorted_list_of_set (set a \<union> set b)"
  by (simp add: merge_missing_def sort_dedup_eq)

lemma set_merge_missing [simp]: "set (merge_missing a b) = set a \<union> set b"
  by (simp add: merge_missing_def)

interpretation admission: join_semilattice admission_ok meet
proof unfold_locales
  fix x y z
  show "admission_ok x \<Longrightarrow> admission_ok y \<Longrightarrow> admission_ok (meet x y)"
    by (cases x; cases y) (simp_all add: admission_ok_def merge_missing_def)
  show "meet (meet x y) z = meet x (meet y z)" if "admission_ok x" "admission_ok y" "admission_ok z"
    by (cases x; cases y; cases z) (simp_all add: min.assoc merge_missing_eq Un_assoc)
  show "meet x y = meet y x"
    by (cases x; cases y) (simp_all add: min.commute merge_missing_eq Un_commute)
  show "admission_ok x \<Longrightarrow> meet x x = x"
    by (cases x) (simp_all add: admission_ok_def merge_missing_def sort_dedup_eq
        sorted_list_of_set.idem_if_sorted_distinct)
qed

text \<open>The conjunction of a list of sub-checks, combined from the left.\<close>

definition meet_all :: "admission_result list \<Rightarrow> admission_result" where
  "meet_all rs = fold (\<lambda>r a. meet a r) rs Valid"

fun is_invalid :: "admission_result \<Rightarrow> bool" where
  "is_invalid (Invalid _) \<longleftrightarrow> True"
| "is_invalid _ \<longleftrightarrow> False"

lemma is_invalid_meet: "is_invalid (meet x y) \<longleftrightarrow> is_invalid x \<or> is_invalid y"
  by (cases x; cases y) auto

lemma meet_Valid_iff: "meet x y = Valid \<longleftrightarrow> x = Valid \<and> y = Valid"
  by (cases x; cases y) auto

lemma missing_meet: "\<not> is_invalid (meet x y) \<Longrightarrow> set (missing (meet x y)) = set (missing x) \<union> set (missing y)"
  by (cases x; cases y) auto

lemma fold_meet:
  "is_invalid (fold (\<lambda>r a. meet a r) rs a) \<longleftrightarrow> is_invalid a \<or> (\<exists>r\<in>set rs. is_invalid r)"
  "fold (\<lambda>r a. meet a r) rs a = Valid \<longleftrightarrow> a = Valid \<and> (\<forall>r\<in>set rs. r = Valid)"
  "\<not> is_invalid (fold (\<lambda>r a. meet a r) rs a) \<Longrightarrow>
     set (missing (fold (\<lambda>r a. meet a r) rs a)) = set (missing a) \<union> (\<Union>r\<in>set rs. set (missing r))"
proof (induction rs arbitrary: a)
  case (Cons r rs)
  { case 1 show ?case using Cons.IH(1) by (auto simp: is_invalid_meet) }
  { case 2 show ?case using Cons.IH(2) by (auto simp: meet_Valid_iff) }
  { case 3
    then have "\<not> is_invalid (meet a r)" using Cons.IH(1) by simp
    with 3 Cons.IH(3) show ?case by (auto simp: missing_meet) }
qed auto

text \<open>
  The conjunction of the admission sub-checks is what the checks say together, in any order.
  It is valid exactly when every check is, a rejection exactly when some check rejects, otherwise
  it waits for the union of the fetch lists; and the result, fetch list and rejection reason
  included, is the same for every order and repetition of the checks.
\<close>

theorem meet_all_conjunction:
  assumes "\<forall>r\<in>set rs. admission_ok r" "set rs = set rs'"
  shows "meet_all rs = meet_all rs' \<and>
    (meet_all rs = Valid \<longleftrightarrow> set rs \<subseteq> {Valid}) \<and>
    (is_invalid (meet_all rs) \<longleftrightarrow> (\<exists>r\<in>set rs. is_invalid r)) \<and>
    (is_invalid (meet_all rs) \<or> set (missing (meet_all rs)) = (\<Union>r\<in>set rs. set (missing r)))"
proof -
  have "meet_all rs = meet_all rs'"
    unfolding meet_all_def
    by (rule admission.fold_set_cong [OF _ assms]) (simp add: admission_ok_def)
  moreover have "meet_all rs = Valid \<longleftrightarrow> set rs \<subseteq> {Valid}"
    unfolding meet_all_def fold_meet(2) by auto
  moreover have "is_invalid (meet_all rs) \<longleftrightarrow> (\<exists>r\<in>set rs. is_invalid r)"
    unfolding meet_all_def fold_meet(1) by simp
  moreover have "is_invalid (meet_all rs) \<or> set (missing (meet_all rs)) = (\<Union>r\<in>set rs. set (missing r))"
    unfolding meet_all_def using fold_meet(3) [of rs Valid] by (cases "is_invalid (fold (\<lambda>r a. meet a r) rs Valid)") simp_all
  ultimately show ?thesis by blast
qed

theorem meet_all_conjunction_witness:
  "meet_all [Unknown [DeltaHash ''a''], Valid, Unknown [DeltaHash ''b'']]
     = meet_all [Unknown [DeltaHash ''b''], Unknown [DeltaHash ''a''], Valid, Valid] \<and>
   meet_all [Unknown [DeltaHash ''a''], Valid, Unknown [DeltaHash ''b'']] \<noteq> Valid"
  using meet_all_conjunction [of "[Unknown [DeltaHash ''a''], Valid, Unknown [DeltaHash ''b'']]"
      "[Unknown [DeltaHash ''b''], Unknown [DeltaHash ''a''], Valid, Valid]"]
  by (auto simp: admission_ok_def)

text \<open>
  The conjunction is not the greatest lower bound of the knowledge order the type implements:
  conjoining a rejection with a valid or an undecided result gives the rejection, which is
  incomparable to a valid result and strictly above an undecided one.
\<close>

theorem meet_not_lower_bound:
  "admission_cmp (meet (Invalid r) Valid) Valid = None \<and>
   admission_cmp (meet (Invalid r) (Unknown ms)) (Unknown ms) = Some Greater"
  by simp

end
