(* ===== verification/Causal.thy ===== *)
theory Causal
  imports Dag Admission
begin

text \<open>
  Causal admission (\<open>src/core/causal.rs\<close>): the authorisation decision for a delta against the
  part of its causal past that is held.
\<close>

record closure_facts =
  cf_signer_added :: bool
  cf_revoked :: bool
  cf_deactivated :: bool
  cf_missing :: "delta_hash list"

text \<open>The \<open>match\<close> on the operation of a visited ancestor.\<close>

definition note_op :: "string \<Rightarrow> delta_op \<Rightarrow> closure_facts \<Rightarrow> closure_facts" where
  "note_op signer op facts =
     (case op of
        AddVerificationMethod i _ _ _ \<Rightarrow> if i = signer then facts\<lparr>cf_signer_added := True\<rparr> else facts
      | RevokeVerificationMethod key_id \<Rightarrow> if key_id = signer then facts\<lparr>cf_revoked := True\<rparr> else facts
      | Deactivate \<Rightarrow> facts\<lparr>cf_deactivated := True\<rparr>
      | _ \<Rightarrow> facts)"

function scan_closure_loop ::
    "(delta_hash, signed_delta) fmap \<Rightarrow> string \<Rightarrow> delta_hash list \<Rightarrow> delta_hash fset \<Rightarrow> closure_facts
     \<Rightarrow> closure_facts" where
  "scan_closure_loop m signer [] visited facts = facts"
| "scan_closure_loop m signer (h # stack) visited facts =
     (if h |\<in>| visited then scan_closure_loop m signer stack visited facts
      else case fmlookup m h of
             None \<Rightarrow> scan_closure_loop m signer stack (finsert h visited)
                       (facts\<lparr>cf_missing := cf_missing facts @ [h]\<rparr>)
           | Some d \<Rightarrow> scan_closure_loop m signer (push_parents (finsert h visited) d stack)
                         (finsert h visited) (note_op signer (sd_op d) facts))"
  by pat_completeness auto
termination
  by (relation "inv_image (less_than <*lex*> less_than)
        (\<lambda>(m, signer, stack, visited, facts). dfs_measure m visited stack)")
    (auto simp: dfs_measure_visit dfs_measure_skip)

definition scan_closure :: "delta_dag \<Rightarrow> delta_hash list \<Rightarrow> string \<Rightarrow> closure_facts" where
  "scan_closure g parents signer =
     (let facts = scan_closure_loop (dag_by_hash g) signer (rev parents) {||}
            \<lparr>cf_signer_added = False, cf_revoked = False, cf_deactivated = False, cf_missing = []\<rparr>
      in facts\<lparr>cf_missing := sort_dedup (cf_missing facts)\<rparr>)"

definition verify_causal :: "signed_delta \<Rightarrow> delta_dag \<Rightarrow> admission_result" where
  "verify_causal d g =
     (let signer = pr_verification_method (sd_proof d)
      in if sd_parents d = [] then
           (if \<not> dag_is_empty g then Invalid RR_SignerNotAuthorised
            else case sd_op d of
                   AddVerificationMethod i _ _ _ \<Rightarrow>
                     if i = signer then Valid else Invalid RR_SignerNotAuthorised
                 | _ \<Rightarrow> Invalid RR_GenesisOpNotAllowed)
         else
           let facts = scan_closure g (sd_parents d) signer
           in if cf_revoked facts then Invalid RR_Revoked
              else if cf_deactivated facts then Invalid RR_Deactivated
              else if cf_missing facts \<noteq> [] then Unknown (cf_missing facts)
              else if \<not> cf_signer_added facts then Invalid RR_SignerNotAuthorised
              else Valid)"

section \<open>The facts of a causal past\<close>

text \<open>Whether the held part of the causal past of \<open>ps\<close> has a delta with property \<open>P\<close>.\<close>

definition past_has :: "delta_dag \<Rightarrow> delta_hash list \<Rightarrow> (delta_op \<Rightarrow> bool) \<Rightarrow> bool" where
  "past_has g ps P \<longleftrightarrow> (\<exists>h d. h \<in> closure_of g ps \<and> dag_get g h = Some d \<and> P (sd_op d))"

definition past_missing :: "delta_dag \<Rightarrow> delta_hash list \<Rightarrow> delta_hash set" where
  "past_missing g ps = {h \<in> closure_of g ps. \<not> dag_contains g h}"

lemma note_op_simps [simp]:
  "cf_signer_added (note_op k op f) \<longleftrightarrow> cf_signer_added f \<or> adds_key k op"
  "cf_revoked (note_op k op f) \<longleftrightarrow> cf_revoked f \<or> revokes_key k op"
  "cf_deactivated (note_op k op f) \<longleftrightarrow> cf_deactivated f \<or> op = Deactivate"
  "cf_missing (note_op k op f) = cf_missing f"
  by (cases op; simp add: note_op_def)+

fun scan_of :: "(delta_hash, signed_delta) fmap \<Rightarrow> string \<Rightarrow> delta_hash list \<Rightarrow> closure_facts \<Rightarrow> closure_facts" where
  "scan_of m k [] facts = facts"
| "scan_of m k (h # hs) facts =
     (case fmlookup m h of
        None \<Rightarrow> scan_of m k hs (facts\<lparr>cf_missing := cf_missing facts @ [h]\<rparr>)
      | Some d \<Rightarrow> scan_of m k hs (note_op k (sd_op d) facts))"

lemma scan_closure_loop_dfs:
  "scan_closure_loop m k stack visited facts = scan_of m k (dfs m stack visited) facts"
  by (induction m k stack visited facts rule: scan_closure_loop.induct) (simp_all split: option.split)

lemma scan_of_simps:
  "cf_signer_added (scan_of m k hs f) \<longleftrightarrow>
     cf_signer_added f \<or> (\<exists>h\<in>set hs. \<exists>d. fmlookup m h = Some d \<and> adds_key k (sd_op d))"
  "cf_revoked (scan_of m k hs f) \<longleftrightarrow>
     cf_revoked f \<or> (\<exists>h\<in>set hs. \<exists>d. fmlookup m h = Some d \<and> revokes_key k (sd_op d))"
  "cf_deactivated (scan_of m k hs f) \<longleftrightarrow>
     cf_deactivated f \<or> (\<exists>h\<in>set hs. \<exists>d. fmlookup m h = Some d \<and> sd_op d = Deactivate)"
  "cf_missing (scan_of m k hs f) = cf_missing f @ filter (\<lambda>h. fmlookup m h = None) hs"
  by (induction hs arbitrary: f) (auto split: option.split)

lemma scan_closure_simps [dag_simps]:
  "cf_signer_added (scan_closure g ps k) \<longleftrightarrow> past_has g ps (adds_key k)"
  "cf_revoked (scan_closure g ps k) \<longleftrightarrow> past_has g ps (revokes_key k)"
  "cf_deactivated (scan_closure g ps k) \<longleftrightarrow> past_has g ps (\<lambda>op. op = Deactivate)"
  "cf_missing (scan_closure g ps k) = sorted_list_of_set (past_missing g ps)"
  by (auto simp: scan_closure_def Let_def scan_closure_loop_dfs scan_of_simps past_has_def
      past_missing_def dag_get_def dag_contains_def sort_dedup_eq)

lemma finite_past_missing [simp]: "finite (past_missing g ps)"
  by (simp add: past_missing_def)

lemma verify_causal_eq:
  "verify_causal d g =
     (let k = pr_verification_method (sd_proof d); ps = sd_parents d
      in if ps = [] then
           (if dag_is_empty g \<and> adds_key k (sd_op d) then Valid
            else if dag_is_empty g \<and> (\<forall>i pk s r. sd_op d \<noteq> AddVerificationMethod i pk s r)
                 then Invalid RR_GenesisOpNotAllowed
            else Invalid RR_SignerNotAuthorised)
         else if past_has g ps (revokes_key k) then Invalid RR_Revoked
         else if past_has g ps (\<lambda>op. op = Deactivate) then Invalid RR_Deactivated
         else if past_missing g ps \<noteq> {} then Unknown (sorted_list_of_set (past_missing g ps))
         else if past_has g ps (adds_key k) then Valid
         else Invalid RR_SignerNotAuthorised)"
  by (cases "sd_op d") (simp_all add: verify_causal_def Let_def scan_closure_simps)

text \<open>
  C23: The causal decision is exactly the documented one.  For a delta with predecessors it depends
  only on the held causal past: a revocation of the signing key there rejects it, else a
  deactivation there rejects it, else missing ancestors leave it undecided with exactly those as
  fetch list, else it is valid if the past introduces the signing key and rejected if not.  A delta
  without predecessors is valid only on an empty history, as the addition of its own signing key.
\<close>

theorem verify_causal_exact:
  "verify_causal d g =
     (let k = pr_verification_method (sd_proof d); ps = sd_parents d
      in if ps = [] then
           (if dag_is_empty g \<and> adds_key k (sd_op d) then Valid
            else if dag_is_empty g \<and> (\<forall>i pk s r. sd_op d \<noteq> AddVerificationMethod i pk s r)
                 then Invalid RR_GenesisOpNotAllowed
            else Invalid RR_SignerNotAuthorised)
         else if past_has g ps (revokes_key k) then Invalid RR_Revoked
         else if past_has g ps (\<lambda>op. op = Deactivate) then Invalid RR_Deactivated
         else if past_missing g ps \<noteq> {} then Unknown (sorted_list_of_set (past_missing g ps))
         else if past_has g ps (adds_key k) then Valid
         else Invalid RR_SignerNotAuthorised)"
  by (rule verify_causal_eq)

section \<open>Growth of the store\<close>

text \<open>A store that holds everything another holds.\<close>

definition dag_le :: "delta_dag \<Rightarrow> delta_dag \<Rightarrow> bool" where
  "dag_le g g' \<longleftrightarrow> (\<forall>h d. dag_get g h = Some d \<longrightarrow> dag_get g' h = Some d)"

lemma dag_le_put: "dag_le g (dag_put E g d)"
  by (simp add: dag_le_def dag.get_put)

lemma dag_le_put_all: "dag_le g (fold (\<lambda>d g. dag_put E g d) ds g)"
  by (simp add: dag_le_def dag.put_all_grows)

lemma closure_of_mono: "dag_le g g' \<Longrightarrow> closure_of g ps \<subseteq> closure_of g' ps"
  unfolding closure_of_def
  by (rule Image_mono [OF rtrancl_mono]) (auto simp: dag_edges_def dag_le_def dag_get_def)

lemma past_has_mono: "dag_le g g' \<Longrightarrow> past_has g ps P \<Longrightarrow> past_has g' ps P"
  using closure_of_mono by (fastforce simp: past_has_def dag_le_def)

text \<open>Stores that hold the same payload under every hash they share.\<close>

definition dag_agree :: "delta_dag \<Rightarrow> delta_dag \<Rightarrow> bool" where
  "dag_agree g g' \<longleftrightarrow>
     (\<forall>h d d'. dag_get g h = Some d \<longrightarrow> dag_get g' h = Some d' \<longrightarrow> payload d = payload d')"

lemma dag_agree_sym: "dag_agree g g' \<Longrightarrow> dag_agree g' g"
  unfolding dag_agree_def by metis

lemma dag_le_agree: "dag_le g g' \<Longrightarrow> dag_agree g g'"
  by (auto simp: dag_agree_def dag_le_def)

lemma dag_agreeI:
  assumes "dag_ok E g" "dag_ok E g'" "collision_free E {d. \<exists>h. dag_get g h = Some d \<or> dag_get g' h = Some d}"
  shows "dag_agree g g'"
  unfolding dag_agree_def
  using dag_okD(1) [OF assms(1)] dag_okD(1) [OF assms(2)] collision_freeD [OF assms(3)] by blast

text \<open>A complete causal past is fixed by the hashes that name it.\<close>

lemma closure_of_agree:
  assumes "dag_agree g g'" "past_missing g' ps = {}"
  shows "closure_of g ps \<subseteq> closure_of g' ps"
proof
  fix h
  assume "h \<in> closure_of g ps"
  then obtain p where "(p, h) \<in> (dag_edges (dag_by_hash g))\<^sup>*" "p \<in> set ps"
    by (auto simp: closure_of_def)
  then show "h \<in> closure_of g' ps"
  proof (induction rule: rtrancl_induct)
    case base
    then show ?case by (auto simp: closure_of_def)
  next
    case (step y z)
    obtain d where d: "dag_get g y = Some d" "z \<in> set (sd_parents d)"
      using step(2) by (auto simp: dag_edges_def dag_get_def)
    obtain d' where d': "dag_get g' y = Some d'"
      using step assms(2) by (auto simp: past_missing_def dag_contains_get)
    have "sd_parents d = sd_parents d'"
      using assms(1) d(1) d' payload_eqD(4) unfolding dag_agree_def by blast
    with d d' have "(y, z) \<in> dag_edges (dag_by_hash g')"
      by (auto simp: dag_edges_def dag_get_def)
    with step show ?case
      by (auto simp: closure_of_def intro: rtrancl_into_rtrancl)
  qed
qed

lemma past_has_agree:
  assumes "dag_agree g g'" "past_missing g' ps = {}" "past_has g ps P"
  shows "past_has g' ps P"
proof -
  obtain h d where h: "h \<in> closure_of g ps" "dag_get g h = Some d" "P (sd_op d)"
    using assms(3) by (auto simp: past_has_def)
  with closure_of_agree [OF assms(1,2)] have "h \<in> closure_of g' ps" by blast
  moreover from this obtain d' where "dag_get g' h = Some d'"
    using assms(2) by (auto simp: past_missing_def dag_contains_get)
  moreover from this have "sd_op d = sd_op d'"
    using assms(1) h(2) payload_eqD(3) unfolding dag_agree_def by blast
  ultimately show ?thesis using h(3) by (auto simp: past_has_def)
qed

lemma past_complete_mono:
  assumes "dag_le g g'" "past_missing g ps = {}"
  shows "past_missing g' ps = {}"
proof -
  have "closure_of g' ps \<subseteq> closure_of g ps"
    by (rule closure_of_agree [OF dag_agree_sym [OF dag_le_agree [OF assms(1)]] assms(2)])
  with assms show ?thesis
    by (fastforce simp: past_missing_def dag_contains_get dag_le_def)
qed

lemma past_has_frozen:
  assumes "dag_le g g'" "past_missing g ps = {}"
  shows "past_has g' ps P \<longleftrightarrow> past_has g ps P"
  using past_has_agree [OF dag_agree_sym [OF dag_le_agree [OF assms(1)]] assms(2)]
    past_has_mono [OF assms(1)] by blast

section \<open>Properties of the decision\<close>

text \<open>
  C24: The causal decision is monotone in the store.  For a delta with predecessors, once the decision
  is an acceptance or a rejection, no further delivery reverses it; and once its causal past is
  complete the decision, reason included, never changes.
\<close>

theorem verify_causal_monotone:
  assumes "dag_le g g'" "sd_parents d \<noteq> []"
  shows "(verify_causal d g = Valid \<longrightarrow> verify_causal d g' = Valid) \<and>
         (is_invalid (verify_causal d g) \<longrightarrow> is_invalid (verify_causal d g')) \<and>
         (past_missing g (sd_parents d) = {} \<longrightarrow> verify_causal d g' = verify_causal d g)"
proof (cases "past_missing g (sd_parents d) = {}")
  case True
  then show ?thesis
    using assms(2) past_has_frozen [OF assms(1) True] past_complete_mono [OF assms(1) True]
    by (simp add: verify_causal_eq Let_def)
next
  case False
  let ?k = "pr_verification_method (sd_proof d)"
  have "past_has g (sd_parents d) (revokes_key ?k) \<or> past_has g (sd_parents d) (\<lambda>op. op = Deactivate)
      \<Longrightarrow> is_invalid (verify_causal d g')"
    using assms(2) past_has_mono [OF assms(1)] by (auto simp: verify_causal_eq Let_def)
  with False assms(2) show ?thesis
    by (simp add: verify_causal_eq [of d g] Let_def)
qed

theorem verify_causal_monotone_witness:
  "verify_causal ex_child ex_dag = Valid \<and> verify_causal ex_child (dag_put ex_externs ex_dag ex_child) = Valid"
proof -
  have "verify_causal ex_child ex_dag = Valid" by code_simp
  moreover have "sd_parents ex_child \<noteq> []" by (simp add: ex_child_def)
  ultimately show ?thesis
    using verify_causal_monotone [OF dag_le_put [of ex_dag ex_externs ex_child], of ex_child] by blast
qed

text \<open>
  Replicas agree on authorisation.  If two replicas both hold the complete causal past of a
  delta, their decisions are equal, whatever else either of them holds (no hash collision among
  the held deltas).
\<close>

theorem verify_causal_agrees:
  assumes "dag_ok E g" "dag_ok E g'"
    "collision_free E {x. \<exists>h. dag_get g h = Some x \<or> dag_get g' h = Some x}"
    "sd_parents d \<noteq> []" "closure_complete g (sd_parents d)" "closure_complete g' (sd_parents d)"
  shows "verify_causal d g = verify_causal d g'"
proof -
  have agree: "dag_agree g g'" by (rule dag_agreeI [OF assms(1-3)])
  have full: "past_missing g (sd_parents d) = {}" "past_missing g' (sd_parents d) = {}"
    using assms(5,6) by (auto simp: past_missing_def closure_complete_iff)
  have "past_has g (sd_parents d) P = past_has g' (sd_parents d) P" for P
    using past_has_agree [OF agree full(2)] past_has_agree [OF dag_agree_sym [OF agree] full(1)] by blast
  with full assms(4) show ?thesis by (simp add: verify_causal_eq Let_def)
qed

theorem verify_causal_agrees_witness:
  "verify_causal ex_child ex_dag = verify_causal ex_child (dag_put ex_externs ex_dag ex_child)"
proof (rule verify_causal_agrees)
  show "dag_ok ex_externs ex_dag" "dag_ok ex_externs (dag_put ex_externs ex_dag ex_child)"
    by (simp_all add: dag_put_ok)
  have held: "dag_get ex_dag h = Some x \<Longrightarrow> x = ex_genesis" for h x
    by (auto simp: ex_dag_def dag_get_def split: if_splits)
  then have "{x. \<exists>h. dag_get ex_dag h = Some x \<or> dag_get (dag_put ex_externs ex_dag ex_child) h = Some x}
      \<subseteq> {ex_child, ex_genesis}"
    by (auto simp: dag.get_put split: if_splits)
  then show "collision_free ex_externs
      {x. \<exists>h. dag_get ex_dag h = Some x \<or> dag_get (dag_put ex_externs ex_dag ex_child) h = Some x}"
    by (rule collision_free_subset) (rule ex_collision_free)
  show full: "closure_complete ex_dag (sd_parents ex_child)" by code_simp
  then show "closure_complete (dag_put ex_externs ex_dag ex_child) (sd_parents ex_child)"
    using past_complete_mono [OF dag_le_put, of ex_dag "sd_parents ex_child" ex_externs ex_child]
    by (simp add: closure_complete_iff past_missing_def)
qed (simp add: ex_child_def)

text \<open>
  The decision for a rootless delta is not monotone: the self-signed addition of a key is valid
  on an empty store and rejected as soon as the store holds anything, itself included.
\<close>

theorem verify_causal_genesis_not_monotone:
  assumes "sd_parents d = []" "adds_key (pr_verification_method (sd_proof d)) (sd_op d)"
  shows "verify_causal d dag_new = Valid \<and>
         verify_causal d (dag_put E dag_new x) = Invalid RR_SignerNotAuthorised"
proof -
  have "dag_is_empty dag_new" by (simp add: dag_is_empty_def dag_new_def)
  moreover have "\<not> dag_is_empty (dag_put E dag_new x)"
    by (simp add: dag_is_empty_def dag_put_simps dag_contains_get)
  moreover have "\<exists>i pk s r. sd_op d = AddVerificationMethod i pk s r"
    using assms(2) by (cases "sd_op d") auto
  ultimately show ?thesis
    using assms by (simp add: verify_causal_eq Let_def)
qed

theorem verify_causal_genesis_not_monotone_witness:
  "verify_causal ex_genesis dag_new = Valid \<and>
   verify_causal ex_genesis (dag_put ex_externs dag_new ex_genesis) = Invalid RR_SignerNotAuthorised"
  by (rule verify_causal_genesis_not_monotone) (simp_all add: ex_genesis_def)

end
