(* ===== verification/Recon.thy ===== *)
theory Recon
  imports Causal
begin

text \<open>
  Anti-entropy reconciliation (\<open>src/core/recon.rs\<close>): what a replica has to fetch, the extraction
  of closure bundles, the responder of a frontier exchange, and the verified merge of a bundle.
\<close>

record closure_bundle =
  cb_target :: delta_hash
  cb_deltas :: "signed_delta list"

definition missing_from_frontier :: "delta_dag \<Rightarrow> delta_hash list \<Rightarrow> delta_hash list" where
  "missing_from_frontier g remote =
     sort_dedup (filter (\<lambda>h. \<not> dag_contains g h) remote @ incomplete_ancestors g)"

function extract_closure_loop ::
    "delta_dag \<Rightarrow> delta_hash fset \<Rightarrow> delta_hash list \<Rightarrow> delta_hash fset \<Rightarrow> signed_delta list
     \<Rightarrow> signed_delta list result" where
  "extract_closure_loop g stop [] visited deltas = Inr deltas"
| "extract_closure_loop g stop (h # stack) visited deltas =
     (if h |\<in>| stop \<or> h |\<in>| visited then extract_closure_loop g stop stack visited deltas
      else case dag_get g h of
             None \<Rightarrow> Inl (DeltaRejected (MissingDelta h))
           | Some d \<Rightarrow> extract_closure_loop g stop (push_parents (finsert h visited) d stack)
                         (finsert h visited) (deltas @ [d]))"
  by pat_completeness auto
termination
  by (relation "inv_image (less_than <*lex*> less_than)
        (\<lambda>(g, stop, stack, visited, deltas). dfs_measure (dag_by_hash g) visited stack)")
    (auto simp: dfs_measure_visit dag_get_def)

definition extract_closure :: "delta_dag \<Rightarrow> delta_hash \<Rightarrow> delta_hash list \<Rightarrow> closure_bundle result" where
  "extract_closure g target stop =
     (case extract_closure_loop g (fset_of_list stop) [target] {||} [] of
        Inl e \<Rightarrow> Inl e
      | Inr deltas \<Rightarrow> Inr \<lparr>cb_target = target, cb_deltas = deltas\<rparr>)"

text \<open>The inner loop of \<open>deltas_for_peer\<close>: push the deltas whose hash is new.\<close>

fun push_new ::
    "externs \<Rightarrow> signed_delta list \<Rightarrow> delta_hash fset \<times> signed_delta list
     \<Rightarrow> (delta_hash fset \<times> signed_delta list) result" where
  "push_new E [] (seen, out) = Inr (seen, out)"
| "push_new E (d # ds) (seen, out) =
     (case content_hash E d of
        Inl e \<Rightarrow> Inl e
      | Inr h \<Rightarrow>
          if h |\<in>| seen then push_new E ds (seen, out)
          else push_new E ds (finsert h seen, out @ [d]))"

fun for_peer_loop ::
    "externs \<Rightarrow> delta_dag \<Rightarrow> delta_hash list \<Rightarrow> delta_hash list \<Rightarrow> delta_hash fset \<times> signed_delta list
     \<Rightarrow> signed_delta list result" where
  "for_peer_loop E g peer [] (seen, out) = Inr out"
| "for_peer_loop E g peer (head # heads) (seen, out) =
     (if head \<in> set peer then for_peer_loop E g peer heads (seen, out)
      else case extract_closure g head peer of
             Inl e \<Rightarrow> Inl e
           | Inr b \<Rightarrow>
               (case push_new E (cb_deltas b) (seen, out) of
                  Inl e \<Rightarrow> Inl e
                | Inr so \<Rightarrow> for_peer_loop E g peer heads so))"

definition deltas_for_peer :: "externs \<Rightarrow> delta_dag \<Rightarrow> delta_hash list \<Rightarrow> signed_delta list result" where
  "deltas_for_peer E g peer = for_peer_loop E g peer (frontier_of g) ({||}, [])"

text \<open>The hashes of a list of deltas, in order; the first error ends it.\<close>

fun hash_all :: "externs \<Rightarrow> signed_delta list \<Rightarrow> delta_hash list result" where
  "hash_all E [] = Inr []"
| "hash_all E (d # ds) =
     (case content_hash E d of
        Inl e \<Rightarrow> Inl e
      | Inr h \<Rightarrow> (case hash_all E ds of Inl e \<Rightarrow> Inl e | Inr hs \<Rightarrow> Inr (h # hs)))"

fun insert_all :: "externs \<Rightarrow> signed_delta list \<Rightarrow> delta_dag \<Rightarrow> delta_dag result" where
  "insert_all E [] g = Inr g"
| "insert_all E (d # ds) g =
     (case dag_insert E g d of Inl e \<Rightarrow> Inl e | Inr (h, g') \<Rightarrow> insert_all E ds g')"

definition merge_bundle :: "externs \<Rightarrow> delta_dag \<Rightarrow> closure_bundle \<Rightarrow> (nat \<times> delta_dag) result" where
  "merge_bundle E g b =
     (case hash_all E (cb_deltas b) of
        Inl e \<Rightarrow> Inl e
      | Inr hs \<Rightarrow>
          if cb_target b \<notin> set hs then Inl (DeltaRejected (MissingTarget (cb_target b)))
          else
            case find (\<lambda>p. \<not> dag_contains g p \<and> p \<notin> set hs) (concat (map sd_parents (cb_deltas b))) of
              Some p \<Rightarrow> Inl (DeltaRejected (DanglingParent p))
            | None \<Rightarrow>
                (case insert_all E (cb_deltas b) g of
                   Inl e \<Rightarrow> Inl e
                 | Inr g' \<Rightarrow> Inr (dag_len g' - dag_len g, g')))"

section \<open>What extraction returns\<close>

lemma find_SomeD: "find P xs = Some x \<Longrightarrow> x \<in> set xs \<and> P x"
  by (auto simp: find_Some_iff)

lemma hash_all_Inr [simp]: "hash_all E ds = Inr (map (delta_id E) ds)"
  by (induction ds) simp_all

lemma insert_all_Inr [simp]: "insert_all E ds g = Inr (fold (\<lambda>d g. dag_put E g d) ds g)"
  by (induction ds arbitrary: g) (simp_all add: dag_insert_put)

text \<open>
  Hashes that are already visited can be dropped from the stack of a traversal; hence the extraction
  visits the traversal order in which the hashes of \<open>stop\<close> count as visited from the start.
\<close>

lemma dfs_drop: "fset_of_list xs |\<subseteq>| visited \<Longrightarrow> dfs m (xs @ stack) visited = dfs m stack visited"
  by (induction xs) auto

lemma filter_eq_ConsE:
  assumes "filter P ys = x # zs"
  obtains us vs where "ys = us @ x # vs" "\<forall>u\<in>set us. \<not> P u" "P x" "zs = filter P vs"
  using assms by (auto simp: filter_eq_Cons_iff)

lemma dfs_stack_cong:
  assumes "filter (\<lambda>p. p |\<notin>| visited) stack = filter (\<lambda>p. p |\<notin>| visited) stack'"
  shows "dfs m stack visited = dfs m stack' visited"
  using assms
proof (induction m stack visited arbitrary: stack' rule: dfs.induct)
  case (1 m visited)
  then have "fset_of_list stack' |\<subseteq>| visited"
    by (auto simp: filter_empty_conv fset_of_list_elem dest: sym)
  then show ?case using dfs_drop [of stack' visited m "[]"] by simp
next
  case (2 m h stack visited)
  show ?case
  proof (cases "h |\<in>| visited")
    case False
    with 2(4) have "filter (\<lambda>p. p |\<notin>| visited) stack' = h # filter (\<lambda>p. p |\<notin>| visited) stack" by simp
    then obtain us vs where s': "stack' = us @ h # vs" "\<forall>u\<in>set us. \<not> u |\<notin>| visited"
      and f: "filter (\<lambda>p. p |\<notin>| visited) stack = filter (\<lambda>p. p |\<notin>| visited) vs"
      by (rule filter_eq_ConsE)
    have f2: "filter (\<lambda>p. p |\<notin>| finsert h visited) stack = filter (\<lambda>p. p |\<notin>| finsert h visited) vs"
      using arg_cong [OF f, of "filter (\<lambda>p. p \<noteq> h)"] by (simp add: conj_commute)
    have "dfs m stack (finsert h visited) = dfs m vs (finsert h visited)"
        if "fmlookup m h = None"
      using 2(2) [OF False that] f2 by blast
    moreover have "dfs m (push_parents (finsert h visited) d stack) (finsert h visited)
        = dfs m (push_parents (finsert h visited) d vs) (finsert h visited)"
      if "fmlookup m h = Some d" for d
      using 2(3) [OF False that] f2 by (simp add: push_parents_def)
    moreover have "dfs m stack' visited = dfs m (h # vs) visited"
      unfolding s'(1) by (rule dfs_drop) (use s'(2) in \<open>auto simp: fset_of_list_elem\<close>)
    ultimately show ?thesis using False by (simp split: option.split)
  qed (use 2 in simp)
qed

fun extract_of :: "delta_dag \<Rightarrow> delta_hash list \<Rightarrow> signed_delta list \<Rightarrow> signed_delta list result" where
  "extract_of g [] deltas = Inr deltas"
| "extract_of g (h # hs) deltas =
     (case dag_get g h of
        None \<Rightarrow> Inl (DeltaRejected (MissingDelta h))
      | Some d \<Rightarrow> extract_of g hs (deltas @ [d]))"

lemma extract_closure_loop_dfs:
  "extract_closure_loop g stop stack visited deltas
     = extract_of g (dfs (dag_by_hash g) stack (stop |\<union>| visited)) deltas"
proof (induction g stop stack visited deltas rule: extract_closure_loop.induct)
  case (2 g stop h stack visited deltas)
  have "dfs m (push_parents (finsert h visited) d stack) (finsert h (stop |\<union>| visited))
      = dfs m (push_parents (finsert h (stop |\<union>| visited)) d stack) (finsert h (stop |\<union>| visited))" for m d
    by (rule dfs_stack_cong) (simp add: push_parents_def rev_filter conj_commute conj_left_commute)
  with 2 show ?case by (auto simp: dag_get_def split: option.split)
qed simp

lemma extract_of_Inr:
  "\<forall>h\<in>set hs. dag_get g h \<noteq> None \<Longrightarrow> extract_of g hs deltas = Inr (deltas @ map (\<lambda>h. the (dag_get g h)) hs)"
  by (induction hs arbitrary: deltas) auto

lemma extract_of_Inl:
  "extract_of g hs deltas = Inl e \<Longrightarrow> \<exists>h\<in>set hs. dag_get g h = None \<and> e = DeltaRejected (MissingDelta h)"
  by (induction hs arbitrary: deltas) (auto split: option.splits)

section \<open>What a responder returns\<close>

text \<open>The hashes below a head, down to the peer's frontier.\<close>

definition below :: "delta_dag \<Rightarrow> delta_hash list \<Rightarrow> delta_hash \<Rightarrow> delta_hash set" where
  "below g peer head = set (dfs (dag_by_hash g) [head] (fset_of_list peer))"

lemma extract_closure_below:
  assumes "below g peer head \<subseteq> {h. dag_contains g h}"
  shows "\<exists>ds. extract_closure g head peer = Inr \<lparr>cb_target = head, cb_deltas = ds\<rparr> \<and>
     set ds = {d. \<exists>h\<in>below g peer head. dag_get g h = Some d}"
proof -
  let ?hs = "dfs (dag_by_hash g) [head] (fset_of_list peer)"
  have held: "\<forall>h\<in>set ?hs. dag_get g h \<noteq> None"
    using assms by (auto simp: below_def dag_contains_get)
  then have "extract_closure g head peer
      = Inr \<lparr>cb_target = head, cb_deltas = map (\<lambda>h. the (dag_get g h)) ?hs\<rparr>"
    by (simp add: extract_closure_def extract_closure_loop_dfs extract_of_Inr)
  moreover have "set (map (\<lambda>h. the (dag_get g h)) ?hs) = {d. \<exists>h\<in>below g peer head. dag_get g h = Some d}"
    using held by (force simp: below_def)
  ultimately show ?thesis by blast
qed

lemma push_new_Inr:
  assumes "fset seen = delta_id E ` set out" "distinct (map (delta_id E) out)"
  shows "\<exists>out'. push_new E ds (seen, out) = Inr (seen |\<union>| fset_of_list (map (delta_id E) ds), out') \<and>
     set out' \<subseteq> set out \<union> set ds \<and> delta_id E ` set out' = delta_id E ` (set out \<union> set ds) \<and>
     distinct (map (delta_id E) out')"
  using assms
proof (induction ds arbitrary: seen out)
  case (Cons d ds)
  show ?case
  proof (cases "delta_id E d |\<in>| seen")
    case True
    with Cons.IH [OF Cons.prems] Cons.prems(1) show ?thesis
      by (auto simp: image_iff finsert_absorb)
  next
    case False
    then have "distinct (map (delta_id E) (out @ [d]))"
      using Cons.prems by (auto simp: image_iff)
    with Cons.IH [of "finsert (delta_id E d) seen" "out @ [d]"] Cons.prems(1) False show ?thesis
      by (fastforce simp: image_iff)
  qed
qed auto

lemma for_peer_loop_Inr:
  assumes "\<forall>head\<in>set heads. head \<notin> set peer \<longrightarrow> below g peer head \<subseteq> {h. dag_contains g h}"
    and "fset seen = delta_id E ` set out" "distinct (map (delta_id E) out)"
  shows "\<exists>out'. for_peer_loop E g peer heads (seen, out) = Inr out' \<and> distinct (map (delta_id E) out') \<and>
     set out' \<subseteq> set out \<union> {d. \<exists>h. dag_get g h = Some d} \<and>
     delta_id E ` set out' = delta_id E ` (set out \<union>
       {d. \<exists>head h. head \<in> set heads - set peer \<and> h \<in> below g peer head \<and> dag_get g h = Some d})"
  using assms
proof (induction heads arbitrary: seen out)
  case (Cons head heads)
  show ?case
  proof (cases "head \<in> set peer")
    case True
    with Cons.IH [of seen out] Cons.prems show ?thesis by simp
  next
    case False
    with Cons.prems(1) obtain ds where ds: "extract_closure g head peer = Inr \<lparr>cb_target = head, cb_deltas = ds\<rparr>"
      "set ds = {d. \<exists>h\<in>below g peer head. dag_get g h = Some d}"
      using extract_closure_below [of g peer head] by auto
    obtain out1 where out1: "push_new E ds (seen, out) = Inr (seen |\<union>| fset_of_list (map (delta_id E) ds), out1)"
      "set out1 \<subseteq> set out \<union> set ds" "delta_id E ` set out1 = delta_id E ` (set out \<union> set ds)"
      "distinct (map (delta_id E) out1)"
      using push_new_Inr [OF Cons.prems(2,3), of ds] by blast
    have seen: "fset (seen |\<union>| fset_of_list (map (delta_id E) ds)) = delta_id E ` set out1"
      by (simp add: out1(3) Cons.prems(2) image_Un fset_of_list.rep_eq)
    obtain out2 where out2: "for_peer_loop E g peer heads (seen |\<union>| fset_of_list (map (delta_id E) ds), out1) = Inr out2"
      "distinct (map (delta_id E) out2)" "set out2 \<subseteq> set out1 \<union> {d. \<exists>h. dag_get g h = Some d}"
      "delta_id E ` set out2 = delta_id E ` (set out1 \<union>
         {d. \<exists>head h. head \<in> set heads - set peer \<and> h \<in> below g peer head \<and> dag_get g h = Some d})"
      using Cons.IH [OF _ seen out1(4)] Cons.prems(1) by auto
    have split: "{d. \<exists>x h. x \<in> set (head # heads) - set peer \<and> h \<in> below g peer x \<and> dag_get g h = Some d}
        = set ds \<union> {d. \<exists>x h. x \<in> set heads - set peer \<and> h \<in> below g peer x \<and> dag_get g h = Some d}"
      using False ds(2) by auto
    have ids: "delta_id E ` set out2 = delta_id E ` (set out \<union>
         {d. \<exists>x h. x \<in> set (head # heads) - set peer \<and> h \<in> below g peer x \<and> dag_get g h = Some d})"
      unfolding split image_Un out2(4) out1(3) by blast
    have "set out2 \<subseteq> set out \<union> {d. \<exists>h. dag_get g h = Some d}"
      using out2(3) out1(2) ds(2) by auto
    with ids out2(1,2) ds(1) out1(1) False show ?thesis by simp
  qed
qed simp

section \<open>Complete stores\<close>

text \<open>A store without dangling references.\<close>

definition dag_complete :: "delta_dag \<Rightarrow> bool" where
  "dag_complete g \<longleftrightarrow> incomplete_ancestors g = []"

lemma set_incomplete_ancestors [simp]:
  "set (incomplete_ancestors g) = {h. h |\<in>| dag_referenced g \<and> \<not> dag_contains g h}"
  by (auto simp: incomplete_ancestors_def)

lemma dag_complete_iff:
  assumes "dag_ok E g"
  shows "dag_complete g \<longleftrightarrow> (\<forall>h p. (h, p) \<in> dag_edges (dag_by_hash g) \<longrightarrow> dag_contains g p)"
proof -
  have "dag_complete g \<longleftrightarrow> set (incomplete_ancestors g) = {}"
    by (simp add: dag_complete_def del: set_incomplete_ancestors)
  also have "\<dots> \<longleftrightarrow> (\<forall>h p. (h, p) \<in> dag_edges (dag_by_hash g) \<longrightarrow> dag_contains g p)"
    by (auto simp: dag_okD(2) [OF assms] dag_edges_def dag_get_def)
  finally show ?thesis .
qed

lemma complete_reach:
  assumes "dag_ok E g" "dag_complete g" "(h, p) \<in> (dag_edges (dag_by_hash g))\<^sup>*" "dag_contains g h"
  shows "dag_contains g p"
  using assms(3,4) by (induction rule: rtrancl_induct) (use assms(1,2) in \<open>auto simp: dag_complete_iff\<close>)

text \<open>Without a cycle of hashes, every held delta is below some frontier delta.\<close>

lemma below_frontier:
  assumes "dag_ok E g" "acyclic (dag_edges (dag_by_hash g))" "dag_contains g h"
  shows "\<exists>f\<in>set (frontier_of g). (f, h) \<in> (dag_edges (dag_by_hash g))\<^sup>*"
proof -
  let ?R = "dag_edges (dag_by_hash g)"
  let ?P = "\<Union>d\<in>fset (fmran (dag_by_hash g)). set (sd_parents d)"
  have "?R \<subseteq> fset (fmdom (dag_by_hash g)) \<times> ?P"
    by (auto simp: dag_edges_def fmlookup_dom_iff intro: fmranI)
  then have "finite ?R" by (rule finite_subset) auto
  then have "wf ?R" using assms(2) by (rule finite_acyclic_wf)
  then show ?thesis
    using assms(3)
  proof (induction h rule: wf_induct_rule)
    case (less h)
    show ?case
    proof (cases "h |\<in>| dag_frontier g")
      case True
      then show ?thesis by (auto simp: frontier_of_def)
    next
      case False
      with less.prems obtain y where y: "(y, h) \<in> ?R" "dag_contains g y"
        using dag_okD(2,3) [OF assms(1)] by (auto simp: dag_edges_def dag_get_def dag_contains_def)
      with less.IH obtain f where "f \<in> set (frontier_of g)" "(f, y) \<in> ?R\<^sup>*" by blast
      with y(1) show ?thesis by (auto intro: rtrancl_into_rtrancl)
    qed
  qed
qed

text \<open>
  What lies below a head is either below it without meeting the peer's frontier, or below a hash
  of the peer's frontier.
\<close>

lemma below_or_stop:
  assumes "(head, h) \<in> (dag_edges (dag_by_hash g))\<^sup>*"
  shows "h \<in> below g peer head \<or> (\<exists>s\<in>set peer. (s, h) \<in> (dag_edges (dag_by_hash g))\<^sup>*)"
  using assms
proof (induction rule: rtrancl_induct)
  case base
  then show ?case
    using dfs_covers [of "[head]" "fset_of_list peer" "dag_by_hash g"]
    by (auto simp: below_def fset_of_list_elem)
next
  case (step y z)
  then show ?case
    using dfs_closed [of y "dag_by_hash g" "[head]" "fset_of_list peer" z]
    by (auto simp: below_def fset_of_list_elem intro: rtrancl_into_rtrancl)
qed

lemma below_held:
  assumes "dag_ok E g" "dag_complete g" "dag_contains g head"
  shows "below g peer head \<subseteq> {h. dag_contains g h}"
proof
  fix h
  assume "h \<in> below g peer head"
  then have "(head, h) \<in> (dag_edges (dag_by_hash g))\<^sup>*"
    using dfs_reach [of h "dag_by_hash g" "[head]" "fset_of_list peer"] by (simp add: below_def)
  with complete_reach [OF assms(1,2) _ assms(3)] show "h \<in> {h. dag_contains g h}" by blast
qed

text \<open>Below a hash that a complete store holds, an agreeing store sees nothing else.\<close>

lemma agree_reach:
  assumes "dag_agree g g'" "dag_ok E g'" "dag_complete g'"
    "(s, h) \<in> (dag_edges (dag_by_hash g))\<^sup>*" "dag_contains g' s"
  shows "dag_contains g' h"
  using assms(4,5)
proof (induction rule: rtrancl_induct)
  case (step y z)
  obtain d where d: "dag_get g y = Some d" "z \<in> set (sd_parents d)"
    using step(2) by (auto simp: dag_edges_def dag_get_def)
  obtain d' where d': "dag_get g' y = Some d'"
    using step by (auto simp: dag_contains_get)
  then have "sd_parents d = sd_parents d'"
    using assms(1) d(1) payload_eqD(4) unfolding dag_agree_def by blast
  with d d' have "(y, z) \<in> dag_edges (dag_by_hash g')"
    by (auto simp: dag_edges_def dag_get_def)
  with assms(2,3) show ?case by (auto simp: dag_complete_iff)
qed simp

section \<open>Properties of reconciliation\<close>

lemma deltas_for_peer_covers:
  assumes ok: "dag_ok E g" "dag_ok E g'" and agree: "dag_agree g g'"
    and complete: "dag_complete g" "dag_complete g'" and acyc: "acyclic (dag_edges (dag_by_hash g))"
  shows "\<exists>ds. deltas_for_peer E g (frontier_of g') = Inr ds \<and> distinct (map (delta_id E) ds) \<and>
     set ds \<subseteq> {d. \<exists>h. dag_get g h = Some d} \<and>
     {h. dag_contains g h} \<subseteq> {h. dag_contains g' h} \<union> delta_id E ` set ds"
proof -
  let ?peer = "frontier_of g'"
  have heads: "dag_contains g f" if "f \<in> set (frontier_of g)" for f
    using that dag_okD(3) [OF ok(1)] by (simp add: frontier_of_def)
  then have "\<forall>head\<in>set (frontier_of g). head \<notin> set ?peer \<longrightarrow> below g ?peer head \<subseteq> {h. dag_contains g h}"
    using below_held [OF ok(1) complete(1)] by blast
  then obtain ds where ds: "deltas_for_peer E g ?peer = Inr ds" "distinct (map (delta_id E) ds)"
    "set ds \<subseteq> {d. \<exists>h. dag_get g h = Some d}"
    "delta_id E ` set ds = delta_id E `
       {d. \<exists>head h. head \<in> set (frontier_of g) - set ?peer \<and> h \<in> below g ?peer head \<and> dag_get g h = Some d}"
    unfolding deltas_for_peer_def
    using for_peer_loop_Inr [of "frontier_of g" ?peer g "{||}" E "[]"] by auto
  have "dag_contains g' h \<or> h \<in> delta_id E ` set ds" if h: "dag_contains g h" for h
  proof -
    obtain f where f: "f \<in> set (frontier_of g)" "(f, h) \<in> (dag_edges (dag_by_hash g))\<^sup>*"
      using below_frontier [OF ok(1) acyc h] by blast
    have peer: "dag_contains g' s" if "s \<in> set ?peer" for s
      using that dag_okD(3) [OF ok(2)] by (simp add: frontier_of_def)
    show ?thesis
    proof (cases "\<exists>s\<in>set ?peer. (s, h) \<in> (dag_edges (dag_by_hash g))\<^sup>*")
      case True
      with agree_reach [OF agree ok(2) complete(2)] peer show ?thesis by blast
    next
      case False
      with f below_or_stop [OF f(2), of ?peer] have "f \<notin> set ?peer" "h \<in> below g ?peer f" by auto
      moreover obtain d where "dag_get g h = Some d" "delta_id E d = h"
        using h dag_okD(1) [OF ok(1)] by (auto simp: dag_contains_get)
      ultimately show ?thesis unfolding ds(4) using f(1) by blast
    qed
  qed
  with ds show ?thesis by blast
qed

text \<open>
  One round of anti-entropy brings a replica up to date.  When two replicas with gap-free
  histories exchange frontiers, the responder always finds an answer, sends only deltas it holds and none twice, and after
  inserting them the requester holds exactly the union of both histories, again without a gap
  (no hash collision among the held deltas and no cycle of hashes in the responder's store).
\<close>

theorem anti_entropy_round:
  assumes "dag_ok E g" "dag_ok E g'"
    "collision_free E {x. \<exists>h. dag_get g h = Some x \<or> dag_get g' h = Some x}"
    "dag_complete g" "dag_complete g'" "acyclic (dag_edges (dag_by_hash g))"
  shows "\<exists>ds. deltas_for_peer E g (frontier_of g') = Inr ds \<and> distinct (map (delta_id E) ds) \<and>
     set ds \<subseteq> {d. \<exists>h. dag_get g h = Some d} \<and>
     (let g'' = fold (\<lambda>d g. dag_put E g d) ds g'
      in dag_ok E g'' \<and> dag_complete g'' \<and>
         {h. dag_contains g'' h} = {h. dag_contains g h} \<union> {h. dag_contains g' h})"
proof -
  obtain ds where ds: "deltas_for_peer E g (frontier_of g') = Inr ds" "distinct (map (delta_id E) ds)"
    "set ds \<subseteq> {d. \<exists>h. dag_get g h = Some d}"
    "{h. dag_contains g h} \<subseteq> {h. dag_contains g' h} \<union> delta_id E ` set ds"
    using deltas_for_peer_covers [OF assms(1,2) dag_agreeI [OF assms(1-3)] assms(4-6)] by blast
  let ?g = "fold (\<lambda>d g. dag_put E g d) ds g'"
  have ok: "dag_ok E ?g" by (rule dag_put_all_ok [OF assms(2)])
  have "delta_id E ` set ds \<subseteq> {h. dag_contains g h}"
    using ds(3) dag_okD(1) [OF assms(1)] by (auto simp: dag_contains_get)
  then have held: "dag_contains ?g h \<longleftrightarrow> dag_contains g h \<or> dag_contains g' h" for h
    unfolding dag_contains_get dag.held_put_all using ds(4) by (auto simp: dag_contains_get)
  have "dag_contains ?g p" if "(h, p) \<in> dag_edges (dag_by_hash ?g)" for h p
  proof -
    obtain d where d: "dag_get ?g h = Some d" "p \<in> set (sd_parents d)"
      using \<open>(h, p) \<in> dag_edges (dag_by_hash ?g)\<close> by (auto simp: dag_edges_def dag_get_def)
    then have "dag_get g' h = Some d \<or> d \<in> set ds"
      by (auto simp: dag.get_put_all find_Some_iff split: option.splits)
    then obtain k where "dag_get g' h = Some d \<or> dag_get g k = Some d"
      using ds(3) by blast
    then have "(h, p) \<in> dag_edges (dag_by_hash g') \<or> (k, p) \<in> dag_edges (dag_by_hash g)"
      using d(2) by (auto simp: dag_edges_def dag_get_def)
    with assms(1,2,4,5) show ?thesis by (auto simp: dag_complete_iff held)
  qed
  with ok held ds show ?thesis by (auto simp: dag_complete_iff [OF ok] Let_def)
qed

theorem anti_entropy_round_witness:
  "\<exists>ds. deltas_for_peer ex_externs ex_dag (frontier_of dag_new) = Inr ds \<and>
     {h. dag_contains (fold (\<lambda>d g. dag_put ex_externs g d) ds dag_new) h}
       = {h. dag_contains ex_dag h} \<union> {h. dag_contains dag_new h}"
proof -
  have held: "dag_get ex_dag h = Some x \<Longrightarrow> x = ex_genesis" for h x
    by (auto simp: ex_dag_def dag_get_def split: if_splits)
  then have "{x. \<exists>h. dag_get ex_dag h = Some x \<or> dag_get dag_new h = Some x} \<subseteq> {ex_child, ex_genesis}"
    by auto
  then have cf: "collision_free ex_externs {x. \<exists>h. dag_get ex_dag h = Some x \<or> dag_get dag_new h = Some x}"
    by (rule collision_free_subset) (rule ex_collision_free)
  have complete: "dag_complete ex_dag" "dag_complete dag_new"
    by code_simp+
  have "dag_edges (dag_by_hash ex_dag) = {}"
    by (auto simp: dag_edges_def ex_dag_def ex_genesis_def split: if_splits)
  then have "acyclic (dag_edges (dag_by_hash ex_dag))" by (simp add: acyclic_def)
  from anti_entropy_round [OF ex_dag_ok dag_new_ok cf complete this]
  show ?thesis unfolding Let_def by blast
qed

text \<open>
  The fetch list is sufficient.  The hashes a replica asks for after seeing a peer's frontier are
  exactly the advertised hashes it lacks and its own dangling references; when the list is empty
  and no hash cycle exists in the peer's gap-free history, the replica already holds everything the peer holds.
\<close>

theorem missing_from_frontier_sufficient:
  assumes "dag_ok E g" "dag_ok E g'"
    "collision_free E {x. \<exists>h. dag_get g' h = Some x \<or> dag_get g h = Some x}"
    "dag_complete g'" "acyclic (dag_edges (dag_by_hash g'))"
    "missing_from_frontier g (frontier_of g') = []"
  shows "{h. dag_contains g' h} \<subseteq> {h. dag_contains g h} \<and> dag_complete g"
proof -
  have empty: "set (missing_from_frontier g (frontier_of g')) = {}" using assms(6) by simp
  then have "set (incomplete_ancestors g) = {}"
    by (simp add: missing_from_frontier_def)
  then have complete: "dag_complete g" by (simp add: dag_complete_def del: set_incomplete_ancestors)
  have front: "dag_contains g f" if "f \<in> set (frontier_of g')" for f
    using empty that by (auto simp: missing_from_frontier_def)
  have "dag_contains g h" if h: "dag_contains g' h" for h
  proof -
    obtain f where "f \<in> set (frontier_of g')" "(f, h) \<in> (dag_edges (dag_by_hash g'))\<^sup>*"
      using below_frontier [OF assms(2,5) h] by blast
    with agree_reach [OF dag_agreeI [OF assms(2,1,3)] assms(1) complete] front show ?thesis by blast
  qed
  with complete show ?thesis by blast
qed

theorem missing_from_frontier_sufficient_witness:
  "{h. dag_contains dag_new h} \<subseteq> {h. dag_contains ex_dag h} \<and> dag_complete ex_dag"
proof (rule missing_from_frontier_sufficient [of ex_externs])
  have "{x. \<exists>h. dag_get dag_new h = Some x \<or> dag_get ex_dag h = Some x} \<subseteq> {ex_child, ex_genesis}"
    by (auto simp: ex_dag_def dag_get_def dag_new_def split: if_splits)
  then show "collision_free ex_externs {x. \<exists>h. dag_get dag_new h = Some x \<or> dag_get ex_dag h = Some x}"
    by (rule collision_free_subset) (rule ex_collision_free)
  show "dag_complete dag_new" "missing_from_frontier ex_dag (frontier_of dag_new) = []"
    by code_simp+
  show "acyclic (dag_edges (dag_by_hash dag_new))"
    by (simp add: dag_edges_def dag_new_def acyclic_def)
qed simp_all

lemma dag_len_held: "dag_len g = card {h. dag_contains g h}"
proof -
  have "fset (fmdom (dag_by_hash g)) = {h. dag_contains g h}"
    by (auto simp: dag_contains_def fmlookup_dom_iff)
  then show ?thesis by (simp add: dag_len_def fcard.rep_eq)
qed

lemma card_Un_diff: "finite A \<Longrightarrow> finite B \<Longrightarrow> card (A \<union> B) - card A = card (B - A)"
  by (metis Un_Diff_cancel card_Un_disjoint Diff_disjoint add_diff_cancel_left' finite_Diff)

lemma finite_held [simp]: "finite {h. dag_contains g h}"
  by (rule finite_subset [of _ "fset (fmdom (dag_by_hash g))"]) (auto simp: dag_contains_def fmlookup_dom_iff)

text \<open>
  A bundle is merged whole or not at all, and only when it closes over what is held.  It is
  refused exactly when its claimed target is not among the hashes of its deltas, or some bundled
  delta has a parent that is neither held nor bundled; otherwise every bundled delta is held
  afterwards, filed under its own content hash, nothing held before is lost, the count is the
  number of new deltas, and a gap-free store stays gap-free.
\<close>

theorem merge_bundle_verified:
  assumes "dag_ok E g"
  shows "case merge_bundle E g b of
       Inl e \<Rightarrow> (cb_target b \<notin> delta_id E ` set (cb_deltas b) \<and> e = DeltaRejected (MissingTarget (cb_target b))) \<or>
         (\<exists>d p. d \<in> set (cb_deltas b) \<and> p \<in> set (sd_parents d) \<and> \<not> dag_contains g p \<and>
            p \<notin> delta_id E ` set (cb_deltas b) \<and> e = DeltaRejected (DanglingParent p))
     | Inr (n, g') \<Rightarrow> dag_ok E g' \<and> dag_le g g' \<and> dag_contains g' (cb_target b) \<and>
         {h. dag_contains g' h} = {h. dag_contains g h} \<union> delta_id E ` set (cb_deltas b) \<and>
         n = card (delta_id E ` set (cb_deltas b) - {h. dag_contains g h}) \<and>
         (dag_complete g \<longrightarrow> dag_complete g')"
proof (cases "merge_bundle E g b")
  case (Inl e)
  then show ?thesis
    by (auto simp: merge_bundle_def split: if_splits option.splits dest!: find_SomeD)
next
  case (Inr r)
  obtain n g' where r: "r = (n, g')" by fastforce
  let ?ds = "cb_deltas b"
  have g': "g' = fold (\<lambda>d g. dag_put E g d) ?ds g" and n: "n = dag_len g' - dag_len g"
    and target: "cb_target b \<in> delta_id E ` set ?ds"
    and closed: "\<forall>d\<in>set ?ds. \<forall>p\<in>set (sd_parents d). dag_contains g p \<or> p \<in> delta_id E ` set ?ds"
    using Inr r by (auto simp: merge_bundle_def find_None_iff split: if_splits option.splits)
  have ok: "dag_ok E g'" unfolding g' by (rule dag_put_all_ok [OF assms])
  have held: "{h. dag_contains g' h} = {h. dag_contains g h} \<union> delta_id E ` set ?ds"
    unfolding g' dag_contains_get dag.held_put_all by blast
  have count: "n = card (delta_id E ` set ?ds - {h. dag_contains g h})"
    using held by (simp add: n dag_len_held card_Un_diff)
  have "dag_complete g'" if "dag_complete g"
    unfolding dag_complete_iff [OF ok]
  proof (intro allI impI)
    fix h p
    assume "(h, p) \<in> dag_edges (dag_by_hash g')"
    then obtain d where d: "dag_get g' h = Some d" "p \<in> set (sd_parents d)"
      by (auto simp: dag_edges_def dag_get_def)
    then have "dag_get g h = Some d \<or> d \<in> set ?ds"
      by (auto simp: g' dag.get_put_all find_Some_iff split: option.splits)
    then have "dag_contains g p \<or> p \<in> delta_id E ` set ?ds"
      using closed d(2) \<open>dag_complete g\<close>
      by (auto simp: dag_complete_iff [OF assms] dag_edges_def dag_get_def)
    then show "dag_contains g' p" using held by blast
  qed
  moreover have "dag_contains g' (cb_target b)" using held target by blast
  ultimately show ?thesis
    using Inr r ok held count by (simp add: g' dag_le_put_all)
qed

theorem merge_bundle_verified_witness:
  "\<exists>n. merge_bundle ex_externs dag_new \<lparr>cb_target = delta_id ex_externs ex_genesis, cb_deltas = [ex_genesis]\<rparr>
       = Inr (n, ex_dag) \<and>
     n = card (delta_id ex_externs ` set [ex_genesis] - {h. dag_contains dag_new h}) \<and> dag_complete ex_dag"
proof -
  let ?b = "\<lparr>cb_target = delta_id ex_externs ex_genesis, cb_deltas = [ex_genesis]\<rparr>"
  have "merge_bundle ex_externs dag_new ?b = Inr (dag_len ex_dag - dag_len dag_new, ex_dag)"
  proof -
    have "sd_parents ex_genesis = []" by (simp add: ex_genesis_def)
    then show ?thesis by (simp add: merge_bundle_def ex_dag_put)
  qed
  moreover have "dag_complete dag_new" by code_simp
  ultimately show ?thesis
    using merge_bundle_verified [of ex_externs dag_new ?b] by simp
qed

end
