(* ===== verification/DocState.thy ===== *)
theory DocState
  imports Crdt Recon
begin

text \<open>
  The state of a document (\<open>struct Document\<close> of \<open>src/core/document.rs\<close>): the replicated fields,
  the creation and update times, the delta log and the delta DAG.
\<close>

record document =
  doc_did :: did
  doc_verification_methods :: verification_methods
  doc_service_endpoints :: service_endpoints
  doc_document_data :: document_data
  doc_also_known_as :: also_known_as
  doc_active_key :: active_key
  doc_revocations :: revocations
  doc_revoked_verification_methods :: revoked_vms
  doc_deactivated :: deactivated
  doc_created_ms :: "u64 option"
  doc_updated_ms :: "u64 option"
  doc_delta_log :: "signed_delta list"
  doc_dag :: delta_dag

text \<open>The document before anything is applied to it.\<close>

definition doc_blank :: "did \<Rightarrow> u64 option \<Rightarrow> document" where
  "doc_blank i t =
     \<lparr>doc_did = i, doc_verification_methods = vm_new, doc_service_endpoints = svc_new,
      doc_document_data = data_new, doc_also_known_as = aka_new, doc_active_key = ak_new,
      doc_revocations = rev_new, doc_revoked_verification_methods = rvm_new,
      doc_deactivated = deact_new, doc_created_ms = t, doc_updated_ms = t,
      doc_delta_log = [], doc_dag = dag_new\<rparr>"

end
