(* ===== verification/Validate.thy ===== *)
theory Validate
  imports DocState
begin

text \<open>
  Recognition of alias URIs, signature verification and the stand-alone authorisation check
  (\<open>src/core/validate.rs\<close>).
\<close>

section \<open>Alias URIs\<close>

definition MAX_ALSO_KNOWN_AS :: nat where
  "MAX_ALSO_KNOWN_AS = 32"

definition MAX_ALSO_KNOWN_AS_URI_LEN :: nat where
  "MAX_ALSO_KNOWN_AS_URI_LEN = 512"

definition is_ascii_alphabetic :: "char \<Rightarrow> bool" where
  "is_ascii_alphabetic c \<longleftrightarrow>
     (let n = of_char c :: nat in (65 \<le> n \<and> n \<le> 90) \<or> (97 \<le> n \<and> n \<le> 122))"

definition is_ascii_digit :: "char \<Rightarrow> bool" where
  "is_ascii_digit c \<longleftrightarrow> (let n = of_char c :: nat in 48 \<le> n \<and> n \<le> 57)"

definition is_ascii_alphanumeric :: "char \<Rightarrow> bool" where
  "is_ascii_alphanumeric c \<longleftrightarrow> is_ascii_alphabetic c \<or> is_ascii_digit c"

text \<open>\<open>str::split_once\<close> with a single character.\<close>

fun split_once :: "char \<Rightarrow> string \<Rightarrow> (string \<times> string) option" where
  "split_once c [] = None"
| "split_once c (x # xs) =
     (if x = c then Some ([], xs)
      else case split_once c xs of None \<Rightarrow> None | Some (a, b) \<Rightarrow> Some (x # a, b))"

definition scheme_ok :: "string \<Rightarrow> bool" where
  "scheme_ok scheme \<longleftrightarrow>
     (case scheme of
        [] \<Rightarrow> False
      | c # tail \<Rightarrow> is_ascii_alphabetic c \<and>
          list_all (\<lambda>c. is_ascii_alphanumeric c \<or> c = CHR ''+'' \<or> c = CHR ''-'' \<or> c = CHR ''.'') tail)"

definition body_ok :: "string \<Rightarrow> bool" where
  "body_ok rest \<longleftrightarrow> rest \<noteq> [] \<and> list_all (\<lambda>c. let n = of_char c :: nat in 33 \<le> n \<and> n \<le> 126) rest"

definition recognise_uri :: "string \<Rightarrow> unit result" where
  "recognise_uri uri =
     (if uri = [] \<or> length uri > MAX_ALSO_KNOWN_AS_URI_LEN then Inl (DeltaRejected (AliasLength (length uri)))
      else case split_once (CHR '':'') uri of
             None \<Rightarrow> Inl (DeltaRejected (AliasNoScheme uri))
           | Some (scheme, rest) \<Rightarrow>
               if \<not> scheme_ok scheme then Inl (DeltaRejected (AliasBadScheme uri))
               else if \<not> body_ok rest then Inl (DeltaRejected (AliasBadBody uri))
               else Inr ())"

fun recognise_each :: "string list \<Rightarrow> unit result" where
  "recognise_each [] = Inr ()"
| "recognise_each (u # us) = (case recognise_uri u of Inl e \<Rightarrow> Inl e | Inr _ \<Rightarrow> recognise_each us)"

definition recognise_also_known_as :: "string list \<Rightarrow> unit result" where
  "recognise_also_known_as uris =
     (if length uris > MAX_ALSO_KNOWN_AS then Inl (DeltaRejected (TooManyAliases (length uris)))
      else recognise_each uris)"

section \<open>Signatures\<close>

definition decode_multibase_u :: "externs \<Rightarrow> string \<Rightarrow> bytes result" where
  "decode_multibase_u E s =
     (case s of
        [] \<Rightarrow> Inl InvalidSignature
      | c # b64 \<Rightarrow>
          if c = CHR ''u'' then (case b64_decode E b64 of None \<Rightarrow> Inl InvalidSignature | Some b \<Rightarrow> Inr b)
          else Inl InvalidSignature)"

definition node_id_from_pubkey :: "externs \<Rightarrow> bytes \<Rightarrow> u64" where
  "node_id_from_pubkey E key = word_rcat (rev (take 8 (blake3 E key)))"

text \<open>The check of the suite that the proof declares; \<open>k256\<close> and \<open>ed25519-dalek\<close> are parameters.\<close>

definition verify_suite :: "externs \<Rightarrow> suite_type \<Rightarrow> bytes \<Rightarrow> bytes \<Rightarrow> bytes \<Rightarrow> unit result" where
  "verify_suite E suite key input sig =
     (case suite of
        Ed25519Signature2020 \<Rightarrow>
          if length key = 32 \<and> ed25519_key_ok E key \<and> length sig = 64 \<and> ed25519_verify E key input sig
          then Inr () else Inl InvalidSignature
      | EcdsaSecp256k1Signature2019 \<Rightarrow>
          if secp256k1_key_ok E key \<and> secp256k1_sig_ok E sig \<and> secp256k1_verify E key input sig
          then Inr () else Inl InvalidSignature)"

definition verify_signature :: "externs \<Rightarrow> signed_delta \<Rightarrow> document \<Rightarrow> unit result" where
  "verify_signature E d doc =
     (if pr_proof_value (sd_proof d) = [] then
        (if vm_entries E (doc_verification_methods doc) = [] then Inr () else Inl InvalidSignature)
      else case decode_multibase_u E (pr_proof_value (sd_proof d)) of
        Inl e \<Rightarrow> Inl e
      | Inr sig \<Rightarrow>
          (case signing_input E d of
             Inl e \<Rightarrow> Inl e
           | Inr input \<Rightarrow>
               (case find (\<lambda>e. vme_id e = pr_verification_method (sd_proof d))
                       (vm_entries E (doc_verification_methods doc)) of
                  None \<Rightarrow> Inl (Unauthorised (VerificationMethodNotFound (pr_verification_method (sd_proof d))))
                | Some entry \<Rightarrow>
                    (case decode_multibase_u E (vme_public_key_multibase entry) of
                       Inl e \<Rightarrow> Inl e
                     | Inr key \<Rightarrow>
                         if node_id (sd_timestamp d) \<noteq> node_id_from_pubkey E key
                         then Inl (Unauthorised (NodeIdMismatch (node_id (sd_timestamp d)) (node_id_from_pubkey E key)))
                         else verify_suite E (pr_suite (sd_proof d)) key input sig))))"

section \<open>The stand-alone authorisation check\<close>

definition check_authorisation :: "externs \<Rightarrow> signed_delta \<Rightarrow> document \<Rightarrow> unit result" where
  "check_authorisation E d doc =
     (if sd_did d \<noteq> doc_did doc then Inl (DeltaRejected (DidMismatchMsg (sd_did d) (doc_did doc)))
      else if deact_is_set (doc_deactivated doc) then Inl (DeltaRejected DeactivatedDocument)
      else
        let signer = pr_verification_method (sd_proof d);
            is_genesis = (vm_entries E (doc_verification_methods doc) = [])
        in if is_genesis then
             (case sd_op d of
                AddVerificationMethod _ _ _ _ \<Rightarrow> Inr ()
              | _ \<Rightarrow> Inl (Unauthorised OnlyAddVmOnGenesis))
           else if \<not> vm_contains_id E (doc_verification_methods doc) signer
                then Inl (Unauthorised (SignerUnknown signer))
           else if rvm_contains E (doc_revoked_verification_methods doc) signer
                then Inl (Unauthorised (SignerRevoked signer))
           else Inr ())"

section \<open>The recogniser accepts exactly its grammar\<close>

lemma split_once_Some:
  "split_once c s = Some (a, b) \<longleftrightarrow> s = a @ c # b \<and> c \<notin> set a"
proof (induction s arbitrary: a)
  case (Cons x xs)
  show ?case
  proof (cases a)
    case Nil
    then show ?thesis by (auto split: option.splits)
  next
    case (Cons y ys)
    show ?thesis
      unfolding Cons by (cases "split_once c xs") (use Cons.IH [of ys] in \<open>auto split: prod.splits\<close>)
  qed
qed simp

lemma split_once_None: "split_once c s = None \<longleftrightarrow> c \<notin> set s"
  by (induction s) (auto split: option.splits)

text \<open>
  The grammar of the documentation, as a predicate: an alphabetic character, scheme characters, a
  colon and a printable body, 1 to 512 bytes long.
\<close>

definition alias_uri :: "string \<Rightarrow> bool" where
  "alias_uri u \<longleftrightarrow> length u \<le> 512 \<and>
     (\<exists>c tail rest. u = c # tail @ CHR '':'' # rest \<and> is_ascii_alphabetic c \<and>
        set tail \<subseteq> {c. is_ascii_alphanumeric c} \<union> set ''+-.'' \<and>
        rest \<noteq> [] \<and> set rest \<subseteq> {c. of_char c \<in> {33..126::nat}})"

lemma scheme_no_colon: "scheme_ok s \<Longrightarrow> CHR '':'' \<notin> set s"
  by (auto simp: scheme_ok_def list_all_iff is_ascii_alphanumeric_def is_ascii_alphabetic_def
      is_ascii_digit_def split: list.splits)

lemma recognise_uri_iff: "recognise_uri u = Inr () \<longleftrightarrow> alias_uri u"
proof
  assume "recognise_uri u = Inr ()"
  then obtain s r where sr: "split_once (CHR '':'') u = Some (s, r)" "scheme_ok s" "body_ok r" "length u \<le> 512"
    by (auto simp: recognise_uri_def MAX_ALSO_KNOWN_AS_URI_LEN_def split: if_splits option.splits)
  then show "alias_uri u"
    by (auto simp: alias_uri_def split_once_Some scheme_ok_def body_ok_def list_all_iff Let_def
        split: list.splits)
next
  assume "alias_uri u"
  then obtain c tail rest where u: "u = (c # tail) @ CHR '':'' # rest" "length u \<le> 512"
    and t: "is_ascii_alphabetic c" "set tail \<subseteq> {c. is_ascii_alphanumeric c} \<union> set ''+-.''"
    and r: "rest \<noteq> []" "set rest \<subseteq> {c. of_char c \<in> {33..126::nat}}"
    unfolding alias_uri_def by auto
  have s: "scheme_ok (c # tail)" using t by (auto simp: scheme_ok_def list_all_iff)
  have b: "body_ok rest" using r by (auto simp: body_ok_def list_all_iff Let_def)
  have "split_once (CHR '':'') u = Some (c # tail, rest)"
    unfolding split_once_Some using u(1) scheme_no_colon [OF s] by blast
  with u s b show "recognise_uri u = Inr ()"
    by (simp add: recognise_uri_def MAX_ALSO_KNOWN_AS_URI_LEN_def)
qed

text \<open>
  C31: The recogniser of \<open>alsoKnownAs\<close> accepts exactly the lists of at most 32 URIs of the grammar it
  implements: an alphabetic first character, scheme characters up to the first colon, and a non-empty
  printable body, at most 512 bytes in all.  The entries need not be distinct, although the
  documented grammar calls them so: a list with a repeated URI is accepted.
\<close>

theorem recogniser_exact:
  "(recognise_also_known_as uris = Inr () \<longleftrightarrow> length uris \<le> 32 \<and> list_all alias_uri uris) \<and>
   (\<exists>twice. recognise_also_known_as twice = Inr () \<and> \<not> distinct twice)"
proof
  have "recognise_also_known_as [''a:b'', ''a:b''] = Inr ()" by code_simp
  then show "\<exists>twice. recognise_also_known_as twice = Inr () \<and> \<not> distinct twice"
    by (intro exI [of _ "[''a:b'', ''a:b'']"]) simp
next
  have "recognise_each us = Inr () \<longleftrightarrow> list_all alias_uri us" for us
    by (induction us) (auto simp: recognise_uri_iff [symmetric] split: sum.splits)
  then show "recognise_also_known_as uris = Inr () \<longleftrightarrow> length uris \<le> 32 \<and> list_all alias_uri uris"
    by (simp add: recognise_also_known_as_def MAX_ALSO_KNOWN_AS_def)
qed

section \<open>What a verified signature proves\<close>

text \<open>The bytes a signature covers: the canonical text of the payload.\<close>

lemma signing_input_Inr:
  "signing_input E d = Inr (str_bytes (canonical_json E
     (payload_value (sd_did d) (sd_timestamp d) (sd_op d) (sd_parents d))))"
  by (simp add: signing_input_def compute_signing_input_def)

lemma verify_signature_key:
  assumes "verify_signature E d doc = Inr ()" "vm_entries E (doc_verification_methods doc) \<noteq> []"
  shows "\<exists>entry key sig input. entry \<in> set (vm_entries E (doc_verification_methods doc)) \<and>
     vme_id entry = pr_verification_method (sd_proof d) \<and>
     decode_multibase_u E (vme_public_key_multibase entry) = Inr key \<and>
     decode_multibase_u E (pr_proof_value (sd_proof d)) = Inr sig \<and>
     signing_input E d = Inr input \<and>
     node_id (sd_timestamp d) = node_id_from_pubkey E key \<and>
     (case pr_suite (sd_proof d) of
        Ed25519Signature2020 \<Rightarrow> length key = 32 \<and> length sig = 64 \<and> ed25519_verify E key input sig
      | EcdsaSecp256k1Signature2019 \<Rightarrow> secp256k1_verify E key input sig)"
proof -
  have nonempty: "pr_proof_value (sd_proof d) \<noteq> []"
    using assms by (auto simp: verify_signature_def)
  obtain sig input where si: "decode_multibase_u E (pr_proof_value (sd_proof d)) = Inr sig"
    "signing_input E d = Inr input"
    using assms(1) nonempty by (auto simp: verify_signature_def split: sum.splits)
  obtain entry where e: "find (\<lambda>e. vme_id e = pr_verification_method (sd_proof d))
      (vm_entries E (doc_verification_methods doc)) = Some entry"
    using assms(1) nonempty si by (auto simp: verify_signature_def split: option.splits)
  obtain key where k: "decode_multibase_u E (vme_public_key_multibase entry) = Inr key"
    using assms(1) nonempty si e by (auto simp: verify_signature_def split: sum.splits)
  have "node_id (sd_timestamp d) = node_id_from_pubkey E key"
    "verify_suite E (pr_suite (sd_proof d)) key input sig = Inr ()"
    using assms(1) nonempty si e k by (auto simp: verify_signature_def split: if_splits)
  with si k find_SomeD [OF e] show ?thesis
    by (intro exI [of _ entry] exI [of _ key] exI [of _ sig] exI [of _ input])
      (auto simp: verify_suite_def split: suite_type.splits if_splits)
qed

text \<open>
  A signature check that succeeds on a document with keys is a real verification: the document
  holds an entry under the claimed key id, the timestamp's node id is the one derived from that
  entry's public key, and the signature bytes verify over the signing input of the delta under that
  key with the suite the proof declares.
\<close>

theorem verify_signature_sound:
  assumes "verify_signature E d doc = Inr ()" "vm_entries E (doc_verification_methods doc) \<noteq> []"
  shows "\<exists>entry key sig input. entry \<in> set (vm_entries E (doc_verification_methods doc)) \<and>
     vme_id entry = pr_verification_method (sd_proof d) \<and>
     decode_multibase_u E (vme_public_key_multibase entry) = Inr key \<and>
     decode_multibase_u E (pr_proof_value (sd_proof d)) = Inr sig \<and>
     signing_input E d = Inr input \<and>
     node_id (sd_timestamp d) = node_id_from_pubkey E key \<and>
     (case pr_suite (sd_proof d) of
        Ed25519Signature2020 \<Rightarrow> length key = 32 \<and> length sig = 64 \<and> ed25519_verify E key input sig
      | EcdsaSecp256k1Signature2019 \<Rightarrow> secp256k1_verify E key input sig)"
  using verify_signature_key [OF assms] .

definition ex_key_a :: verification_method_entry where
  "ex_key_a = VerificationMethodEntry ''#k'' ''ua'' EcdsaSecp256k1Signature2019 [Authentication]"

definition ex_key_b :: verification_method_entry where
  "ex_key_b = VerificationMethodEntry ''#k'' ''ub'' EcdsaSecp256k1Signature2019 [Authentication]"

definition ex_signed :: signed_delta where
  "ex_signed = (ex_delta 2 (RevokeCredential ''c'') [])
     \<lparr>sd_timestamp := HlcTimestamp 2 0 98,
      sd_proof := \<lparr>pr_suite = EcdsaSecp256k1Signature2019, pr_verification_method = ''#k'',
        pr_created = '''', pr_proof_value = ''ub''\<rparr>\<rparr>"

definition ex_doc_with :: "verification_methods \<Rightarrow> document" where
  "ex_doc_with vms = (doc_blank (Did ''d'') None)\<lparr>doc_verification_methods := vms\<rparr>"

lemma ex_node_id: "node_id_from_pubkey ex_externs [97] = 97" "node_id_from_pubkey ex_externs [98] = 98"
  by (simp_all add: node_id_from_pubkey_def ex_externs_def word_rcat_def)

lemma ex_decode [simp]: "decode_multibase_u ex_externs (CHR ''u'' # s) = Inr (str_bytes s)"
  by (simp add: decode_multibase_u_def ex_externs_def ref_externs_def)

lemma ex_entries:
  "vm_entries ex_externs {|ex_key_b|} = [ex_key_b]"
  "vm_entries ex_externs {|ex_key_a, ex_key_b|} = [ex_key_a, ex_key_b]"
  by code_simp+

lemma ex_char_bytes: "str_bytes ''a'' = [97]" "str_bytes ''b'' = [98]"
  by (simp_all add: str_bytes_def)

lemma ex_suite: "verify_suite ex_externs EcdsaSecp256k1Signature2019 key input sig
    = (if sig = key then Inr () else Inl InvalidSignature)"
  by (simp add: verify_suite_def ex_externs_def ref_externs_def)

lemmas ex_verify_simps = verify_signature_def ex_signed_def signing_input_Inr ex_doc_with_def
  ex_entries [unfolded ex_key_a_def ex_key_b_def] ex_key_a_def ex_key_b_def ex_char_bytes ex_node_id ex_suite

lemma ex_verify_b: "verify_signature ex_externs ex_signed (ex_doc_with {|ex_key_b|}) = Inr ()"
  by (simp add: ex_verify_simps)

theorem verify_signature_sound_witness:
  "\<exists>entry key sig input. entry \<in> set (vm_entries ex_externs {|ex_key_b|}) \<and>
     decode_multibase_u ex_externs (vme_public_key_multibase entry) = Inr key \<and>
     signing_input ex_externs ex_signed = Inr input \<and> secp256k1_verify ex_externs key input sig"
proof -
  have "vm_entries ex_externs (doc_verification_methods (ex_doc_with {|ex_key_b|})) \<noteq> []"
    by (simp add: ex_doc_with_def ex_entries)
  from verify_signature_sound [OF ex_verify_b this] show ?thesis
    by (auto simp: ex_doc_with_def ex_signed_def)
qed

text \<open>
  Key ids are not unique, and the check uses the first entry in sort order.  A signature that
  verifies under the only key of its id stops verifying when a second entry with the same id and a
  smaller key is added to the set.
\<close>

theorem verify_signature_shadowed:
  "verify_signature ex_externs ex_signed (ex_doc_with {|ex_key_b|}) = Inr () \<and>
   verify_signature ex_externs ex_signed (ex_doc_with {|ex_key_a, ex_key_b|})
     = Inl (Unauthorised (NodeIdMismatch 98 97))"
  using ex_verify_b by (simp add: ex_verify_simps)

end
