(* ===== verification/Resolve.thy ===== *)
theory Resolve
  imports DocState
begin

text \<open>
  The data of a resolution result (\<open>src/core/resolve.rs\<close>): metadata, the DID document with its
  verification methods and services, and the property names that document data may not use.
\<close>

record did_resolution_metadata =
  drm_content_type :: string

record did_document_metadata =
  ddm_deactivated :: bool
  ddm_version_id :: string
  ddm_created :: "string option"
  ddm_updated :: "string option"
  ddm_genesis_public_key_multibase :: "string option"
  ddm_signed_closure :: "closure_bundle option"

record verification_method =
  vmt_id :: string
  vmt_type :: string
  vmt_controller :: string
  vmt_public_key_multibase :: "string option"
  vmt_public_key_jwk :: "json option"

record service_endpoint =
  sep_id :: string
  sep_type :: string
  sep_endpoint :: json

record did_document =
  dd_context :: "json list"
  dd_id :: string
  dd_also_known_as :: "string list"
  dd_verification_method :: "verification_method list"
  dd_authentication :: "json list"
  dd_assertion_method :: "json list"
  dd_key_agreement :: "json list"
  dd_capability_invocation :: "json list"
  dd_capability_delegation :: "json list"
  dd_service :: "service_endpoint list"
  dd_extra :: "(string, json) fmap"

record resolution_result =
  rr_did_resolution_metadata :: did_resolution_metadata
  rr_did_document :: "did_document option"
  rr_did_document_metadata :: did_document_metadata

definition RESERVED_DOCUMENT_PROPERTIES :: "string list" where
  "RESERVED_DOCUMENT_PROPERTIES =
     [''@context'', ''id'', ''alsoKnownAs'', ''controller'', ''verificationMethod'',
      ''authentication'', ''assertionMethod'', ''keyAgreement'', ''capabilityInvocation'',
      ''capabilityDelegation'', ''service'']"

definition is_reserved_document_property :: "string \<Rightarrow> bool" where
  "is_reserved_document_property key \<longleftrightarrow> key \<in> set RESERVED_DOCUMENT_PROPERTIES"

definition base_context :: "json list" where
  "base_context =
     [JString ''https://www.w3.org/ns/did/v1'',
      JString ''https://w3id.org/security/suites/ed25519-2020/v1'']"

definition did_document_empty :: "did \<Rightarrow> did_document" where
  "did_document_empty i =
     \<lparr>dd_context = base_context, dd_id = did_to_string i, dd_also_known_as = [],
      dd_verification_method = [], dd_authentication = [], dd_assertion_method = [],
      dd_key_agreement = [], dd_capability_invocation = [], dd_capability_delegation = [],
      dd_service = [], dd_extra = fmempty\<rparr>"

definition JSON_WEB_KEY_TYPE :: string where
  "JSON_WEB_KEY_TYPE = ''JsonWebKey''"

definition JWK_FRAGMENT_PREFIX :: string where
  "JWK_FRAGMENT_PREFIX = ''#jwk-''"

section \<open>The JSON text of a document\<close>

text \<open>
  The member names of the object that a DID document serialises to: the typed fields under their
  declared names, empty arrays left out, then the flattened extra map.
\<close>

definition opt_field :: "string \<Rightarrow> 'a list \<Rightarrow> string list" where
  "opt_field name xs = (if xs = [] then [] else [name])"

definition did_document_members :: "did_document \<Rightarrow> string list" where
  "did_document_members d =
     [''@context'', ''id''] @
     opt_field ''alsoKnownAs'' (dd_also_known_as d) @
     opt_field ''verificationMethod'' (dd_verification_method d) @
     opt_field ''authentication'' (dd_authentication d) @
     opt_field ''assertionMethod'' (dd_assertion_method d) @
     opt_field ''keyAgreement'' (dd_key_agreement d) @
     opt_field ''capabilityInvocation'' (dd_capability_invocation d) @
     opt_field ''capabilityDelegation'' (dd_capability_delegation d) @
     opt_field ''service'' (dd_service d) @
     map fst (sorted_list_of_fmap (dd_extra d))"

end
