(* ===== verification/Topo.thy ===== *)
theory Topo
  imports Recon
begin

text \<open>
  The replay order of a bundle (\<open>topo_order_bundle\<close> of \<open>src/core/document.rs\<close>).  The hash map of
  the kvs is the list of its entries in iteration order, which the sources leave open; the
  result does not depend on it.
\<close>

type_synonym in_degrees = "(delta_hash, nat) fmap"
type_synonym child_lists = "(delta_hash, delta_hash list) fmap"

text \<open>One parent link inside the bundle: raise the in-degree of the child, note the child.\<close>

definition link ::
    "delta_hash \<Rightarrow> delta_hash \<Rightarrow> in_degrees \<times> child_lists \<Rightarrow> in_degrees \<times> child_lists" where
  "link h p st =
     (case st of (indeg, children) \<Rightarrow>
        (fmupd h (the (fmlookup indeg h) + 1) indeg,
         fmupd p ((case fmlookup children p of None \<Rightarrow> [] | Some cs \<Rightarrow> cs) @ [h]) children))"

definition build_links ::
    "(delta_hash \<times> signed_delta) list \<Rightarrow> in_degrees \<times> child_lists" where
  "build_links kvs =
     fold (\<lambda>(h, d) st. fold (\<lambda>p st. if p \<in> fst ` set kvs then link h p st else st) (sd_parents d) st)
       kvs (fmap_of_list (map (\<lambda>(h, _). (h, 0)) kvs), fmempty)"

text \<open>
  The inner loop: lower the in-degree of each child and collect those that reach zero.  \<open>None\<close> is
  the panic of a missing entry or of an underflow.
\<close>

fun unlock :: "delta_hash list \<Rightarrow> in_degrees \<Rightarrow> delta_hash list \<Rightarrow> (in_degrees \<times> delta_hash list) option" where
  "unlock [] indeg unlocked = Some (indeg, unlocked)"
| "unlock (c # cs) indeg unlocked =
     (case fmlookup indeg c of
        None \<Rightarrow> None
      | Some n \<Rightarrow>
          if n = 0 then None
          else unlock cs (fmupd c (n - 1) indeg) (if n - 1 = 0 then unlocked @ [c] else unlocked))"

definition total :: "in_degrees \<Rightarrow> nat" where
  "total m = (\<Sum>h\<in>fset (fmdom m). the (fmlookup m h))"

lemma total_upd:
  assumes "fmlookup m c = Some n" "n \<noteq> 0"
  shows "total (fmupd c (n - 1) m) < total m"
proof -
  have c: "c \<in> fset (fmdom m)" using assms(1) by (simp add: fmdomI)
  then have dom: "fset (fmdom (fmupd c (n - 1) m)) = fset (fmdom m)" by auto
  have "(\<Sum>h\<in>fset (fmdom m). the (fmlookup (fmupd c (n - 1) m) h))
      < (\<Sum>h\<in>fset (fmdom m). the (fmlookup m h))"
    by (rule sum_strict_mono_ex1) (use assms c in auto)
  then show ?thesis by (simp only: total_def dom)
qed

lemma unlock_total:
  "unlock cs m us = Some (m', us') \<Longrightarrow> total m' \<le> total m \<and> (cs \<noteq> [] \<longrightarrow> total m' < total m)"
proof (induction cs m us arbitrary: m' us' rule: unlock.induct)
  case (2 c cs m us)
  then obtain n where n: "fmlookup m c = Some n" "n \<noteq> 0"
    "unlock cs (fmupd c (n - 1) m) (if n - 1 = 0 then us @ [c] else us) = Some (m', us')"
    by (auto split: option.splits if_splits)
  with "2.IH" have "total m' \<le> total (fmupd c (n - 1) m)" by blast
  with total_upd [OF n(1,2)] show ?case by simp
qed simp

text \<open>
  Kahn's loop; the stack of ready hashes is a list whose head is its top.  \<open>None\<close> is a panic.
\<close>

function kahn ::
    "child_lists \<Rightarrow> in_degrees \<Rightarrow> delta_hash list \<Rightarrow> delta_hash list \<Rightarrow> delta_hash list option" where
  "kahn children indeg [] order = Some order"
| "kahn children indeg (h # ready) order =
     (case fmlookup children h of
        None \<Rightarrow> kahn children indeg ready (order @ [h])
      | Some cs \<Rightarrow>
          (case unlock cs indeg [] of
             None \<Rightarrow> None
           | Some (indeg', unlocked) \<Rightarrow>
               kahn children indeg' (rev (sort unlocked) @ ready) (order @ [h])))"
  by pat_completeness auto

lemma unlock_Nil: "unlock [] m us = Some (m', us') \<Longrightarrow> m' = m \<and> us' = us"
  by simp

termination kahn
proof (relation "inv_image (less_than <*lex*> less_than)
      (\<lambda>(children, indeg, ready, order). (total indeg, length ready))", goal_cases)
  case (3 children indeg h ready order cs x indeg' unlocked)
  then show ?case
    using unlock_total [of cs indeg "[]" indeg' unlocked] by (cases cs) auto
qed auto

definition topo_order_bundle ::
    "(delta_hash \<times> signed_delta) list \<Rightarrow> delta_hash list result option" where
  "topo_order_bundle kvs =
     (let (indeg, children) = build_links kvs;
          roots = filter (\<lambda>h. fmlookup indeg h = Some 0) (map fst kvs)
      in case kahn children indeg (rev (sort roots)) [] of
           None \<Rightarrow> None
         | Some order \<Rightarrow>
             Some (if length order \<noteq> length kvs then Inl (DeltaRejected ParentCycle) else Inr order))"

section \<open>The links of a bundle\<close>

text \<open>The parent links inside a bundle, child first.\<close>

definition bundle_links :: "(delta_hash \<times> signed_delta) list \<Rightarrow> (delta_hash \<times> delta_hash) list" where
  "bundle_links kvs =
     concat (map (\<lambda>(h, d). map (\<lambda>p. (h, p)) (filter (\<lambda>p. p \<in> fst ` set kvs) (sd_parents d))) kvs)"

definition children_of :: "child_lists \<Rightarrow> delta_hash \<Rightarrow> delta_hash list" where
  "children_of m p = (case fmlookup m p of None \<Rightarrow> [] | Some cs \<Rightarrow> cs)"

lemma fold_concat_map: "fold f (concat (map g xs)) a = fold (\<lambda>x a. fold f (g x) a) xs a"
  by (induction xs arbitrary: a) auto

lemma fold_filter_if: "fold f (filter P xs) a = fold (\<lambda>x a. if P x then f x a else a) xs a"
  by (induction xs arbitrary: a) auto

lemma build_links_fold:
  "build_links kvs =
     fold (\<lambda>(h, p). link h p) (bundle_links kvs)
       (fmap_of_list (map (\<lambda>(h, _). (h, 0)) kvs), fmempty)"
  unfolding build_links_def bundle_links_def fold_concat_map
  by (rule fold_cong) (auto simp: fold_map o_def fold_filter_if)

text \<open>Links to \<open>h\<close> whose parent is not among \<open>xs\<close>.\<close>

definition pending :: "(delta_hash \<times> delta_hash) list \<Rightarrow> delta_hash list \<Rightarrow> delta_hash \<Rightarrow> nat" where
  "pending es xs h = length (filter (\<lambda>(c, p). c = h \<and> p \<notin> set xs) es)"

lemma pending_simps [simp]:
  "pending [] xs h = 0"
  "pending ((c, p) # es) xs h = (if c = h \<and> p \<notin> set xs then Suc (pending es xs h) else pending es xs h)"
  by (simp_all add: pending_def)

lemma pending_pop: "x \<notin> set xs \<Longrightarrow> pending es xs h = pending es (xs @ [x]) h + count_list es (h, x)"
  by (induction es) (auto split: if_splits)

lemma pending_0: "pending es xs h = 0 \<longleftrightarrow> (\<forall>p. (h, p) \<in> set es \<longrightarrow> p \<in> set xs)"
  by (auto simp: pending_def filter_empty_conv)

lemma link_pair:
  "link c q (m, cm) = (fmupd c (the (fmlookup m c) + 1) m, fmupd q (children_of cm q @ [c]) cm)"
  by (simp add: link_def children_of_def)

lemma fold_link_degrees:
  assumes "fst ` set es \<subseteq> fset (fmdom m)"
  shows "fmlookup (fst (fold (\<lambda>(h, p). link h p) es (m, cm))) h
      = map_option (\<lambda>n. n + pending es [] h) (fmlookup m h)"
  using assms
proof (induction es arbitrary: m cm)
  case (Cons e es)
  obtain c q where e: "e = (c, q)" by fastforce
  obtain n where n: "fmlookup m c = Some n" using Cons.prems by (auto simp: e fmlookup_dom_iff)
  have "fst ` set es \<subseteq> fset (fmdom (fmupd c (the (fmlookup m c) + 1) m))" using Cons.prems by auto
  from Cons.IH [OF this] n show ?case by (auto simp: e link_pair option.map_comp o_def)
qed (simp add: option.map_ident)

lemma fold_link_children:
  "count_list (children_of (snd (fold (\<lambda>(h, p). link h p) es (m, cm))) p) h
     = count_list (children_of cm p) h + count_list es (h, p)"
proof (induction es arbitrary: m cm)
  case (Cons e es)
  obtain c q where e: "e = (c, q)" by fastforce
  have "count_list (children_of (fmupd q (children_of cm q @ [c]) cm) p) h
      = count_list (children_of cm p) h + (if (c, q) = (h, p) then 1 else 0)"
    by (auto simp: children_of_def)
  with Cons.IH show ?case by (auto simp: e link_pair)
qed simp

lemma fold_link_nonempty:
  "fmlookup cm p \<noteq> Some [] \<Longrightarrow> fmlookup (snd (fold (\<lambda>(h, p). link h p) es (m, cm))) p \<noteq> Some []"
proof (induction es arbitrary: m cm)
  case (Cons e es)
  obtain c q where e: "e = (c, q)" by fastforce
  have "fmlookup (fmupd q (children_of cm q @ [c]) cm) p \<noteq> Some []" using Cons.prems by auto
  from Cons.IH [OF this] show ?case by (simp add: e link_pair)
qed simp

lemma bundle_links_set:
  "(h, p) \<in> set (bundle_links kvs) \<longleftrightarrow>
     p \<in> fst ` set kvs \<and> (\<exists>d. (h, d) \<in> set kvs \<and> p \<in> set (sd_parents d))"
proof -
  have "(h, p) \<in> set (bundle_links kvs) \<longleftrightarrow>
      (\<exists>x\<in>set kvs. (h, p) \<in> Pair (fst x) ` {p \<in> set (sd_parents (snd x)). p \<in> fst ` set kvs})"
    by (simp add: bundle_links_def case_prod_beta)
  also have "\<dots> \<longleftrightarrow> (\<exists>x\<in>set kvs. h = fst x \<and> p \<in> set (sd_parents (snd x)) \<and> p \<in> fst ` set kvs)"
    by (intro bex_cong refl) auto
  also have "\<dots> \<longleftrightarrow> p \<in> fst ` set kvs \<and> (\<exists>d. (h, d) \<in> set kvs \<and> p \<in> set (sd_parents d))"
    by (auto simp: Bex_def split_paired_Ex)
  finally show ?thesis .
qed

lemma build_links_spec:
  "fmlookup (fst (build_links kvs)) h
     = (if h \<in> fst ` set kvs then Some (pending (bundle_links kvs) [] h) else None)"
  "count_list (children_of (snd (build_links kvs)) p) h = count_list (bundle_links kvs) (h, p)"
  "fmlookup (snd (build_links kvs)) p \<noteq> Some []"
proof -
  let ?m = "fmap_of_list (map (\<lambda>(h, _). (h, 0::nat)) kvs)"
  have m: "fmlookup ?m h = (if h \<in> fst ` set kvs then Some 0 else None)" for h
    by (induction kvs) (auto simp: fmlookup_of_list)
  have dom: "fst ` set (bundle_links kvs) \<subseteq> fset (fmdom ?m)"
  proof
    fix h
    assume "h \<in> fst ` set (bundle_links kvs)"
    then obtain p where "(h, p) \<in> set (bundle_links kvs)" by auto
    then have "h \<in> fst ` set kvs" unfolding bundle_links_set by force
    then have "fmlookup ?m h = Some 0" by (simp only: m if_True)
    then show "h \<in> fset (fmdom ?m)" by (rule fmdomI)
  qed
  show "fmlookup (fst (build_links kvs)) h
      = (if h \<in> fst ` set kvs then Some (pending (bundle_links kvs) [] h) else None)"
    unfolding build_links_fold fold_link_degrees [OF dom] m by simp
  show "count_list (children_of (snd (build_links kvs)) p) h = count_list (bundle_links kvs) (h, p)"
    unfolding build_links_fold fold_link_children by (simp add: children_of_def)
  show "fmlookup (snd (build_links kvs)) p \<noteq> Some []"
    unfolding build_links_fold by (rule fold_link_nonempty) simp
qed

section \<open>The inner loop\<close>

lemma unlock_spec:
  assumes "\<forall>c\<in>set cs. \<exists>n. fmlookup m c = Some n \<and> count_list cs c \<le> n"
  shows "\<exists>m' vs. unlock cs m us = Some (m', us @ vs) \<and> distinct vs \<and>
     set vs = {c \<in> set cs. fmlookup m c = Some (count_list cs c)} \<and>
     (\<forall>c. fmlookup m' c = map_option (\<lambda>n. n - count_list cs c) (fmlookup m c))"
  using assms
proof (induction cs arbitrary: m us)
  case Nil
  then show ?case by (simp add: option.map_ident)
next
  case (Cons c cs)
  obtain n where n: "fmlookup m c = Some n" "Suc (count_list cs c) \<le> n"
    using Cons.prems by fastforce
  let ?m = "fmupd c (n - 1) m"
  let ?us = "if n - 1 = 0 then us @ [c] else us"
  have "\<forall>x\<in>set cs. \<exists>k. fmlookup ?m x = Some k \<and> count_list cs x \<le> k"
    using Cons.prems n by (auto split: if_splits)
  then obtain m' vs where IH: "unlock cs ?m ?us = Some (m', ?us @ vs)" "distinct vs"
    "set vs = {x \<in> set cs. fmlookup ?m x = Some (count_list cs x)}"
    "\<forall>x. fmlookup m' x = map_option (\<lambda>n. n - count_list cs x) (fmlookup ?m x)"
    using Cons.IH by blast
  let ?vs = "(if n - 1 = 0 then [c] else []) @ vs"
  have cs: "c \<notin> set cs" if "n = Suc 0"
    using n(2) that count_list_0_iff [of cs c] by simp
  have vs: "distinct ?vs" using IH(2,3) cs n(2) by auto
  have "x \<in> set ?vs \<longleftrightarrow> x \<in> set (c # cs) \<and> fmlookup m x = Some (count_list (c # cs) x)" for x
  proof (cases "x = c")
    case True
    then show ?thesis
      using n cs IH(3) count_list_0_iff [of cs c] by (cases "n = Suc 0") auto
  qed (simp add: IH(3))
  then have vs_set: "set ?vs = {x \<in> set (c # cs). fmlookup m x = Some (count_list (c # cs) x)}" by blast
  have "unlock (c # cs) m us = Some (m', us @ ?vs)"
    using n IH(1) by auto
  moreover have "\<forall>x. fmlookup m' x = map_option (\<lambda>n. n - count_list (c # cs) x) (fmlookup m x)"
    using IH(4) n by (auto split: if_splits)
  ultimately show ?case using vs vs_set by blast
qed

section \<open>The outer loop\<close>

text \<open>Every hash comes after the hashes that its links lead to.\<close>

definition parents_first :: "(delta_hash \<times> delta_hash) set \<Rightarrow> delta_hash list \<Rightarrow> bool" where
  "parents_first R xs \<longleftrightarrow> (\<forall>us h vs p. xs = us @ h # vs \<longrightarrow> (h, p) \<in> R \<longrightarrow> p \<in> set us)"

lemma parents_first_snoc:
  assumes "parents_first R xs" "\<And>p. (h, p) \<in> R \<Longrightarrow> p \<in> set xs"
  shows "parents_first R (xs @ [h])"
  unfolding parents_first_def
proof (intro allI impI)
  fix us x vs p
  assume eq: "xs @ [h] = us @ x # vs" and p: "(x, p) \<in> R"
  show "p \<in> set us"
  proof (cases vs rule: rev_exhaust)
    case Nil
    with eq p assms(2) show ?thesis by simp
  next
    case (snoc vs' v)
    with eq have "xs = us @ x # vs'" by simp
    with assms(1) p show ?thesis unfolding parents_first_def by blast
  qed
qed

definition kahn_inv ::
    "delta_hash set \<Rightarrow> (delta_hash \<times> delta_hash) list \<Rightarrow> in_degrees \<Rightarrow> delta_hash list \<Rightarrow> delta_hash list \<Rightarrow> bool" where
  "kahn_inv K es indeg ready order \<longleftrightarrow>
     (\<forall>h. fmlookup indeg h = (if h \<in> K then Some (pending es order h) else None)) \<and>
     set ready \<union> set order = {h \<in> K. pending es order h = 0} \<and>
     distinct ready \<and> distinct order \<and> set ready \<inter> set order = {} \<and>
     parents_first (set es) order"

lemma kahn_step:
  assumes inv: "kahn_inv K es indeg (h # ready) order" and es: "fst ` set es \<subseteq> K"
    and cs: "\<And>c. count_list cs c = count_list es (c, h)"
  shows "\<exists>indeg' vs. unlock cs indeg [] = Some (indeg', vs) \<and> distinct vs \<and>
     set vs = {c \<in> set cs. fmlookup indeg c = Some (count_list cs c)} \<and>
     kahn_inv K es indeg' (rev (sort vs) @ ready) (order @ [h])"
proof -
  have deg: "fmlookup indeg c = (if c \<in> K then Some (pending es order c) else None)" for c
    using inv by (auto simp: kahn_inv_def)
  have front: "insert h (set ready) \<union> set order = {h \<in> K. pending es order h = 0}"
    and dist: "h \<notin> set ready" "distinct ready" "distinct order" "h \<notin> set order" "set ready \<inter> set order = {}"
    and pf: "parents_first (set es) order"
    using inv by (auto simp: kahn_inv_def)
  have pop: "pending es order c = pending es (order @ [h]) c + count_list cs c" for c
    using pending_pop [OF dist(4)] cs by simp
  have in_cs: "c \<in> set cs \<longleftrightarrow> (c, h) \<in> set es" for c
    using cs count_list_0_iff [of cs c] count_list_0_iff [of es "(c, h)"] by metis
  have csK: "c \<in> K" if "c \<in> set cs" for c
    using es in_cs that by force
  have "\<forall>c\<in>set cs. \<exists>n. fmlookup indeg c = Some n \<and> count_list cs c \<le> n"
    using csK pop by (simp add: deg)
  then obtain indeg' vs where u: "unlock cs indeg [] = Some (indeg', vs)" "distinct vs"
    "set vs = {c \<in> set cs. fmlookup indeg c = Some (count_list cs c)}"
    "\<forall>c. fmlookup indeg' c = map_option (\<lambda>n. n - count_list cs c) (fmlookup indeg c)"
    using unlock_spec [of cs indeg "[]"] by auto
  have deg': "fmlookup indeg' c = (if c \<in> K then Some (pending es (order @ [h]) c) else None)" for c
    using u(4) pop [of c] by (simp add: deg)
  have vs: "c \<in> set vs \<longleftrightarrow> c \<in> K \<and> c \<in> set cs \<and> pending es (order @ [h]) c = 0" for c
    using csK pop [of c] by (auto simp: u(3) deg)
  have zero: "pending es (order @ [h]) c = 0 \<longleftrightarrow> pending es order c = 0 \<or> (c \<in> set cs \<and> pending es (order @ [h]) c = 0)" for c
    using pop [of c] count_list_0_iff [of cs c] by auto
  have fresh: "pending es order c \<noteq> 0" if "c \<in> set cs" for c
    using pop [of c] that count_list_0_iff [of cs c] by auto
  have front': "set vs \<union> set ready \<union> insert h (set order) = {h' \<in> K. pending es (order @ [h]) h' = 0}"
  proof (rule set_eqI)
    fix c
    have "c \<in> insert h (set ready) \<union> set order \<longleftrightarrow> c \<in> K \<and> pending es order c = 0"
      unfolding front by simp
    with vs [of c] zero [of c]
    show "c \<in> set vs \<union> set ready \<union> insert h (set order) \<longleftrightarrow> c \<in> {h' \<in> K. pending es (order @ [h]) h' = 0}"
      unfolding Un_iff insert_iff mem_Collect_eq by argo
  qed
  have disj: "set vs \<inter> (insert h (set ready) \<union> set order) = {}"
    using fresh vs front by blast
  have "h \<in> insert h (set ready) \<union> set order" by simp
  then have "pending es order h = 0" unfolding front by simp
  then have "p \<in> set order" if "(h, p) \<in> set es" for p
    using that pending_0 by simp
  then have "parents_first (set es) (order @ [h])" by (rule parents_first_snoc [OF pf])
  then have "kahn_inv K es indeg' (rev (sort vs) @ ready) (order @ [h])"
    unfolding kahn_inv_def using deg' front' disj dist u(2) by auto
  with u show ?thesis by blast
qed

lemma kahn_result:
  assumes "kahn_inv K es indeg ready order" "fst ` set es \<subseteq> K"
    "\<And>p c. count_list (children_of children p) c = count_list es (c, p)"
  shows "\<exists>order' indeg'. kahn children indeg ready order = Some order' \<and> kahn_inv K es indeg' [] order'"
  using assms
proof (induction children indeg ready order rule: kahn.induct)
  case (2 children indeg h ready order)
  obtain indeg' vs where s: "unlock (children_of children h) indeg [] = Some (indeg', vs)"
    "kahn_inv K es indeg' (rev (sort vs) @ ready) (order @ [h])"
    using kahn_step [OF "2.prems"(1,2) "2.prems"(3)] by blast
  show ?case
  proof (cases "fmlookup children h")
    case None
    with s have "indeg' = indeg" "vs = []" by (simp_all add: children_of_def)
    with s have "kahn_inv K es indeg ready (order @ [h])" by simp
    from "2.IH"(1) [OF None this "2.prems"(2,3)] None show ?thesis by simp
  next
    case (Some cs)
    with s(1) have u: "unlock cs indeg [] = Some (indeg', vs)" by (simp add: children_of_def)
    from "2.IH"(2) [OF Some u refl s(2) "2.prems"(2,3)] Some u show ?thesis by simp
  qed
qed auto

section \<open>Properties of the replay order\<close>

lemma kahn_inv_init:
  assumes "distinct (map fst kvs)"
  shows "kahn_inv (fst ` set kvs) (bundle_links kvs) (fst (build_links kvs))
    (rev (sort (filter (\<lambda>h. fmlookup (fst (build_links kvs)) h = Some 0) (map fst kvs)))) []"
  using assms unfolding kahn_inv_def
  by (auto simp: build_links_spec(1) distinct_filter parents_first_def split: if_splits)

lemma bundle_links_fst: "fst ` set (bundle_links kvs) \<subseteq> fst ` set kvs"
  using bundle_links_set by force

lemma takeWhile_until: "h \<notin> set us \<Longrightarrow> takeWhile (\<lambda>x. x \<noteq> h) (us @ h # vs) = us"
  by (induction us) auto

text \<open>When the loop ends, what is left out is exactly what lies on or below a cycle.\<close>

lemma kahn_inv_final:
  assumes inv: "kahn_inv K es indeg [] order" and K: "finite K" and es: "set es \<subseteq> K \<times> K"
  shows "set order = K \<longleftrightarrow> acyclic (set es)"
proof
  have front: "set order = {h \<in> K. pending es order h = 0}" and pf: "parents_first (set es) order"
    and dist: "distinct order"
    using inv by (auto simp: kahn_inv_def)
  show "acyclic (set es)" if all: "set order = K"
  proof -
    let ?pos = "\<lambda>h. length (takeWhile (\<lambda>x. x \<noteq> h) order)"
    have "?pos p < ?pos h" if "(h, p) \<in> set es" for h p
    proof -
      have "h \<in> set order" using es that all by auto
      then obtain us vs where o: "order = us @ h # vs" "h \<notin> set us"
        using split_list_first by fastforce
      with pf that have "p \<in> set us" unfolding parents_first_def by blast
      then obtain xs ys where "us = xs @ p # ys" "p \<notin> set xs" using split_list_first by fastforce
      moreover have "?pos h = length us" unfolding o(1) takeWhile_until [OF o(2)] ..
      ultimately have "order = xs @ p # (ys @ h # vs)" "?pos h = length us" using o(1) by simp_all
      with \<open>us = xs @ p # ys\<close> \<open>p \<notin> set xs\<close> show ?thesis by (simp add: takeWhile_until)
    qed
    then have "(set es)\<inverse> \<subseteq> measure ?pos" by auto
    then have "wf ((set es)\<inverse>)" by (rule wf_subset [OF wf_measure])
    then show ?thesis using wf_acyclic acyclic_converse by blast
  qed
  show "set order = K" if "acyclic (set es)"
  proof -
    have "wf ((set es)\<inverse>)"
      using that K es by (intro finite_acyclic_wf) (auto simp: finite_subset)
    moreover have "h \<in> K \<longrightarrow> h \<in> set order" if "\<forall>p. (h, p) \<in> set es \<longrightarrow> p \<in> K \<longrightarrow> p \<in> set order" for h
      using that front es pending_0 [of es order h] by auto
    ultimately have "h \<in> K \<longrightarrow> h \<in> set order" for h
      by (induction h rule: wf_induct_rule) auto
    then show ?thesis using front by auto
  qed
qed

lemma topo_order_spec:
  assumes "distinct (map fst kvs)"
  shows "if acyclic (set (bundle_links kvs))
         then (\<exists>order. topo_order_bundle kvs = Some (Inr order) \<and> distinct order \<and>
                 set order = fst ` set kvs \<and> parents_first (set (bundle_links kvs)) order)
         else topo_order_bundle kvs = Some (Inl (DeltaRejected ParentCycle))"
proof -
  let ?es = "bundle_links kvs" and ?K = "fst ` set kvs"
  obtain indeg children where b: "build_links kvs = (indeg, children)" by fastforce
  let ?roots = "filter (\<lambda>h. fmlookup indeg h = Some 0) (map fst kvs)"
  have init: "kahn_inv ?K ?es indeg (rev (sort ?roots)) []"
    using kahn_inv_init [OF assms] by (simp add: b)
  have "\<And>p c. count_list (children_of children p) c = count_list ?es (c, p)"
    using build_links_spec(2) [of kvs] by (simp add: b)
  then obtain order indeg' where k: "kahn children indeg (rev (sort ?roots)) [] = Some order"
    "kahn_inv ?K ?es indeg' [] order"
    using kahn_result [OF init bundle_links_fst] by blast
  have links: "set ?es \<subseteq> ?K \<times> ?K"
    using bundle_links_set by force
  have sub: "set order \<subseteq> ?K" "distinct order" "parents_first (set ?es) order"
    using k(2) by (auto simp: kahn_inv_def)
  have "length order = length kvs \<longleftrightarrow> card (set order) = card ?K"
    using sub(2) assms by (metis distinct_card length_map set_map)
  also have "\<dots> \<longleftrightarrow> set order = ?K"
    using sub(1) card_subset_eq [of ?K "set order"] by auto
  also have "\<dots> \<longleftrightarrow> acyclic (set ?es)"
    by (rule kahn_inv_final [OF k(2) _ links]) simp
  finally have len: "length order = length kvs \<longleftrightarrow> acyclic (set ?es)" .
  have "topo_order_bundle kvs
      = Some (if length order \<noteq> length kvs then Inl (DeltaRejected ParentCycle) else Inr order)"
    by (simp add: topo_order_bundle_def b k(1))
  with len sub kahn_inv_final [OF k(2) _ links] show ?thesis by auto
qed

text \<open>
  C29: Bundles are replayed in causal order, and cyclic bundles are refused.  The ordering never
  panics (no missing entry, no underflow).  If the parent links inside the bundle have no cycle, it
  returns every hash of the bundle exactly once, each after all its parents in the bundle; if they
  have one, it returns the cycle error.
\<close>

theorem topo_order_correct:
  assumes "distinct (map fst kvs)"
  shows "if acyclic (set (bundle_links kvs))
         then (\<exists>order. topo_order_bundle kvs = Some (Inr order) \<and> distinct order \<and>
                 set order = fst ` set kvs \<and> parents_first (set (bundle_links kvs)) order)
         else topo_order_bundle kvs = Some (Inl (DeltaRejected ParentCycle))"
  using topo_order_spec [OF assms] .

definition ex_kvs :: "(delta_hash \<times> signed_delta) list" where
  "ex_kvs = [(DeltaHash ''b'', ex_delta 2 Deactivate [DeltaHash ''a'']), (DeltaHash ''a'', ex_genesis)]"

lemma ex_kvs_links: "set (bundle_links ex_kvs) = {(DeltaHash ''b'', DeltaHash ''a'')}"
  by (simp add: bundle_links_def ex_kvs_def ex_genesis_def)

theorem topo_order_correct_witness:
  "\<exists>order. topo_order_bundle ex_kvs = Some (Inr order) \<and> set order = fst ` set ex_kvs \<and>
     parents_first (set (bundle_links ex_kvs)) order"
proof -
  have "acyclic (set (bundle_links ex_kvs))"
    unfolding ex_kvs_links by (simp add: acyclic_insert) (simp add: acyclic_def)
  moreover have "distinct (map fst ex_kvs)" by (simp add: ex_kvs_def)
  ultimately show ?thesis using topo_order_correct [of ex_kvs] by auto
qed

subsection \<open>Independence of the iteration order\<close>

lemma kahn_unfold:
  "kahn children indeg (h # ready) order =
     (case unlock (children_of children h) indeg [] of
        None \<Rightarrow> None
      | Some (indeg', unlocked) \<Rightarrow> kahn children indeg' (rev (sort unlocked) @ ready) (order @ [h]))"
  by (simp add: children_of_def split: option.split)

lemma set_count_list: "x \<in> set xs \<longleftrightarrow> count_list xs x \<noteq> 0"
  by (simp add: count_list_0_iff)

lemma kahn_cong:
  assumes "kahn_inv K es indeg ready order" "fst ` set es \<subseteq> K"
    "\<And>p c. count_list (children_of children p) c = count_list es (c, p)"
    "\<And>p c. count_list (children_of children' p) c = count_list es (c, p)"
  shows "kahn children indeg ready order = kahn children' indeg ready order"
  using assms
proof (induction children indeg ready order rule: kahn.induct)
  case (2 children indeg h ready order)
  obtain m vs where s: "unlock (children_of children h) indeg [] = Some (m, vs)" "distinct vs"
    "set vs = {c \<in> set (children_of children h). fmlookup indeg c = Some (count_list (children_of children h) c)}"
    "kahn_inv K es m (rev (sort vs) @ ready) (order @ [h])"
    using kahn_step [OF "2.prems"(1,2) "2.prems"(3)] by blast
  obtain m' vs' where s': "unlock (children_of children' h) indeg [] = Some (m', vs')" "distinct vs'"
    "set vs' = {c \<in> set (children_of children' h). fmlookup indeg c = Some (count_list (children_of children' h) c)}"
    "kahn_inv K es m' (rev (sort vs') @ ready) (order @ [h])"
    using kahn_step [OF "2.prems"(1,2) "2.prems"(4)] by blast
  have "set vs = set vs'"
    unfolding s(3) s'(3) set_count_list "2.prems"(3,4) ..
  then have vs: "sort vs = sort vs'"
    using s(2) s'(2) by (metis sorted_list_of_set_sort_remdups distinct_remdups_id)
  have m: "m = m'"
    using s(4) s'(4) by (intro fmap_ext) (simp add: kahn_inv_def)
  have "kahn children m (rev (sort vs) @ ready) (order @ [h]) = kahn children' m (rev (sort vs) @ ready) (order @ [h])"
  proof (cases "fmlookup children h")
    case None
    with s(1) have "m = indeg" "vs = []" by (simp_all add: children_of_def)
    with "2.IH"(1) [OF None _ "2.prems"(2-4)] s(4) show ?thesis by simp
  next
    case (Some cs)
    with s(1) have "unlock cs indeg [] = Some (m, vs)" by (simp add: children_of_def)
    from "2.IH"(2) [OF Some this refl s(4) "2.prems"(2-4)] show ?thesis .
  qed
  then show ?case by (simp only: kahn_unfold s(1) s'(1) vs m option.case prod.case)
qed simp

lemma bundle_links_mset:
  assumes "mset kvs = mset kvs'"
  shows "mset (bundle_links kvs) = mset (bundle_links kvs')"
proof -
  have "set kvs = set kvs'" using assms by (rule mset_eq_setD)
  then show ?thesis
    unfolding bundle_links_def mset_concat sum_mset_sum_list [symmetric] mset_map using assms by simp
qed

lemma bundle_links_perm:
  assumes "mset kvs = mset kvs'"
  shows "count_list (bundle_links kvs) x = count_list (bundle_links kvs') x"
proof -
  have "count_list xs x = count (mset xs) x" for xs
    by (induction xs) auto
  with bundle_links_mset [OF assms] show ?thesis by simp
qed

text \<open>
  The replay order is a function of the bundle's content: the unspecified iteration order of the
  hash map that indexes it does not show in the result.
\<close>

theorem topo_order_deterministic:
  assumes "distinct (map fst kvs)" "mset kvs = mset kvs'"
  shows "topo_order_bundle kvs = topo_order_bundle kvs'"
proof -
  obtain indeg children where b: "build_links kvs = (indeg, children)" by fastforce
  obtain indeg' children' where b': "build_links kvs' = (indeg', children')" by fastforce
  have set: "set kvs = set kvs'" using assms(2) by (rule mset_eq_setD)
  have pend: "pending (bundle_links kvs) [] h = pending (bundle_links kvs') [] h" for h
    using bundle_links_mset [OF assms(2)] unfolding pending_def by (metis mset_filter size_mset)
  have indeg: "indeg = indeg'"
    using build_links_spec(1) [of kvs] build_links_spec(1) [of kvs'] pend set
    by (intro fmap_ext) (simp add: b b')
  let ?r = "\<lambda>kvs. filter (\<lambda>h. fmlookup indeg h = Some 0) (map fst kvs)"
  have "mset (?r kvs) = mset (?r kvs')" using assms(2) by (simp add: mset_filter)
  then have roots: "sort (?r kvs) = sort (?r kvs')"
    by (metis mset_sort properties_for_sort sorted_sort)
  have init: "kahn_inv (fst ` set kvs) (bundle_links kvs) indeg (rev (sort (?r kvs))) []"
    using kahn_inv_init [OF assms(1)] by (simp add: b)
  have "kahn children indeg (rev (sort (?r kvs))) [] = kahn children' indeg (rev (sort (?r kvs))) []"
    using kahn_cong [OF init bundle_links_fst, of children children'] build_links_spec(2) [of kvs]
      build_links_spec(2) [of kvs'] bundle_links_perm [OF assms(2)] by (simp add: b b')
  moreover have "length kvs = length kvs'" using assms(2) by (rule mset_eq_length)
  ultimately show ?thesis
    by (simp add: topo_order_bundle_def b b' indeg [symmetric] roots [symmetric] cong: option.case_cong)
qed

theorem topo_order_deterministic_witness:
  "topo_order_bundle ex_kvs = topo_order_bundle (rev ex_kvs)"
  by (rule topo_order_deterministic) (simp_all add: ex_kvs_def)

end
