(* ===== verification/Document.thy ===== *)
theory Document
  imports Validate Resolve Topo
begin

text \<open>
  The document (\<open>src/core/document.rs\<close>): creation, the application of an operation, delta merge,
  verified delta merge, state merge, bundles and their verified replay, loading, and the accessors.
  An operation on \<open>&mut self\<close> returns its result together with the document it leaves, also when
  the result is an error.
\<close>

section \<open>Creation and application\<close>

definition derive_did :: "externs \<Rightarrow> string \<Rightarrow> did result" where
  "derive_did E pk =
     (let proto_op = AddVerificationMethod ''#key-0'' pk suite_default default_relationships
      in case seed_to_vec E (hlc_default, proto_op, pk) of
           None \<Rightarrow> Inl Serialisation
         | Some seed \<Rightarrow> Inr (from_creation_hash E (blake3 E seed)))"

definition touch :: "u64 option \<Rightarrow> u64 \<Rightarrow> u64 option" where
  "touch updated wall =
     (case updated of
        Some prev \<Rightarrow> if wall > prev then Some wall else updated
      | None \<Rightarrow> Some wall)"

text \<open>The adds of a service id in the causal past of a removal.\<close>

definition observed_adds :: "delta_dag \<Rightarrow> delta_hash list \<Rightarrow> string \<Rightarrow> dot list" where
  "observed_adds g parents i =
     closure_collect g parents
       (\<lambda>d. case sd_op d of
              AddServiceEndpoint added_id _ _ \<Rightarrow> if added_id = i then Some (sd_timestamp d) else None
            | _ \<Rightarrow> None)"

definition apply_op :: "externs \<Rightarrow> document \<Rightarrow> delta_op \<Rightarrow> hlc_timestamp \<Rightarrow> delta_hash list \<Rightarrow> document" where
  "apply_op E doc0 op ts parents =
     (let doc = doc0\<lparr>doc_updated_ms := touch (doc_updated_ms doc0) (wall_ms ts)\<rparr>
      in case op of
           AddVerificationMethod i pk suite rels \<Rightarrow>
             doc\<lparr>doc_verification_methods := vm_insert E (doc_verification_methods doc) i pk suite rels\<rparr>
         | AddServiceEndpoint i service_type endpoint \<Rightarrow>
             doc\<lparr>doc_service_endpoints :=
                   svc_apply_add (doc_service_endpoints doc) (ServiceEntry i service_type endpoint) ts\<rparr>
         | RemoveServiceEndpoint i \<Rightarrow>
             doc\<lparr>doc_service_endpoints :=
                   svc_apply_remove (doc_service_endpoints doc) (observed_adds (doc_dag doc) parents i) ts\<rparr>
         | SetAlsoKnownAs uris \<Rightarrow>
             doc\<lparr>doc_also_known_as := aka_set E (doc_also_known_as doc) uris ts\<rparr>
         | SetDocumentData key value \<Rightarrow>
             doc\<lparr>doc_document_data := data_set E (doc_document_data doc) key value ts\<rparr>
         | RotateKey seq key_ref \<Rightarrow>
             doc\<lparr>doc_active_key := ak_rotate E (doc_active_key doc) seq key_ref\<rparr>
         | RevokeCredential credential_id \<Rightarrow>
             doc\<lparr>doc_revocations := rev_insert E (doc_revocations doc) credential_id\<rparr>
         | RevokeVerificationMethod key_id \<Rightarrow>
             doc\<lparr>doc_revoked_verification_methods :=
                   rvm_insert E (doc_revoked_verification_methods doc) key_id\<rparr>
         | Deactivate \<Rightarrow> doc\<lparr>doc_deactivated := deact_set (doc_deactivated doc)\<rparr>)"

text \<open>Recording a delta in the DAG and the log; the DAG insertion comes first.\<close>

definition doc_new :: "externs \<Rightarrow> string \<Rightarrow> (document \<times> signed_delta) result" where
  "doc_new E pk =
     (case derive_did E pk of
        Inl e \<Rightarrow> Inl e
      | Inr i \<Rightarrow>
          let op = AddVerificationMethod (did_to_string i @ ''#key-0'') pk suite_default default_relationships;
              doc = apply_op E (doc_blank i (Some (wall_ms hlc_default))) op hlc_default [];
              creation = unsigned_delta i op hlc_default pk;
              doc' = doc\<lparr>doc_delta_log := doc_delta_log doc @ [creation]\<rparr>
          in case dag_insert E (doc_dag doc') creation of
               Inl e \<Rightarrow> Inl e
             | Inr (h, g) \<Rightarrow> Inr (doc'\<lparr>doc_dag := g\<rparr>, creation))"

section \<open>Delta merge\<close>

fun is_canonical_parents :: "delta_hash list \<Rightarrow> bool" where
  "is_canonical_parents (x # y # zs) \<longleftrightarrow> x < y \<and> is_canonical_parents (y # zs)"
| "is_canonical_parents _ \<longleftrightarrow> True"

text \<open>The gates on the operation itself: alias recognition and reserved property names.\<close>

definition recognise_op :: "delta_op \<Rightarrow> unit result" where
  "recognise_op op =
     (case op of
        SetAlsoKnownAs uris \<Rightarrow> recognise_also_known_as uris
      | SetDocumentData key _ \<Rightarrow>
          if is_reserved_document_property key then Inl (DeltaRejected (ReservedProperty key)) else Inr ()
      | _ \<Rightarrow> Inr ())"

text \<open>The causal gate, with the deferral of signers that no held delta introduces.\<close>

definition causal_gate :: "document \<Rightarrow> signed_delta \<Rightarrow> unit result" where
  "causal_gate doc d =
     (case verify_causal d (doc_dag doc) of
        Unknown ms \<Rightarrow> Inl (DeltaPending ms)
      | Valid \<Rightarrow> Inr ()
      | Invalid reason \<Rightarrow>
          if reason = RR_SignerNotAuthorised \<and> sd_parents d \<noteq> [] \<and>
             \<not> has_authorising_delta (doc_dag doc) (pr_verification_method (sd_proof d))
          then Inr ()
          else Inl (Unauthorised (CausallyUnauthorised reason)))"

text \<open>The floor for facts that a state merge imported without their deltas.\<close>

definition import_floor :: "externs \<Rightarrow> document \<Rightarrow> string \<Rightarrow> unit result" where
  "import_floor E doc signer =
     (if deact_is_set (doc_deactivated doc) \<and> \<not> has_deactivate_delta (doc_dag doc)
      then Inl (DeltaRejected DeactivatedImported)
      else if \<not> has_authorising_delta (doc_dag doc) signer \<and>
              vm_entries E (doc_verification_methods doc) \<noteq> [] \<and>
              \<not> vm_contains_id E (doc_verification_methods doc) signer
      then Inl (Unauthorised (SignerUnknown signer))
      else if rvm_contains E (doc_revoked_verification_methods doc) signer \<and>
              \<not> has_revoking_delta (doc_dag doc) signer
      then Inl (Unauthorised (SignerRevokedImported signer))
      else Inr ())"

definition merge :: "externs \<Rightarrow> document \<Rightarrow> signed_delta \<Rightarrow> unit result \<times> document" where
  "merge E doc d =
     (case delta_to_vec E d of
        None \<Rightarrow> (Inl Serialisation, doc)
      | Some bytes \<Rightarrow>
          if length bytes > MAX_DELTA_SIZE then (Inl (DeltaTooLarge (length bytes) MAX_DELTA_SIZE), doc)
          else if sd_did d \<noteq> doc_did doc
          then (Inl (DeltaRejected (DidMismatchMsg (sd_did d) (doc_did doc))), doc)
          else (case recognise_op (sd_op d) of
            Inl e \<Rightarrow> (Inl e, doc)
          | Inr _ \<Rightarrow>
              (case content_hash E d of
                 Inl e \<Rightarrow> (Inl e, doc)
               | Inr h \<Rightarrow>
                   if dag_contains (doc_dag doc) h then (Inr (), doc)
                   else if \<not> is_canonical_parents (sd_parents d)
                   then (Inl (DeltaRejected ParentsNotCanonical), doc)
                   else (case causal_gate doc d of
                     Inl e \<Rightarrow> (Inl e, doc)
                   | Inr _ \<Rightarrow>
                       (case import_floor E doc (pr_verification_method (sd_proof d)) of
                          Inl e \<Rightarrow> (Inl e, doc)
                        | Inr _ \<Rightarrow>
                            let doc' = apply_op E doc (sd_op d) (sd_timestamp d) (sd_parents d)
                            in case dag_insert E (doc_dag doc') d of
                                 Inl e \<Rightarrow> (Inl e, doc')
                               | Inr (_, g) \<Rightarrow>
                                   (Inr (), doc'\<lparr>doc_dag := g,
                                                 doc_delta_log := doc_delta_log doc' @ [d]\<rparr>))))))"

definition merge_verified_delta :: "externs \<Rightarrow> document \<Rightarrow> signed_delta \<Rightarrow> unit result \<times> document" where
  "merge_verified_delta E doc d =
     (case content_hash E d of
        Inl e \<Rightarrow> (Inl e, doc)
      | Inr h \<Rightarrow>
          if dag_contains (doc_dag doc) h then (Inr (), doc)
          else (case verify_causal d (doc_dag doc) of
            Unknown ms \<Rightarrow> (Inl (DeltaPending ms), doc)
          | _ \<Rightarrow>
              (case verify_signature E d doc of
                 Inl e \<Rightarrow> (Inl e, doc)
               | Inr _ \<Rightarrow> merge E doc d)))"

section \<open>State merge\<close>

fun merge_created :: "u64 option \<Rightarrow> u64 option \<Rightarrow> u64 option" where
  "merge_created (Some a) (Some b) = Some (min a b)"
| "merge_created None (Some b) = Some b"
| "merge_created a None = a"

fun merge_updated :: "u64 option \<Rightarrow> u64 option \<Rightarrow> u64 option" where
  "merge_updated (Some a) (Some b) = Some (max a b)"
| "merge_updated None (Some b) = Some b"
| "merge_updated a None = a"

text \<open>The loop over the incoming log; a hash or insertion error is skipped.\<close>

fun merge_log ::
    "externs \<Rightarrow> signed_delta list \<Rightarrow> delta_hash fset \<Rightarrow> delta_dag \<Rightarrow> signed_delta list
     \<Rightarrow> delta_dag \<times> signed_delta list" where
  "merge_log E [] seen g log = (g, log)"
| "merge_log E (d # ds) seen g log =
     (case content_hash E d of
        Inl _ \<Rightarrow> merge_log E ds seen g log
      | Inr h \<Rightarrow>
          if h |\<in>| seen then merge_log E ds seen g log
          else merge_log E ds (finsert h seen)
                 (case dag_insert E g d of Inl _ \<Rightarrow> g | Inr (_, g') \<Rightarrow> g') (log @ [d]))"

definition log_hashes :: "externs \<Rightarrow> signed_delta list \<Rightarrow> delta_hash fset" where
  "log_hashes E ds =
     fset_of_list (List.map_filter (\<lambda>d. case content_hash E d of Inl _ \<Rightarrow> None | Inr h \<Rightarrow> Some h) ds)"

definition merge_state :: "externs \<Rightarrow> document \<Rightarrow> document \<Rightarrow> unit result \<times> document" where
  "merge_state E self other =
     (if doc_did other \<noteq> doc_did self
      then (Inl (DeltaRejected (MergeDifferentDids (doc_did self) (doc_did other))), self)
      else
        let (g, log) = merge_log E (doc_delta_log other) (log_hashes E (doc_delta_log self))
                         (doc_dag self) (doc_delta_log self)
        in (Inr (),
            self\<lparr>doc_verification_methods :=
                   vm_merge E (doc_verification_methods self) (doc_verification_methods other),
                 doc_service_endpoints :=
                   svc_merge (doc_service_endpoints self) (doc_service_endpoints other),
                 doc_document_data := data_merge E (doc_document_data self) (doc_document_data other),
                 doc_also_known_as := aka_merge E (doc_also_known_as self) (doc_also_known_as other),
                 doc_active_key := ak_merge E (doc_active_key self) (doc_active_key other),
                 doc_revocations := rev_merge E (doc_revocations self) (doc_revocations other),
                 doc_revoked_verification_methods :=
                   rvm_merge E (doc_revoked_verification_methods self) (doc_revoked_verification_methods other),
                 doc_deactivated := deact_merge (doc_deactivated self) (doc_deactivated other),
                 doc_created_ms := merge_created (doc_created_ms self) (doc_created_ms other),
                 doc_updated_ms := merge_updated (doc_updated_ms self) (doc_updated_ms other),
                 doc_dag := g, doc_delta_log := log\<rparr>))"

section \<open>Loading\<close>

text \<open>The serialised document: every field but the DAG, which is rebuilt from the log.\<close>

record document_repr =
  dr_did :: did
  dr_verification_methods :: verification_methods
  dr_service_endpoints :: service_endpoints_repr
  dr_document_data :: document_data
  dr_also_known_as :: also_known_as
  dr_active_key :: active_key
  dr_revocations :: revocations
  dr_revoked_verification_methods :: revoked_vms
  dr_deactivated :: deactivated
  dr_created_ms :: "u64 option"
  dr_updated_ms :: "u64 option"
  dr_delta_log :: "signed_delta list"

definition to_repr :: "document \<Rightarrow> document_repr" where
  "to_repr doc =
     \<lparr>dr_did = doc_did doc, dr_verification_methods = doc_verification_methods doc,
      dr_service_endpoints = svc_serialize (doc_service_endpoints doc),
      dr_document_data = doc_document_data doc, dr_also_known_as = doc_also_known_as doc,
      dr_active_key = doc_active_key doc, dr_revocations = doc_revocations doc,
      dr_revoked_verification_methods = doc_revoked_verification_methods doc,
      dr_deactivated = doc_deactivated doc, dr_created_ms = doc_created_ms doc,
      dr_updated_ms = doc_updated_ms doc, dr_delta_log = doc_delta_log doc\<rparr>"

definition rebuild_dag :: "externs \<Rightarrow> document \<Rightarrow> document" where
  "rebuild_dag E doc =
     doc\<lparr>doc_dag := fold (\<lambda>d g. case dag_insert E g d of Inl _ \<Rightarrow> g | Inr (_, g') \<Rightarrow> g')
                     (doc_delta_log doc) dag_new\<rparr>"

definition try_from :: "externs \<Rightarrow> document_repr \<Rightarrow> document result" where
  "try_from E r =
     (if dr_delta_log r = [] \<and> vm_entries E (dr_verification_methods r) \<noteq> [] then Inl Serialisation
      else Inr (rebuild_dag E
        \<lparr>doc_did = dr_did r, doc_verification_methods = dr_verification_methods r,
         doc_service_endpoints = svc_deserialize (dr_service_endpoints r),
         doc_document_data = dr_document_data r, doc_also_known_as = dr_also_known_as r,
         doc_active_key = dr_active_key r, doc_revocations = dr_revocations r,
         doc_revoked_verification_methods = dr_revoked_verification_methods r,
         doc_deactivated = dr_deactivated r, doc_created_ms = dr_created_ms r,
         doc_updated_ms = dr_updated_ms r, doc_delta_log = dr_delta_log r, doc_dag = dag_new\<rparr>))"

section \<open>Accessors\<close>

definition doc_verification_method_entries :: "externs \<Rightarrow> document \<Rightarrow> verification_method_entry list" where
  "doc_verification_method_entries E doc = vm_entries E (doc_verification_methods doc)"

definition revoked_credential_ids :: "externs \<Rightarrow> document \<Rightarrow> string list" where
  "revoked_credential_ids E doc = rev_entries E (doc_revocations doc)"

definition doc_aliases :: "document \<Rightarrow> string list" where
  "doc_aliases doc = aka_entries (doc_also_known_as doc)"

definition is_revoked :: "externs \<Rightarrow> document \<Rightarrow> string \<Rightarrow> bool" where
  "is_revoked E doc c = rev_contains E (doc_revocations doc) c"

definition is_vm_revoked :: "externs \<Rightarrow> document \<Rightarrow> string \<Rightarrow> bool" where
  "is_vm_revoked E doc k = rvm_contains E (doc_revoked_verification_methods doc) k"

definition is_deactivated :: "document \<Rightarrow> bool" where
  "is_deactivated doc = deact_is_set (doc_deactivated doc)"

definition doc_frontier :: "document \<Rightarrow> delta_hash list" where
  "doc_frontier doc = frontier_of (doc_dag doc)"

definition doc_deltas_for_peer :: "externs \<Rightarrow> document \<Rightarrow> delta_hash list \<Rightarrow> signed_delta list result" where
  "doc_deltas_for_peer E doc peer = deltas_for_peer E (doc_dag doc) peer"

definition doc_missing_parents :: "document \<Rightarrow> signed_delta \<Rightarrow> delta_hash list" where
  "doc_missing_parents doc d = (case verify_causal d (doc_dag doc) of Unknown ms \<Rightarrow> ms | _ \<Rightarrow> [])"

definition doc_content_hash :: "externs \<Rightarrow> document \<Rightarrow> bytes result" where
  "doc_content_hash E doc =
     (case state_to_vec E
             (doc_did doc, doc_verification_methods doc, doc_service_endpoints doc,
              doc_document_data doc, doc_active_key doc, doc_revocations doc,
              doc_revoked_verification_methods doc, doc_deactivated doc,
              doc_created_ms doc, doc_updated_ms doc) of
        None \<Rightarrow> Inl Serialisation
      | Some bytes \<Rightarrow> Inr (blake3 E bytes))"

definition delta_count :: "document \<Rightarrow> nat" where
  "delta_count doc = length (doc_delta_log doc)"

definition genesis_public_key_multibase :: "externs \<Rightarrow> document \<Rightarrow> string option" where
  "genesis_public_key_multibase E doc =
     map_option vme_public_key_multibase
       (find (\<lambda>e. derive_did E (vme_public_key_multibase e) = Inr (doc_did doc))
          (vm_entries E (doc_verification_methods doc)))"

section \<open>Bundles of the whole history\<close>

text \<open>The loop over the frontier heads, shared by both exports.\<close>

fun collect_heads ::
    "externs \<Rightarrow> delta_dag \<Rightarrow> delta_hash list \<Rightarrow> delta_hash fset \<times> signed_delta list \<Rightarrow> signed_delta list result" where
  "collect_heads E g [] (seen, out) = Inr out"
| "collect_heads E g (h # hs) (seen, out) =
     (case extract_closure g h [] of
        Inl e \<Rightarrow> Inl e
      | Inr b \<Rightarrow>
          (case push_new E (cb_deltas b) (seen, out) of
             Inl e \<Rightarrow> Inl e
           | Inr so \<Rightarrow> collect_heads E g hs so))"

definition export_bundle :: "externs \<Rightarrow> document \<Rightarrow> closure_bundle result" where
  "export_bundle E doc =
     (let heads = doc_frontier doc
      in if heads = [] then Inl (DeltaRejected EmptyHistory)
         else (case collect_heads E (doc_dag doc) heads ({||}, []) of
           Inl e \<Rightarrow> Inl e
         | Inr ds \<Rightarrow> Inr \<lparr>cb_target = Max (set heads), cb_deltas = ds\<rparr>))"

definition document_closure_bundle :: "externs \<Rightarrow> document \<Rightarrow> closure_bundle result" where
  "document_closure_bundle E doc =
     (let heads = sort (doc_frontier doc)
      in if heads = [] then Inl (DeltaRejected NoClosureHistory)
         else (case collect_heads E (doc_dag doc) heads ({||}, []) of
           Inl e \<Rightarrow> Inl e
         | Inr ds \<Rightarrow> Inr \<lparr>cb_target = last heads, cb_deltas = ds\<rparr>))"

section \<open>Verified replay of a bundle\<close>

text \<open>
  The replay loop over the causal order; the indexing of the map panics on an absent hash, which
  is \<open>None\<close>.
\<close>

fun replay ::
    "externs \<Rightarrow> (delta_hash, signed_delta) fmap \<Rightarrow> delta_hash list \<Rightarrow> document \<Rightarrow> (unit result \<times> document) option" where
  "replay E by_hash [] working = Some (Inr (), working)"
| "replay E by_hash (h # hs) working =
     (if dag_contains (doc_dag working) h then replay E by_hash hs working
      else case fmlookup by_hash h of
             None \<Rightarrow> None
           | Some d \<Rightarrow>
               (case verify_signature E d working of
                  Inl e \<Rightarrow> Some (Inl e, working)
                | Inr _ \<Rightarrow>
                    (case merge E working d of
                       (Inl e, working') \<Rightarrow> Some (Inl e, working')
                     | (Inr _, working') \<Rightarrow> replay E by_hash hs working')))"

definition merge_verified_bundle ::
    "externs \<Rightarrow> document \<Rightarrow> closure_bundle \<Rightarrow> (nat result \<times> document) option" where
  "merge_verified_bundle E doc b =
     (case hash_all E (cb_deltas b) of
        Inl e \<Rightarrow> Some (Inl e, doc)
      | Inr hs \<Rightarrow>
          let by_hash = collect_pairs (zip hs (cb_deltas b))
          in if fmlookup by_hash (cb_target b) = None
             then Some (Inl (DeltaRejected (MissingTarget (cb_target b))), doc)
             else
               (case find (\<lambda>p. fmlookup by_hash p = None \<and> \<not> dag_contains (doc_dag doc) p)
                       (concat (map sd_parents (cb_deltas b))) of
                  Some p \<Rightarrow> Some (Inl (DeltaRejected (DanglingParent p)), doc)
                | None \<Rightarrow>
                    (case topo_order_bundle (sorted_list_of_fmap by_hash) of
                       None \<Rightarrow> None
                     | Some (Inl e) \<Rightarrow> Some (Inl e, doc)
                     | Some (Inr order) \<Rightarrow>
                         (case replay E by_hash order doc of
                            None \<Rightarrow> None
                          | Some (Inl e, _) \<Rightarrow> Some (Inl e, doc)
                          | Some (Inr _, working) \<Rightarrow>
                              Some (Inr (delta_count working - delta_count doc), working)))))"

end
