(* ===== verification/Replica.thy ===== *)
theory Replica
  imports Document
begin

text \<open>
  What holds of every document that the operations of \<open>Document.thy\<close> produce: the effect of an
  admitted delta, the invariant of the log and the DAG, the safety of admission, authenticity of
  the verified entry points, atomic replay of bundles, and loading.
\<close>

section \<open>The effect of an admitted delta\<close>

definition apply_delta :: "externs \<Rightarrow> document \<Rightarrow> signed_delta \<Rightarrow> document" where
  "apply_delta E doc d =
     (apply_op E doc (sd_op d) (sd_timestamp d) (sd_parents d))
       \<lparr>doc_dag := dag_put E (doc_dag doc) d, doc_delta_log := doc_delta_log doc @ [d]\<rparr>"

lemma apply_op_history [doc_simps]:
  "doc_dag (apply_op E doc op ts ps) = doc_dag doc"
  "doc_delta_log (apply_op E doc op ts ps) = doc_delta_log doc"
  "doc_did (apply_op E doc op ts ps) = doc_did doc"
  "doc_created_ms (apply_op E doc op ts ps) = doc_created_ms doc"
  by (simp_all add: apply_op_def Let_def split: delta_op.split)

lemma apply_delta_history [doc_simps]:
  "doc_dag (apply_delta E doc d) = dag_put E (doc_dag doc) d"
  "doc_delta_log (apply_delta E doc d) = doc_delta_log doc @ [d]"
  "doc_did (apply_delta E doc d) = doc_did doc"
  "doc_created_ms (apply_delta E doc d) = doc_created_ms doc"
  by (simp_all add: apply_delta_def doc_simps)

text \<open>The conditions under which a delta that is not held is applied.\<close>

definition admissible :: "externs \<Rightarrow> document \<Rightarrow> signed_delta \<Rightarrow> bool" where
  "admissible E doc d \<longleftrightarrow>
     (\<exists>bytes. delta_to_vec E d = Some bytes \<and> length bytes \<le> MAX_DELTA_SIZE) \<and>
     sd_did d = doc_did doc \<and> recognise_op (sd_op d) = Inr () \<and>
     is_canonical_parents (sd_parents d) \<and> causal_gate doc d = Inr () \<and>
     import_floor E doc (pr_verification_method (sd_proof d)) = Inr ()"

lemma merge_cases:
  obtains (held) "merge E doc d = (Inr (), doc)" "dag_contains (doc_dag doc) (delta_id E d)"
  | (applied) "merge E doc d = (Inr (), apply_delta E doc d)"
      "\<not> dag_contains (doc_dag doc) (delta_id E d)" "admissible E doc d"
  | (refused) e where "merge E doc d = (Inl e, doc)"
proof (cases "fst (merge E doc d)")
  case (Inl e)
  then have "merge E doc d = (Inl e, doc)"
    by (auto simp: merge_def dag_insert_put Let_def split: option.splits if_splits sum.splits)
  then show ?thesis by (rule refused)
next
  case (Inr u)
  then obtain bytes where size: "delta_to_vec E d = Some bytes" "length bytes \<le> MAX_DELTA_SIZE"
    by (auto simp: merge_def split: option.splits if_splits)
  with Inr have gates: "sd_did d = doc_did doc" "recognise_op (sd_op d) = Inr ()"
    by (auto simp: merge_def split: if_splits sum.splits)
  show ?thesis
  proof (cases "dag_contains (doc_dag doc) (delta_id E d)")
    case True
    with size gates have "merge E doc d = (Inr (), doc)" by (simp add: merge_def)
    then show ?thesis using True by (rule held)
  next
    case False
    with Inr size gates have "is_canonical_parents (sd_parents d)" by (auto simp: merge_def split: if_splits)
    moreover from this Inr size gates False have "causal_gate doc d = Inr ()"
      by (auto simp: merge_def split: sum.splits)
    moreover from this calculation Inr size gates False
    have "import_floor E doc (pr_verification_method (sd_proof d)) = Inr ()"
      by (auto simp: merge_def split: sum.splits)
    ultimately show ?thesis
      using size gates False
      by (intro applied) (simp_all add: merge_def admissible_def dag_insert_put apply_delta_def doc_simps Let_def)
  qed
qed

lemma merge_applied:
  "\<not> dag_contains (doc_dag doc) (delta_id E d) \<Longrightarrow> admissible E doc d \<Longrightarrow>
    merge E doc d = (Inr (), apply_delta E doc d)"
  by (auto simp: merge_def admissible_def dag_insert_put apply_delta_def doc_simps Let_def)

section \<open>The invariant of the history\<close>

text \<open>
  The DAG is the one the log builds, each hash is logged once, every logged delta is for this DID,
  and no held delta refers to a delta that is not held.
\<close>

definition doc_ok :: "externs \<Rightarrow> document \<Rightarrow> bool" where
  "doc_ok E doc \<longleftrightarrow>
     doc_dag doc = fold (\<lambda>d g. dag_put E g d) (doc_delta_log doc) dag_new \<and>
     distinct (map (delta_id E) (doc_delta_log doc)) \<and>
     (\<forall>d\<in>set (doc_delta_log doc). sd_did d = doc_did doc) \<and>
     dag_complete (doc_dag doc)"

lemma doc_okD:
  assumes "doc_ok E doc"
  shows "doc_dag doc = fold (\<lambda>d g. dag_put E g d) (doc_delta_log doc) dag_new"
    "distinct (map (delta_id E) (doc_delta_log doc))"
    "\<And>d. d \<in> set (doc_delta_log doc) \<Longrightarrow> sd_did d = doc_did doc"
    "dag_complete (doc_dag doc)" "dag_ok E (doc_dag doc)"
proof -
  show dag: "doc_dag doc = fold (\<lambda>d g. dag_put E g d) (doc_delta_log doc) dag_new"
    and "distinct (map (delta_id E) (doc_delta_log doc))"
    and "\<And>d. d \<in> set (doc_delta_log doc) \<Longrightarrow> sd_did d = doc_did doc"
    and "dag_complete (doc_dag doc)"
    using assms unfolding doc_ok_def by blast+
  show "dag_ok E (doc_dag doc)" unfolding dag by (rule dag_put_all_ok [OF dag_new_ok])
qed

lemma doc_held_iff:
  assumes "doc_ok E doc"
  shows "dag_contains (doc_dag doc) h \<longleftrightarrow> h \<in> delta_id E ` set (doc_delta_log doc)"
  unfolding doc_okD(1) [OF assms] dag_contains_get dag.held_put_all by simp

lemma doc_get_iff:
  assumes "doc_ok E doc"
  shows "dag_get (doc_dag doc) h = Some d \<longleftrightarrow> d \<in> set (doc_delta_log doc) \<and> delta_id E d = h"
proof
  assume "dag_get (doc_dag doc) h = Some d"
  then show "d \<in> set (doc_delta_log doc) \<and> delta_id E d = h"
    unfolding doc_okD(1) [OF assms] by (rule dag_of_list_get)
next
  assume d: "d \<in> set (doc_delta_log doc) \<and> delta_id E d = h"
  then obtain d' where d': "dag_get (doc_dag doc) h = Some d'"
    using doc_held_iff [OF assms, of h] by (auto simp: dag_contains_get)
  then have "d' \<in> set (doc_delta_log doc)" "delta_id E d' = h"
    unfolding doc_okD(1) [OF assms] using dag_of_list_get by blast+
  with d doc_okD(2) [OF assms] have "d' = d"
    by (auto simp: distinct_map inj_on_def)
  with d' show "dag_get (doc_dag doc) h = Some d" by simp
qed

lemma doc_parents_held:
  assumes "doc_ok E doc" "x \<in> set (doc_delta_log doc)" "p \<in> set (sd_parents x)"
  shows "dag_contains (doc_dag doc) p"
proof -
  have "dag_get (doc_dag doc) (delta_id E x) = Some x"
    using assms(2) by (simp add: doc_get_iff [OF assms(1)])
  then have "(delta_id E x, p) \<in> dag_edges (dag_by_hash (doc_dag doc))"
    using assms(3) by (auto simp: dag_edges_def dag_get_def)
  with doc_okD(4) [OF assms(1)] show ?thesis
    unfolding dag_complete_iff [OF doc_okD(5) [OF assms(1)]] by blast
qed

lemma doc_frontier_set:
  assumes "doc_ok E doc"
  shows "set (doc_frontier doc) = delta_id E ` set (doc_delta_log doc) - (\<Union>d\<in>set (doc_delta_log doc). set (sd_parents d))"
proof -
  note ok = doc_okD(5) [OF assms]
  have "p |\<in>| dag_referenced (doc_dag doc) \<longleftrightarrow> (\<exists>d\<in>set (doc_delta_log doc). p \<in> set (sd_parents d))" for p
    unfolding dag_okD(2) [OF ok] doc_get_iff [OF assms] by blast
  then show ?thesis
    unfolding doc_frontier_def frontier_of_def using dag_okD(3) [OF ok] doc_held_iff [OF assms] by auto
qed

text \<open>A delta that passes the causal gate has its whole causal past in the store.\<close>

lemma causal_gate_complete:
  assumes "causal_gate doc d = Inr ()"
  shows "past_missing (doc_dag doc) (sd_parents d) = {}"
proof (cases "sd_parents d = []")
  case True
  then show ?thesis by (simp add: past_missing_def closure_of_def)
next
  case False
  with assms show ?thesis
    by (auto simp: causal_gate_def verify_causal_eq Let_def split: if_splits)
qed

lemma complete_parents_held:
  assumes "past_missing g ps = {}" "p \<in> set ps"
  shows "dag_contains g p"
  using assms by (auto simp: past_missing_def closure_of_def)

lemma dag_complete_put:
  assumes "dag_ok E g" "dag_complete g" "past_missing g (sd_parents d) = {}"
  shows "dag_complete (dag_put E g d)"
  unfolding dag_complete_iff [OF dag_put_ok [OF assms(1)]]
proof (intro allI impI)
  fix h p
  assume "(h, p) \<in> dag_edges (dag_by_hash (dag_put E g d))"
  then obtain x where x: "dag_get (dag_put E g d) h = Some x" "p \<in> set (sd_parents x)"
    by (auto simp: dag_edges_def dag_get_def)
  then have "dag_get g h = Some x \<or> x = d" by (auto simp: dag.get_put split: if_splits)
  then have "dag_contains g p"
  proof
    assume "dag_get g h = Some x"
    with x(2) have "(h, p) \<in> dag_edges (dag_by_hash g)" by (auto simp: dag_edges_def dag_get_def)
    with assms(1,2) show ?thesis by (auto simp: dag_complete_iff)
  next
    assume "x = d"
    with x(2) complete_parents_held [OF assms(3)] show ?thesis by simp
  qed
  then show "dag_contains (dag_put E g d) p" by (simp add: dag_contains_get dag.get_put)
qed

lemma apply_delta_ok:
  assumes "doc_ok E doc" "\<not> dag_contains (doc_dag doc) (delta_id E d)" "admissible E doc d"
  shows "doc_ok E (apply_delta E doc d)"
proof -
  have "dag_complete (dag_put E (doc_dag doc) d)"
    using assms(3) causal_gate_complete doc_okD(4,5) [OF assms(1)]
    by (intro dag_complete_put) (auto simp: admissible_def)
  moreover have "delta_id E d \<notin> delta_id E ` set (doc_delta_log doc)"
    using assms(2) doc_held_iff [OF assms(1)] by simp
  moreover have "sd_did d = doc_did doc" using assms(3) by (simp add: admissible_def)
  ultimately show ?thesis
    using doc_okD(2,3) [OF assms(1)]
    by (simp add: doc_ok_def doc_simps) (simp add: doc_okD(1) [OF assms(1), symmetric])
qed

lemma merge_ok: "doc_ok E doc \<Longrightarrow> doc_ok E (snd (merge E doc d))"
  by (rule merge_cases [of E doc d]) (auto intro: apply_delta_ok)

lemma merge_verified_delta_cases:
  obtains "merge_verified_delta E doc d = merge E doc d" "verify_signature E d doc = Inr ()"
  | r where "merge_verified_delta E doc d = (r, doc)"
proof (cases "dag_contains (doc_dag doc) (delta_id E d) \<or> \<not> is_resolved (verify_causal d (doc_dag doc))")
  case True
  then have "\<exists>r. merge_verified_delta E doc d = (r, doc)"
    by (cases "verify_causal d (doc_dag doc)"; cases "dag_contains (doc_dag doc) (delta_id E d)")
      (auto simp: merge_verified_delta_def)
  then show ?thesis using that(2) by blast
next
  case False
  then have "merge_verified_delta E doc d =
      (case verify_signature E d doc of Inl e \<Rightarrow> (Inl e, doc) | Inr _ \<Rightarrow> merge E doc d)"
    by (cases "verify_causal d (doc_dag doc)") (auto simp: merge_verified_delta_def)
  then show ?thesis using that by (cases "verify_signature E d doc") auto
qed

lemma doc_new_effect:
  assumes "doc_new E pk = Inr (doc, creation)"
  shows "\<exists>i. derive_did E pk = Inr i \<and> sd_parents creation = [] \<and> sd_did creation = i \<and>
     doc = apply_delta E (doc_blank i (Some (wall_ms hlc_default))) creation \<and>
     sd_op creation = AddVerificationMethod (did_to_string i @ ''#key-0'') pk suite_default default_relationships"
  using assms
  by (auto simp: doc_new_def Let_def dag_insert_put apply_delta_def unsigned_delta_def doc_simps doc_blank_def
      split: sum.splits)

lemma doc_new_ok:
  assumes "doc_new E pk = Inr (doc, creation)"
  shows "doc_ok E doc"
proof -
  obtain i where i: "sd_parents creation = []" "sd_did creation = i"
    "doc = apply_delta E (doc_blank i (Some (wall_ms hlc_default))) creation"
    using doc_new_effect [OF assms] by blast
  have "dag_complete (dag_put E dag_new creation)"
  proof (rule dag_complete_put)
    show "dag_complete dag_new" by code_simp
    show "past_missing dag_new (sd_parents creation) = {}" by (simp add: i past_missing_def closure_of_def)
  qed simp
  with i show ?thesis by (simp add: doc_ok_def doc_simps doc_blank_def)
qed

lemma merge_verified_delta_ok: "doc_ok E doc \<Longrightarrow> doc_ok E (snd (merge_verified_delta E doc d))"
  by (rule merge_verified_delta_cases [of E doc d]) (auto intro: merge_ok)

text \<open>State merge: the incoming log is appended without the deltas that are held.\<close>

lemma log_hashes_eq: "log_hashes E ds = fset_of_list (map (delta_id E) ds)"
  by (induction ds) (simp_all add: log_hashes_def List.map_filter_simps)

lemma merge_log_eq:
  "\<exists>new. merge_log E ds seen g log = (fold (\<lambda>d g. dag_put E g d) new g, log @ new) \<and>
     set new \<subseteq> set ds \<and> distinct (map (delta_id E) new) \<and>
     delta_id E ` set new = delta_id E ` set ds - fset seen"
proof (induction ds arbitrary: seen g log)
  case (Cons d ds)
  show ?case
  proof (cases "delta_id E d |\<in>| seen")
    case True
    with Cons.IH [of seen g log] show ?thesis by auto
  next
    case False
    obtain new where new: "merge_log E ds (finsert (delta_id E d) seen) (dag_put E g d) (log @ [d])
        = (fold (\<lambda>d g. dag_put E g d) new (dag_put E g d), (log @ [d]) @ new)"
      "set new \<subseteq> set ds" "distinct (map (delta_id E) new)"
      "delta_id E ` set new = delta_id E ` set ds - fset (finsert (delta_id E d) seen)"
      using Cons.IH by blast
    show ?thesis
      by (rule exI [of _ "d # new"]) (use new False in \<open>auto simp: dag_insert_put\<close>)
  qed
qed simp

lemma merge_state_ok:
  assumes "doc_ok E doc" "doc_ok E other"
  shows "doc_ok E (snd (merge_state E doc other))"
proof (cases "doc_did other = doc_did doc")
  case True
  obtain new where new: "merge_log E (doc_delta_log other) (log_hashes E (doc_delta_log doc))
        (doc_dag doc) (doc_delta_log doc)
      = (fold (\<lambda>d g. dag_put E g d) new (doc_dag doc), doc_delta_log doc @ new)"
    "set new \<subseteq> set (doc_delta_log other)" "distinct (map (delta_id E) new)"
    "delta_id E ` set new = delta_id E ` set (doc_delta_log other) - fset (log_hashes E (doc_delta_log doc))"
    using merge_log_eq [of E "doc_delta_log other" "log_hashes E (doc_delta_log doc)" "doc_dag doc" "doc_delta_log doc"]
    by (elim exE conjE) (rule that)
  let ?doc = "snd (merge_state E doc other)"
  let ?g = "fold (\<lambda>d g. dag_put E g d) new (doc_dag doc)"
  have hist: "doc_dag ?doc = ?g" "doc_delta_log ?doc = doc_delta_log doc @ new" "doc_did ?doc = doc_did doc"
    using True new(1) by (simp_all add: merge_state_def)
  have dag: "?g = fold (\<lambda>d g. dag_put E g d) (doc_delta_log doc @ new) dag_new"
    by (simp add: doc_okD(1) [OF assms(1), symmetric])
  have held: "dag_contains ?g h \<longleftrightarrow> dag_contains (doc_dag doc) h \<or> dag_contains (doc_dag other) h" for h
  proof -
    have "dag_contains ?g h \<longleftrightarrow> dag_contains (doc_dag doc) h \<or> h \<in> delta_id E ` set new"
      unfolding dag_contains_get dag.held_put_all ..
    then show ?thesis
      unfolding new(4) doc_held_iff [OF assms(1)] doc_held_iff [OF assms(2)] log_hashes_eq
      by (auto simp: fset_of_list.rep_eq)
  qed
  have ok: "dag_ok E ?g" by (rule dag_put_all_ok [OF doc_okD(5) [OF assms(1)]])
  have "dag_complete ?g"
    unfolding dag_complete_iff [OF ok]
  proof (intro allI impI)
    fix h p
    assume "(h, p) \<in> dag_edges (dag_by_hash ?g)"
    then obtain x where x: "dag_get ?g h = Some x" "p \<in> set (sd_parents x)"
      by (auto simp: dag_edges_def dag_get_def)
    then have "x \<in> set (doc_delta_log doc) \<union> set (doc_delta_log other)"
      unfolding dag using dag_of_list_get new(2) by fastforce
    then have "dag_contains (doc_dag doc) p \<or> dag_contains (doc_dag other) p"
      using doc_parents_held [OF assms(1) _ x(2)] doc_parents_held [OF assms(2) _ x(2)] by blast
    then show "dag_contains ?g p" by (simp add: held)
  qed
  moreover have "distinct (map (delta_id E) (doc_delta_log doc @ new))"
    using doc_okD(2) [OF assms(1)] new(3,4) by (auto simp: log_hashes_eq fset_of_list.rep_eq)
  moreover have "\<forall>d\<in>set (doc_delta_log doc @ new). sd_did d = doc_did doc"
    using doc_okD(3) [OF assms(1)] doc_okD(3) [OF assms(2)] new(2) True by auto
  ultimately show ?thesis
    unfolding doc_ok_def hist by (intro conjI dag)
qed (use assms in \<open>simp add: merge_state_def\<close>)

section \<open>Replay of a bundle\<close>

text \<open>
  The documents a replay goes through: each step applies a delta of the bundle that is not held,
  admissible, and whose signature verifies against the document it is applied to.
\<close>

inductive verified_chain :: "externs \<Rightarrow> signed_delta set \<Rightarrow> document \<Rightarrow> document \<Rightarrow> bool"
  for E D where
  chain_done: "verified_chain E D doc doc"
| chain_apply: "\<lbrakk>d \<in> D; \<not> dag_contains (doc_dag doc) (delta_id E d);
    verify_signature E d doc = Inr (); admissible E doc d;
    verified_chain E D (apply_delta E doc d) doc'\<rbrakk> \<Longrightarrow> verified_chain E D doc doc'"

lemma verified_chain_ok: "verified_chain E D doc doc' \<Longrightarrow> doc_ok E doc \<Longrightarrow> doc_ok E doc'"
  by (induction rule: verified_chain.induct) (auto intro: apply_delta_ok)

lemma verified_chain_log:
  "verified_chain E D doc doc' \<Longrightarrow>
     doc_did doc' = doc_did doc \<and> (\<exists>new. doc_delta_log doc' = doc_delta_log doc @ new \<and> set new \<subseteq> D)"
  by (induction rule: verified_chain.induct) (auto simp: doc_simps)

text \<open>The map that indexes a bundle.\<close>

abbreviation bundle_index :: "externs \<Rightarrow> signed_delta list \<Rightarrow> (delta_hash, signed_delta) fmap" where
  "bundle_index E ds \<equiv> collect_pairs (zip (map (delta_id E) ds) ds)"

lemma collect_pairs_lookup:
  "fmlookup (collect_pairs ps) k = map_of (rev ps) k"
proof -
  have "fmlookup (fold (\<lambda>(k, v) m. fmupd k v m) ps m) k = (case map_of (rev ps) k of None \<Rightarrow> fmlookup m k | Some v \<Rightarrow> Some v)" for m
    by (induction ps arbitrary: m) (auto simp: map_add_def split: option.splits)
  then show ?thesis by (simp add: collect_pairs_def split: option.split)
qed

lemma bundle_index_Some:
  assumes "fmlookup (bundle_index E ds) h = Some d"
  shows "d \<in> set ds \<and> delta_id E d = h"
proof -
  have "(h, d) \<in> set (zip (map (delta_id E) ds) ds)"
    using assms map_of_SomeD by (fastforce simp: collect_pairs_lookup)
  then show ?thesis by (auto simp: zip_map1 dest: set_zip_rightD) (auto simp: set_zip)
qed

lemma bundle_index_None: "fmlookup (bundle_index E ds) h = None \<longleftrightarrow> h \<notin> delta_id E ` set ds"
proof -
  have "fst ` set (zip (map (delta_id E) ds) ds) = delta_id E ` set ds"
    by (metis list.set_map map_fst_zip length_map)
  then show ?thesis by (simp add: collect_pairs_lookup map_of_eq_None_iff)
qed

lemma replay_result:
  assumes "\<And>h. h \<in> set hs \<Longrightarrow> fmlookup by_hash h \<noteq> None"
    and "\<And>h d. fmlookup by_hash h = Some d \<Longrightarrow> d \<in> D \<and> delta_id E d = h"
  shows "\<exists>r w. replay E by_hash hs doc = Some (r, w) \<and> verified_chain E D doc w \<and>
     (r = Inr () \<longrightarrow> (\<forall>h\<in>set hs. dag_contains (doc_dag w) h)) \<and>
     (\<forall>h. dag_contains (doc_dag doc) h \<longrightarrow> dag_contains (doc_dag w) h)"
  using assms(1)
proof (induction hs arbitrary: doc)
  case Nil
  then show ?case by (auto intro: chain_done)
next
  case (Cons h hs)
  then obtain d where d: "fmlookup by_hash h = Some d" "d \<in> D" "delta_id E d = h"
    using assms(2) by fastforce
  show ?case
  proof (cases "dag_contains (doc_dag doc) h")
    case True
    with Cons.IH [of doc] Cons.prems show ?thesis by fastforce
  next
    case False
    show ?thesis
    proof (cases "verify_signature E d doc")
      case (Inl e)
      with False d show ?thesis by (auto intro: chain_done)
    next
      case (Inr u)
      show ?thesis
      proof (cases rule: merge_cases [of E doc d])
        case held
        with False d show ?thesis by simp
      next
        case (refused e)
        with Inr False d show ?thesis by (auto intro: chain_done)
      next
        case applied
        obtain r w where w: "replay E by_hash hs (apply_delta E doc d) = Some (r, w)"
          "verified_chain E D (apply_delta E doc d) w"
          "r = Inr () \<longrightarrow> (\<forall>h\<in>set hs. dag_contains (doc_dag w) h)"
          "\<forall>h. dag_contains (doc_dag (apply_delta E doc d)) h \<longrightarrow> dag_contains (doc_dag w) h"
          using Cons.IH [of "apply_delta E doc d"] Cons.prems by auto
        have grown: "dag_contains (doc_dag (apply_delta E doc d)) x \<longleftrightarrow> x = h \<or> dag_contains (doc_dag doc) x" for x
          by (auto simp: doc_simps dag_contains_get dag.get_put d(3))
        have "verified_chain E D doc w"
          using chain_apply [OF d(2) applied(2) _ applied(3) w(2)] Inr by simp
        moreover have "replay E by_hash (h # hs) doc = Some (r, w)"
          using False d(1) Inr applied(1) w(1) by simp
        ultimately show ?thesis using w(3,4) grown by auto
      qed
    qed
  qed
qed

lemma merge_verified_bundle_spec:
  assumes "doc_ok E doc"
  shows "\<exists>r doc'. merge_verified_bundle E doc b = Some (r, doc') \<and>
     (case r of
        Inl e \<Rightarrow> doc' = doc
      | Inr n \<Rightarrow> verified_chain E (set (cb_deltas b)) doc doc' \<and>
          delta_id E ` set (cb_deltas b) \<subseteq> {h. dag_contains (doc_dag doc') h} \<and>
          cb_target b \<in> delta_id E ` set (cb_deltas b) \<and>
          doc_ok E doc' \<and> length (doc_delta_log doc') = length (doc_delta_log doc) + n)"
proof -
  let ?ix = "bundle_index E (cb_deltas b)"
  let ?kvs = "sorted_list_of_fmap ?ix"
  have keys: "fst ` set ?kvs = delta_id E ` set (cb_deltas b)"
  proof -
    have "h \<in> fst ` set ?kvs \<longleftrightarrow> map_of ?kvs h \<noteq> None" for h
      by (simp only: map_of_eq_None_iff not_not)
    then show ?thesis using bundle_index_None [of E "cb_deltas b"] by (auto simp del: not_None_eq)
  qed
  consider (missing) "fmlookup ?ix (cb_target b) = None"
    | (dangling) p where "fmlookup ?ix (cb_target b) \<noteq> None"
      "find (\<lambda>p. fmlookup ?ix p = None \<and> \<not> dag_contains (doc_dag doc) p) (concat (map sd_parents (cb_deltas b))) = Some p"
    | (ready) "fmlookup ?ix (cb_target b) \<noteq> None"
      "find (\<lambda>p. fmlookup ?ix p = None \<and> \<not> dag_contains (doc_dag doc) p) (concat (map sd_parents (cb_deltas b))) = None"
    by (cases "find (\<lambda>p. fmlookup ?ix p = None \<and> \<not> dag_contains (doc_dag doc) p) (concat (map sd_parents (cb_deltas b)))") auto
  then show ?thesis
  proof cases
    case ready
    show ?thesis
    proof (cases "acyclic (set (bundle_links ?kvs))")
      case False
      then have "topo_order_bundle ?kvs = Some (Inl (DeltaRejected ParentCycle))"
        using topo_order_spec [of ?kvs] by simp
      with ready show ?thesis by (simp add: merge_verified_bundle_def Let_def)
    next
      case True
      then obtain order where order: "topo_order_bundle ?kvs = Some (Inr order)" "set order = fst ` set ?kvs"
        using topo_order_spec [of ?kvs] by auto
      have "fmlookup ?ix h \<noteq> None" if "h \<in> set order" for h
        using that order(2) keys bundle_index_None [of E "cb_deltas b" h] by simp
      then obtain r w where w: "replay E ?ix order doc = Some (r, w)"
        "verified_chain E (set (cb_deltas b)) doc w"
        "r = Inr () \<longrightarrow> (\<forall>h\<in>set order. dag_contains (doc_dag w) h)"
        using replay_result [of order ?ix "set (cb_deltas b)" E doc] bundle_index_Some [of E "cb_deltas b"] by blast
      show ?thesis
      proof (cases r)
        case (Inl e)
        with ready order w(1) show ?thesis by (simp add: merge_verified_bundle_def Let_def)
      next
        case (Inr u)
        obtain new where new: "doc_delta_log w = doc_delta_log doc @ new"
          using verified_chain_log [OF w(2)] by blast
        have "merge_verified_bundle E doc b = Some (Inr (length new), w)"
          using ready order w(1) Inr new by (simp add: merge_verified_bundle_def Let_def delta_count_def)
        moreover have "cb_target b \<in> delta_id E ` set (cb_deltas b)"
          using ready(1) bundle_index_None by metis
        ultimately show ?thesis
          using w(2,3) Inr order(2) keys new verified_chain_ok [OF w(2) assms] by auto
      qed
    qed
  qed (simp_all add: merge_verified_bundle_def Let_def)
qed

text \<open>
  C8: The verified merge of a bundle is atomic and authenticated.  It never panics.  If it reports an
  error, the document is unchanged.  If it succeeds, every delta of the bundle is held, and the
  document was reached through applications of bundled deltas, each of them admissible and with a
  signature that verified against the document it was applied to; the reported count is the number
  of deltas appended to the log.
\<close>

theorem merge_verified_bundle_atomic:
  assumes "doc_ok E doc"
  shows "\<exists>r doc'. merge_verified_bundle E doc b = Some (r, doc') \<and>
     (case r of
        Inl e \<Rightarrow> doc' = doc
      | Inr n \<Rightarrow> verified_chain E (set (cb_deltas b)) doc doc' \<and>
          delta_id E ` set (cb_deltas b) \<subseteq> {h. dag_contains (doc_dag doc') h} \<and>
          cb_target b \<in> delta_id E ` set (cb_deltas b) \<and>
          doc_ok E doc' \<and> length (doc_delta_log doc') = length (doc_delta_log doc) + n)"
  using merge_verified_bundle_spec [OF assms] .

section \<open>Loading\<close>

lemma load_repr:
  assumes "doc_ok E doc" "doc_delta_log doc \<noteq> []"
  shows "try_from E (to_repr doc) = Inr doc"
proof -
  have "svc_deserialize (svc_serialize s) = s" for s
    by (rule svc_eqI) (simp_all add: svc_deserialize_def svc_serialize_def)
  moreover have "fold (\<lambda>d g. case dag_insert E g d of Inl _ \<Rightarrow> g | Inr (_, g') \<Rightarrow> g') ds g
      = fold (\<lambda>d g. dag_put E g d) ds g" for ds g
    by (simp add: dag_insert_put)
  ultimately show ?thesis
    using assms(2) by (simp add: try_from_def to_repr_def rebuild_dag_def doc_okD(1) [OF assms(1), symmetric])
qed

text \<open>
  Saving and loading is lossless.  Loading the serialised form of a document with a history
  restores it exactly, the DAG and with it the frontier included, although the DAG is not
  serialised.
\<close>

theorem load_saved:
  assumes "doc_ok E doc" "doc_delta_log doc \<noteq> []"
  shows "try_from E (to_repr doc) = Inr doc"
  using load_repr [OF assms] .

section \<open>Reachable documents\<close>

text \<open>Every way the core has to obtain and to change a document.\<close>

inductive doc_reach :: "externs \<Rightarrow> document \<Rightarrow> bool" for E where
  reach_new: "doc_new E pk = Inr (doc, creation) \<Longrightarrow> doc_reach E doc"
| reach_merge: "doc_reach E doc \<Longrightarrow> merge E doc d = (r, doc') \<Longrightarrow> doc_reach E doc'"
| reach_merge_verified: "doc_reach E doc \<Longrightarrow> merge_verified_delta E doc d = (r, doc') \<Longrightarrow> doc_reach E doc'"
| reach_bundle: "doc_reach E doc \<Longrightarrow> merge_verified_bundle E doc b = Some (r', doc') \<Longrightarrow> doc_reach E doc'"
| reach_state: "doc_reach E doc \<Longrightarrow> doc_reach E other \<Longrightarrow> merge_state E doc other = (r, doc') \<Longrightarrow> doc_reach E doc'"
| reach_load: "doc_reach E doc \<Longrightarrow> try_from E (to_repr doc) = Inr doc' \<Longrightarrow> doc_reach E doc'"

lemma vm_entries_set:
  assumes "crdts_laws E"
  shows "set (vm_entries E s) = fset s" "vm_entries E s = [] \<longleftrightarrow> s = {||}"
proof -
  show set: "set (vm_entries E s) = fset s"
    using assms by (simp add: vm_entries_def crdts_simps)
  then show "vm_entries E s = [] \<longleftrightarrow> s = {||}"
    by (metis bot_fset.rep_eq fset_inject set_empty)
qed

lemma apply_op_vms:
  assumes "crdts_laws E"
  shows "doc_verification_methods doc |\<subseteq>| doc_verification_methods (apply_op E doc op ts ps)"
  using assms by (auto simp: apply_op_def Let_def vm_insert_def crdts_simps split: delta_op.split)

lemma apply_delta_vms:
  assumes "crdts_laws E"
  shows "doc_verification_methods doc |\<subseteq>| doc_verification_methods (apply_delta E doc d)"
  using apply_op_vms [OF assms] by (simp add: apply_delta_def)

lemma merge_vms:
  "crdts_laws E \<Longrightarrow> doc_verification_methods doc |\<subseteq>| doc_verification_methods (snd (merge E doc d))"
  by (rule merge_cases [of E doc d]) (auto dest: apply_delta_vms)

lemma verified_chain_vms:
  "verified_chain E D doc doc' \<Longrightarrow> crdts_laws E \<Longrightarrow>
    doc_verification_methods doc |\<subseteq>| doc_verification_methods doc'"
  by (induction rule: verified_chain.induct) (auto dest: apply_delta_vms)

lemma try_from_repr:
  assumes "doc_ok E doc" "try_from E (to_repr doc) = Inr doc'"
  shows "doc' = doc"
proof (cases "doc_delta_log doc = []")
  case False
  with load_repr [OF assms(1)] assms(2) show ?thesis by simp
next
  case True
  have "svc_deserialize (svc_serialize s) = s" for s
    by (rule svc_eqI) (simp_all add: svc_deserialize_def svc_serialize_def)
  with assms True doc_okD(1) [OF assms(1)] show ?thesis
    by (auto simp: try_from_def to_repr_def rebuild_dag_def split: if_splits)
qed

lemma doc_reach_inv:
  assumes "doc_reach E doc" "crdts_laws E"
  shows "doc_ok E doc \<and> doc_verification_methods doc \<noteq> {||} \<and> doc_delta_log doc \<noteq> []"
  using assms(1)
proof (induction rule: doc_reach.induct)
  case (reach_new pk doc creation)
  from doc_new_effect [OF this] obtain i where
    "doc = apply_delta E (doc_blank i (Some (wall_ms hlc_default))) creation"
    "sd_op creation = AddVerificationMethod (did_to_string i @ ''#key-0'') pk suite_default default_relationships"
    by blast
  then show ?case
    using doc_new_ok [OF reach_new] assms(2)
    by (auto simp: apply_delta_def apply_op_def vm_insert_def crdts_simps)
next
  case (reach_merge doc d r doc')
  then show ?case
    using merge_ok [of E doc d] merge_vms [OF assms(2), of doc d]
    by (cases rule: merge_cases [of E doc d]) (auto simp: doc_simps)
next
  case (reach_merge_verified doc d r doc')
  then show ?case
    using merge_ok [of E doc d] merge_vms [OF assms(2), of doc d]
    by (cases rule: merge_verified_delta_cases [of E doc d]; cases rule: merge_cases [of E doc d])
      (auto simp: doc_simps)
next
  case (reach_bundle doc b r doc')
  from merge_verified_bundle_spec [of E doc b] reach_bundle
  consider "doc' = doc" | "verified_chain E (set (cb_deltas b)) doc doc'" "doc_ok E doc'"
    by (auto split: sum.splits)
  then show ?case
  proof cases
    case 2
    with verified_chain_vms [OF 2(1) assms(2)] verified_chain_log [OF 2(1)] reach_bundle show ?thesis by auto
  qed (use reach_bundle in simp)
next
  case (reach_state doc other r doc')
  then show ?case
    using merge_state_ok [of E doc other] assms(2) merge_log_eq
    by (auto simp: merge_state_def vm_merge_def crdts_simps split: prod.splits if_splits)
      (metis Pair_inject append_is_Nil_conv)
next
  case (reach_load doc doc')
  with try_from_repr show ?case by blast
qed

section \<open>Properties of reachable documents\<close>

lemma canonical_parents_iff: "is_canonical_parents ps \<longleftrightarrow> sorted_wrt (<) ps"
  by (induction ps rule: is_canonical_parents.induct) (auto intro: less_trans)

lemma reach_dag_nonempty:
  assumes "doc_reach E doc" "crdts_laws E"
  shows "\<not> dag_is_empty (doc_dag doc)"
proof -
  obtain d where "d \<in> set (doc_delta_log doc)" "doc_ok E doc"
    using doc_reach_inv [OF assms] by (cases "doc_delta_log doc") auto
  then have "dag_contains (doc_dag doc) (delta_id E d)"
    using doc_held_iff by blast
  then show ?thesis by (auto simp: dag_is_empty_def dag_contains_def dest: fmdomI)
qed

text \<open>
  C22: In every reachable document the history is sound: each delta is logged once, the DAG holds exactly
  the logged deltas, every parent of a logged delta is logged too (no gap), and the frontier is the
  set of logged hashes that no logged delta names as a parent.
\<close>

theorem reachable_history:
  assumes "doc_reach E doc" "crdts_laws E"
  shows "distinct (map (delta_id E) (doc_delta_log doc)) \<and>
    {h. dag_contains (doc_dag doc) h} = delta_id E ` set (doc_delta_log doc) \<and>
    (\<Union>d\<in>set (doc_delta_log doc). set (sd_parents d)) \<subseteq> delta_id E ` set (doc_delta_log doc) \<and>
    set (doc_frontier doc) = delta_id E ` set (doc_delta_log doc) - (\<Union>d\<in>set (doc_delta_log doc). set (sd_parents d))"
proof -
  have ok: "doc_ok E doc" using doc_reach_inv [OF assms] by blast
  note held = doc_held_iff [OF ok]
  have "(\<Union>d\<in>set (doc_delta_log doc). set (sd_parents d)) \<subseteq> delta_id E ` set (doc_delta_log doc)"
    using doc_parents_held [OF ok] held by blast
  then show ?thesis using doc_frontier_set [OF ok] doc_okD(2) [OF ok] held by blast
qed

text \<open>
  C9: Admission is safe.  When a merge changes a reachable document, the delta is for this DID, is at most
  64 KiB, its parents are strictly ascending and its whole causal past is held; neither a
  revocation of its signing key nor a deactivation is in that past; and the past introduces the
  signing key, unless no held delta introduces it and it is a known key of the document (imported
  by a state merge).
\<close>

theorem admission_safe:
  assumes "doc_reach E doc" "crdts_laws E" "merge E doc d = (r, doc')" "doc' \<noteq> doc"
  shows "let g = doc_dag doc; k = pr_verification_method (sd_proof d); ps = sd_parents d
    in r = Inr () \<and> doc' = apply_delta E doc d \<and> sd_did d = doc_did doc \<and>
       (\<exists>bytes. delta_to_vec E d = Some bytes \<and> length bytes \<le> 65536) \<and>
       sorted_wrt (<) ps \<and> ps \<noteq> [] \<and> closure_complete g ps \<and>
       \<not> past_has g ps (revokes_key k) \<and> \<not> past_has g ps (\<lambda>op. op = Deactivate) \<and>
       (past_has g ps (adds_key k) \<or>
        (\<not> has_authorising_delta g k \<and> vm_contains_id E (doc_verification_methods doc) k))"
proof -
  have m: "r = Inr ()" "doc' = apply_delta E doc d" and adm: "admissible E doc d"
    using assms(3,4) by (cases rule: merge_cases [of E doc d]; simp)+
  let ?g = "doc_dag doc" and ?k = "pr_verification_method (sd_proof d)" and ?ps = "sd_parents d"
  have gate: "causal_gate doc d = Inr ()" and floor: "import_floor E doc ?k = Inr ()"
    using adm by (simp_all add: admissible_def)
  have root: "?ps \<noteq> []"
    using gate reach_dag_nonempty [OF assms(1,2)]
    by (auto simp: causal_gate_def verify_causal_eq Let_def split: if_splits)
  have full: "closure_complete ?g ?ps"
    using causal_gate_complete [OF gate] by (auto simp: closure_complete_iff past_missing_def)
  have past: "\<not> past_has ?g ?ps (revokes_key ?k)" "\<not> past_has ?g ?ps (\<lambda>op. op = Deactivate)"
    "past_has ?g ?ps (adds_key ?k) \<or> \<not> has_authorising_delta ?g ?k"
    using gate root by (auto simp: causal_gate_def verify_causal_eq Let_def split: if_splits)
  have "doc_verification_methods doc \<noteq> {||}" using doc_reach_inv [OF assms(1,2)] by blast
  then have "\<not> has_authorising_delta ?g ?k \<longrightarrow> vm_contains_id E (doc_verification_methods doc) ?k"
    using floor by (auto simp: import_floor_def vm_entries_set(2) [OF assms(2)] split: if_splits)
  with m adm root full past show ?thesis
    unfolding Let_def canonical_parents_iff [symmetric]
    by (auto simp: admissible_def MAX_DELTA_SIZE_def)
qed

text \<open>
  C10: No unsigned or forged delta changes a document through the verified entry point.  If the verified
  merge of a delta changes a reachable document, some key entry of that document has the id the
  proof claims, the timestamp's node id is derived from its public key, and the signature bytes
  verify over the delta's signing input under that key; otherwise the document is left as it was.
\<close>

theorem verified_merge_authentic:
  assumes "doc_reach E doc" "crdts_laws E" "merge_verified_delta E doc d = (r, doc')" "doc' \<noteq> doc"
  shows "r = Inr () \<and> doc' = apply_delta E doc d \<and>
    (\<exists>entry key sig input. entry |\<in>| doc_verification_methods doc \<and>
       vme_id entry = pr_verification_method (sd_proof d) \<and>
       decode_multibase_u E (vme_public_key_multibase entry) = Inr key \<and>
       decode_multibase_u E (pr_proof_value (sd_proof d)) = Inr sig \<and>
       signing_input E d = Inr input \<and> node_id (sd_timestamp d) = node_id_from_pubkey E key \<and>
       (case pr_suite (sd_proof d) of
          Ed25519Signature2020 \<Rightarrow> length key = 32 \<and> length sig = 64 \<and> ed25519_verify E key input sig
        | EcdsaSecp256k1Signature2019 \<Rightarrow> secp256k1_verify E key input sig))"
proof -
  have v: "merge E doc d = (r, doc')" "verify_signature E d doc = Inr ()"
    using assms(3,4) by (cases rule: merge_verified_delta_cases [of E doc d]; simp)+
  have m: "r = Inr ()" "doc' = apply_delta E doc d"
    using v(1) assms(4) by (cases rule: merge_cases [of E doc d]; simp)+
  have "vm_entries E (doc_verification_methods doc) \<noteq> []"
    using doc_reach_inv [OF assms(1,2)] by (simp add: vm_entries_set(2) [OF assms(2)])
  from verify_signature_key [OF v(2) this] m show ?thesis
    unfolding vm_entries_set(1) [OF assms(2)] by blast
qed

text \<open>
  A merge is all or nothing, and duplicate delivery is a no-op: an error leaves the document as it
  was, a success applies exactly the delta (or nothing, if it is held), and merging the same delta
  again succeeds without changing anything.
\<close>

theorem merge_idempotent:
  "case merge E doc d of
     (Inl e, doc') \<Rightarrow> doc' = doc
   | (Inr u, doc') \<Rightarrow> (doc' = doc \<or> doc' = apply_delta E doc d) \<and>
       dag_contains (doc_dag doc') (delta_id E d) \<and> merge E doc' d = (Inr (), doc')"
proof (cases rule: merge_cases [of E doc d])
  case applied
  let ?doc = "apply_delta E doc d"
  have held: "dag_contains (doc_dag ?doc) (delta_id E d)"
    by (simp add: doc_simps dag_contains_get dag.get_put)
  have "merge E ?doc d = (Inr (), ?doc)"
    using applied(3) held by (auto simp: merge_def admissible_def doc_simps)
  with applied held show ?thesis by simp
qed auto

section \<open>Examples\<close>

text \<open>A new document and one signed update of it, to evaluate the operations on.\<close>

definition ex_did :: did where
  "ex_did = Did ''did:crdt:b''"

definition ex_creation :: signed_delta where
  "ex_creation = unsigned_delta ex_did
     (AddVerificationMethod ''did:crdt:b#key-0'' ''ubbb'' suite_default default_relationships) hlc_default ''ubbb''"

definition ex_doc :: document where
  "ex_doc = apply_delta ex_externs (doc_blank ex_did (Some (wall_ms hlc_default))) ex_creation"

definition ex_update :: signed_delta where
  "ex_update =
     \<lparr>sd_did = ex_did, sd_timestamp = HlcTimestamp 5 0 0x626262, sd_op = RevokeCredential ''c'',
      sd_parents = [DeltaHash [char_of (0::nat)]],
      sd_proof = \<lparr>pr_suite = EcdsaSecp256k1Signature2019, pr_verification_method = ''did:crdt:b#key-0'',
        pr_created = '''', pr_proof_value = ''ubbb''\<rparr>\<rparr>"

lemma ex_externs_simps [simp]:
  "seed_to_vec ex_externs (t, op, k) = Some (str_bytes k)"
  "delta_to_vec ex_externs d = Some (str_bytes (pr_proof_value (sd_proof d)))"
  "blake3 ex_externs b = b" "to_hex ex_externs b = [char_of (unat (rev b ! 2))]"
  by (simp_all add: ex_externs_def ref_externs_def)

lemma ex_derive: "derive_did ex_externs ''ubbb'' = Inr ex_did"
proof -
  have "char_of (98::nat) = CHR ''b''" by code_simp
  then show ?thesis
    by (simp add: derive_did_def from_creation_hash_def did_prefix_def str_bytes_def unat_of_nat ex_did_def)
qed

lemma ex_new: "doc_new ex_externs ''ubbb'' = Inr (ex_doc, ex_creation)"
proof -
  have "did_to_string ex_did @ ''#key-0'' = ''did:crdt:b#key-0''"
    by (simp add: did_to_string_def ex_did_def)
  then have "unsigned_delta ex_did (AddVerificationMethod (did_to_string ex_did @ ''#key-0'') ''ubbb''
      suite_default default_relationships) hlc_default ''ubbb'' = ex_creation"
    by (simp only: ex_creation_def)
  then show ?thesis
    by (simp add: doc_new_def ex_derive Let_def dag_insert_put ex_doc_def apply_delta_def doc_simps)
      (simp add: ex_creation_def unsigned_delta_def did_to_string_def ex_did_def doc_blank_def)
qed

lemma ex_reach: "doc_reach ex_externs ex_doc"
  by (rule reach_new [OF ex_new])

lemma ex_creation_simps [simp]:
  "sd_op ex_creation = AddVerificationMethod ''did:crdt:b#key-0'' ''ubbb'' suite_default default_relationships"
  "sd_parents ex_creation = []" "sd_timestamp ex_creation = hlc_default" "sd_did ex_creation = ex_did"
  by (simp_all add: ex_creation_def unsigned_delta_def)

lemma ex_doc_dag: "doc_dag ex_doc =
    \<lparr>dag_by_hash = fmupd (DeltaHash [char_of (0::nat)]) ex_creation fmempty,
     dag_referenced = {||}, dag_frontier = {|DeltaHash [char_of (0::nat)]|}\<rparr>"
  by (simp add: ex_doc_def doc_simps doc_blank_def dag_put_def dag_insert_def dag_contains_def dag_new_def
      hlc_default_def)

lemma ex_causal: "verify_causal ex_update (doc_dag ex_doc) = Valid"
  by (simp add: ex_doc_dag verify_causal_def scan_closure_def ex_update_def push_parents_def note_op_def)

lemma ex_fresh: "\<not> dag_contains (doc_dag ex_doc) (delta_id ex_externs ex_update)"
  by (simp add: ex_doc_dag dag_contains_def ex_update_def)

lemma ex_doc_vms: "doc_verification_methods ex_doc =
    {|VerificationMethodEntry ''did:crdt:b#key-0'' ''ubbb'' suite_default default_relationships|}"
  by (simp add: ex_doc_def apply_delta_def apply_op_def vm_insert_def crdts_simps [OF ex_crdts_laws]
      doc_blank_def vm_new_def)

lemma ex_verify: "verify_signature ex_externs ex_update ex_doc = Inr ()"
  by (simp add: verify_signature_def ex_update_def signing_input_Inr ex_doc_vms vm_entries_def
      crdts_simps [OF ex_crdts_laws] sorted_list_of_fset.rep_eq node_id_from_pubkey_def str_bytes_def
      word_rcat_def ex_suite)

lemma ex_admissible: "admissible ex_externs ex_doc ex_update"
proof -
  have "doc_deactivated ex_doc = False" "doc_revoked_verification_methods ex_doc = {||}" "doc_did ex_doc = ex_did"
    by (simp_all add: ex_doc_def apply_delta_def apply_op_def doc_blank_def deact_new_def rvm_new_def)
  moreover have "vm_contains_id ex_externs (doc_verification_methods ex_doc) ''did:crdt:b#key-0''"
    by (simp add: vm_contains_id_def list_ex_iff vm_entries_def crdts_simps [OF ex_crdts_laws] ex_doc_vms)
  ultimately show ?thesis
    unfolding admissible_def causal_gate_def ex_causal
    by (simp add: import_floor_def deact_is_set_def rvm_contains_def crdts_simps [OF ex_crdts_laws]
        ex_update_def str_bytes_def MAX_DELTA_SIZE_def recognise_op_def)
qed

lemma ex_merge: "merge ex_externs ex_doc ex_update = (Inr (), apply_delta ex_externs ex_doc ex_update)"
  by (rule merge_applied [OF ex_fresh ex_admissible])

lemma ex_merge_verified:
  "merge_verified_delta ex_externs ex_doc ex_update = (Inr (), apply_delta ex_externs ex_doc ex_update)"
  using ex_fresh by (simp add: merge_verified_delta_def ex_causal ex_verify ex_merge)

lemma ex_changed: "apply_delta ex_externs ex_doc ex_update \<noteq> ex_doc"
proof
  assume "apply_delta ex_externs ex_doc ex_update = ex_doc"
  then have "length (doc_delta_log ex_doc @ [ex_update]) = length (doc_delta_log ex_doc)"
    by (metis apply_delta_history(2))
  then show False by simp
qed

theorem reachable_history_witness:
  "doc_reach ex_externs (apply_delta ex_externs ex_doc ex_update) \<and>
   distinct (map (delta_id ex_externs) (doc_delta_log (apply_delta ex_externs ex_doc ex_update)))"
proof -
  have "doc_reach ex_externs (apply_delta ex_externs ex_doc ex_update)"
    by (rule reach_merge [OF ex_reach ex_merge])
  with reachable_history [OF this ex_crdts_laws] show ?thesis by blast
qed

theorem admission_safe_witness:
  "closure_complete (doc_dag ex_doc) (sd_parents ex_update) \<and>
   \<not> past_has (doc_dag ex_doc) (sd_parents ex_update) (revokes_key ''did:crdt:b#key-0'')"
  using admission_safe [OF ex_reach ex_crdts_laws ex_merge ex_changed]
  by (simp add: Let_def ex_update_def)

theorem verified_merge_authentic_witness:
  "\<exists>entry. entry |\<in>| doc_verification_methods ex_doc \<and> vme_id entry = ''did:crdt:b#key-0''"
  using verified_merge_authentic [OF ex_reach ex_crdts_laws ex_merge_verified ex_changed]
  by (auto simp: ex_update_def)

theorem load_saved_witness: "try_from ex_externs (to_repr ex_doc) = Inr ex_doc"
proof (rule load_saved)
  show "doc_ok ex_externs ex_doc" by (rule doc_new_ok [OF ex_new])
  show "doc_delta_log ex_doc \<noteq> []" by (simp add: ex_doc_def doc_simps)
qed

definition ex_bundle :: closure_bundle where
  "ex_bundle = \<lparr>cb_target = DeltaHash [char_of (5::nat)], cb_deltas = [ex_update]\<rparr>"

lemma ex_topo: "topo_order_bundle [(DeltaHash [char_of (5::nat)], ex_update)] = Some (Inr [DeltaHash [char_of (5::nat)]])"
  by (simp add: topo_order_bundle_def build_links_def ex_update_def)

lemma ex_bundle_merge:
  "merge_verified_bundle ex_externs ex_doc ex_bundle = Some (Inr 1, apply_delta ex_externs ex_doc ex_update)"
proof -
  let ?h = "DeltaHash [char_of (5::nat)]"
  have id: "delta_id ex_externs ex_update = ?h" by (simp add: ex_update_def)
  have ix: "collect_pairs [(?h, ex_update)] = fmupd ?h ex_update fmempty" by (simp add: collect_pairs_def)
  have kvs: "sorted_list_of_fmap (fmupd ?h ex_update fmempty) = [(?h, ex_update)]"
    by (simp add: sorted_list_of_fmap_def sorted_list_of_fset.rep_eq)
  have par: "sd_parents ex_update = [DeltaHash [char_of (0::nat)]]"
    "dag_contains (doc_dag ex_doc) (DeltaHash [char_of (0::nat)])"
    by (simp_all add: ex_update_def ex_doc_dag dag_contains_def)
  have fresh: "\<not> dag_contains (doc_dag ex_doc) ?h" using ex_fresh unfolding id .
  have "hash_all ex_externs [ex_update] = Inr [?h]" by (simp only: hash_all_Inr list.map id)
  then show ?thesis
    using fresh par
    by (simp add: merge_verified_bundle_def ex_bundle_def ix kvs ex_topo ex_verify ex_merge delta_count_def
        doc_simps del: hash_all.simps hash_all_Inr)
qed

theorem merge_verified_bundle_atomic_witness:
  "verified_chain ex_externs {ex_update} ex_doc (apply_delta ex_externs ex_doc ex_update) \<and>
   merge_verified_bundle ex_externs ex_doc ex_bundle = Some (Inr 1, apply_delta ex_externs ex_doc ex_update)"
  using merge_verified_bundle_atomic [OF doc_new_ok [OF ex_new], of ex_bundle]
  unfolding ex_bundle_merge by (simp add: ex_bundle_def)

end
