(* ===== verification/Convergence.thy ===== *)
theory Convergence
  imports Replica
begin

text \<open>
  Strong eventual consistency of delta replication: the replicated fields of a document are a
  function of the set of payloads it has applied.  The abstract specification of each field reads
  that set; the refinement lemmas show that the operations, applied in any admissible order,
  implement it.
\<close>

section \<open>Documents built by deltas\<close>

inductive op_reach :: "externs \<Rightarrow> document \<Rightarrow> bool" for E where
  op_new: "doc_new E pk = Inr (doc, creation) \<Longrightarrow> op_reach E doc"
| op_step: "\<lbrakk>op_reach E doc; \<not> dag_contains (doc_dag doc) (delta_id E d); admissible E doc d\<rbrakk>
    \<Longrightarrow> op_reach E (apply_delta E doc d)"

inductive_cases op_reachE: "op_reach E doc"

lemma op_reach_merge: "op_reach E doc \<Longrightarrow> op_reach E (snd (merge E doc d))"
  by (rule merge_cases [of E doc d]) (auto intro: op_step)

lemma op_reach_merge_verified: "op_reach E doc \<Longrightarrow> op_reach E (snd (merge_verified_delta E doc d))"
  by (rule merge_verified_delta_cases [of E doc d]) (auto intro: op_reach_merge)

lemma op_reach_chain: "verified_chain E D doc doc' \<Longrightarrow> op_reach E doc \<Longrightarrow> op_reach E doc'"
  by (induction rule: verified_chain.induct) (auto intro: op_step)

lemma op_reach_ok: "op_reach E doc \<Longrightarrow> doc_ok E doc"
  by (induction rule: op_reach.induct) (auto intro: doc_new_ok apply_delta_ok)

text \<open>The document is the fold of its log over the blank document.\<close>

abbreviation genesis_blank :: "did \<Rightarrow> document" where
  "genesis_blank i \<equiv> doc_blank i (Some (wall_ms hlc_default))"

lemma op_reach_fold:
  assumes "op_reach E doc"
  shows "doc = fold (\<lambda>d doc. apply_delta E doc d) (doc_delta_log doc) (genesis_blank (doc_did doc)) \<and>
     doc_delta_log doc \<noteq> []"
  using assms
proof (induction rule: op_reach.induct)
  case (op_new pk doc creation)
  from doc_new_effect [OF this] obtain i where
    "doc = apply_delta E (genesis_blank i) creation" by blast
  then show ?case by (simp add: doc_simps) (simp add: doc_blank_def)
next
  case (op_step doc d)
  then show ?case by (simp add: doc_simps)
qed

text \<open>A field that every delta changes by a function of its payload.\<close>

lemma field_fold:
  assumes "\<And>doc d. F (apply_delta E doc d) = f (payload d) (F doc)" "op_reach E doc"
  shows "F doc = fold f (map payload (doc_delta_log doc)) (F (genesis_blank (doc_did doc)))"
proof -
  have "F (fold (\<lambda>d doc. apply_delta E doc d) ds doc0) = fold f (map payload ds) (F doc0)" for ds doc0
    by (induction ds arbitrary: doc0) (simp_all add: assms(1))
  then show ?thesis using op_reach_fold [OF assms(2)] by metis
qed

section \<open>The grow-only fields\<close>

type_synonym delta_payload = "did \<times> hlc_timestamp \<times> delta_op \<times> delta_hash list"

abbreviation pl_time :: "delta_payload \<Rightarrow> hlc_timestamp" where
  "pl_time x \<equiv> fst (snd x)"

abbreviation pl_op :: "delta_payload \<Rightarrow> delta_op" where
  "pl_op x \<equiv> fst (snd (snd x))"

abbreviation pl_parents :: "delta_payload \<Rightarrow> delta_hash list" where
  "pl_parents x \<equiv> snd (snd (snd x))"

lemma payload_sel [simp]:
  "pl_time (payload d) = sd_timestamp d" "pl_op (payload d) = sd_op d" "pl_parents (payload d) = sd_parents d"
  by (simp_all add: payload_def)

definition op_vms :: "delta_op \<Rightarrow> verification_method_entry fset" where
  "op_vms op = (case op of AddVerificationMethod i pk s rs \<Rightarrow> {|VerificationMethodEntry i pk s rs|} | _ \<Rightarrow> {||})"

definition op_revs :: "delta_op \<Rightarrow> string fset" where
  "op_revs op = (case op of RevokeCredential c \<Rightarrow> {|c|} | _ \<Rightarrow> {||})"

definition op_rvms :: "delta_op \<Rightarrow> string fset" where
  "op_rvms op = (case op of RevokeVerificationMethod k \<Rightarrow> {|k|} | _ \<Rightarrow> {||})"

lemma apply_delta_gsets:
  assumes "crdts_laws E"
  shows "doc_verification_methods (apply_delta E doc d) = doc_verification_methods doc |\<union>| op_vms (sd_op d)"
    "doc_revocations (apply_delta E doc d) = doc_revocations doc |\<union>| op_revs (sd_op d)"
    "doc_revoked_verification_methods (apply_delta E doc d)
       = doc_revoked_verification_methods doc |\<union>| op_rvms (sd_op d)"
    "doc_deactivated (apply_delta E doc d) \<longleftrightarrow> doc_deactivated doc \<or> sd_op d = Deactivate"
    "doc_updated_ms (apply_delta E doc d) = merge_updated (doc_updated_ms doc) (Some (wall_ms (sd_timestamp d)))"
proof -
  have touch: "touch u w = merge_updated u (Some w)" for u w
    by (cases u) (auto simp: touch_def max_def)
  show "doc_verification_methods (apply_delta E doc d) = doc_verification_methods doc |\<union>| op_vms (sd_op d)"
    "doc_revocations (apply_delta E doc d) = doc_revocations doc |\<union>| op_revs (sd_op d)"
    "doc_revoked_verification_methods (apply_delta E doc d)
       = doc_revoked_verification_methods doc |\<union>| op_rvms (sd_op d)"
    "doc_deactivated (apply_delta E doc d) \<longleftrightarrow> doc_deactivated doc \<or> sd_op d = Deactivate"
    "doc_updated_ms (apply_delta E doc d) = merge_updated (doc_updated_ms doc) (Some (wall_ms (sd_timestamp d)))"
    by (cases "sd_op d"; simp add: apply_delta_def apply_op_def Let_def op_vms_def op_revs_def op_rvms_def
        vm_insert_def rev_insert_def rvm_insert_def deact_set_def crdts_simps [OF assms] touch)+
qed

lemma fold_funion: "fold (\<lambda>x s. s |\<union>| f x) xs s = s |\<union>| ffUnion (f |`| fset_of_list xs)"
  by (induction xs arbitrary: s) (auto simp: funion_assoc)

interpretation upd: join_semilattice "\<lambda>_. True" merge_updated
proof unfold_locales
  fix x y z :: "u64 option"
  show "merge_updated (merge_updated x y) z = merge_updated x (merge_updated y z)"
    by (cases x; cases y; cases z) (simp_all add: max.assoc)
  show "merge_updated x y = merge_updated y x" by (cases x; cases y) (simp_all add: max.commute)
  show "merge_updated x x = x" by (cases x) simp_all
qed auto

section \<open>The registers\<close>

text \<open>The registers that a payload writes.\<close>

definition op_aka :: "delta_payload \<Rightarrow> uris_reg list" where
  "op_aka x = (case pl_op x of
     SetAlsoKnownAs uris \<Rightarrow> [\<lparr>lww_val = sort_dedup uris, lww_marker = pl_time x\<rparr>] | _ \<Rightarrow> [])"

definition op_ak :: "externs \<Rightarrow> delta_payload \<Rightarrow> key_reg list" where
  "op_ak E x = (case pl_op x of
     RotateKey s k \<Rightarrow> [\<lparr>lww_val = Some k, lww_marker = marker_new E s k\<rparr>] | _ \<Rightarrow> [])"

definition op_data :: "delta_payload \<Rightarrow> document_data list" where
  "op_data x = (case pl_op x of
     SetDocumentData k v \<Rightarrow> [fmupd k \<lparr>lww_val = v, lww_marker = pl_time x\<rparr> fmempty] | _ \<Rightarrow> [])"

lemma op_aka_mem: "r \<in> set (op_aka x) \<longleftrightarrow>
    (\<exists>uris. pl_op x = SetAlsoKnownAs uris \<and> r = \<lparr>lww_val = sort_dedup uris, lww_marker = pl_time x\<rparr>)"
  by (cases "pl_op x") (simp_all add: op_aka_def)

lemma op_ak_mem: "r \<in> set (op_ak E x) \<longleftrightarrow>
    (\<exists>s k. pl_op x = RotateKey s k \<and> r = \<lparr>lww_val = Some k, lww_marker = marker_new E s k\<rparr>)"
  by (cases "pl_op x") (simp_all add: op_ak_def)

lemma op_data_mem: "m \<in> set (op_data x) \<longleftrightarrow>
    (\<exists>k v. pl_op x = SetDocumentData k v \<and> m = fmupd k \<lparr>lww_val = v, lww_marker = pl_time x\<rparr> fmempty)"
  by (cases "pl_op x") (simp_all add: op_data_def)

lemma set_concat_map: "r \<in> set (concat (map f (map g xs))) \<longleftrightarrow> (\<exists>x\<in>g ` set xs. r \<in> set (f x))"
  by auto

lemma data_set_single:
  "data_set E m k v t = data_merge E m (fmupd k \<lparr>lww_val = v, lww_marker = t\<rparr> fmempty)"
  by (simp add: data_merge_def sorted_list_of_fmap_def sorted_list_of_fset.rep_eq)

lemma apply_delta_regs:
  assumes "crdts_laws E"
  shows "doc_also_known_as (apply_delta E doc d) = fold (\<lambda>r a. lww_join a r) (op_aka (payload d)) (doc_also_known_as doc)"
    "doc_active_key (apply_delta E doc d) = fold (\<lambda>r a. lww_join a r) (op_ak E (payload d)) (doc_active_key doc)"
    "doc_document_data (apply_delta E doc d) = fold (\<lambda>r a. data_merge E a r) (op_data (payload d)) (doc_document_data doc)"
  by (cases "sd_op d"; simp add: apply_delta_def apply_op_def Let_def op_aka_def op_ak_def op_data_def aka_set_def
      ak_rotate_def data_set_single lww_join_def lww_laws_update [OF crdts_lww(2) [OF assms]]
      lww_laws_update [OF crdts_lww(3) [OF assms]])+

lemma fold_concat: "fold (\<lambda>x a. fold g (f x) a) xs a = fold g (concat (map f xs)) a"
  by (induction xs arbitrary: a) simp_all

text \<open>
  What makes the markers of a set of payloads unambiguous: no two different payloads that write a
  service or a register share a timestamp, none of them carries the default timestamp, and the
  markers of key rotations identify the key.
\<close>

fun stamped :: "delta_op \<Rightarrow> bool" where
  "stamped (AddServiceEndpoint _ _ _) \<longleftrightarrow> True"
| "stamped (SetAlsoKnownAs _) \<longleftrightarrow> True"
| "stamped (SetDocumentData _ _) \<longleftrightarrow> True"
| "stamped _ \<longleftrightarrow> False"

definition stamps_ok :: "externs \<Rightarrow> delta_payload set \<Rightarrow> bool" where
  "stamps_ok E P \<longleftrightarrow>
     (\<forall>x\<in>P. \<forall>y\<in>P. stamped (pl_op x) \<and> stamped (pl_op y) \<and> pl_time x = pl_time y \<longrightarrow> x = y) \<and>
     (\<forall>x\<in>P. stamped (pl_op x) \<longrightarrow> hlc_default < pl_time x) \<and>
     (\<forall>x\<in>P. \<forall>y\<in>P. \<forall>s k s' k'. pl_op x = RotateKey s k \<and> pl_op y = RotateKey s' k' \<and>
        marker_new E s k = marker_new E s' k' \<longrightarrow> k = k') \<and>
     (\<forall>x\<in>P. \<forall>s k. pl_op x = RotateKey s k \<longrightarrow> marker_new E s k \<noteq> marker_default)"

lemma stamps_okD:
  assumes "stamps_ok E P"
  shows "x \<in> P \<Longrightarrow> y \<in> P \<Longrightarrow> stamped (pl_op x) \<Longrightarrow> stamped (pl_op y) \<Longrightarrow> pl_time x = pl_time y \<Longrightarrow> x = y"
    "x \<in> P \<Longrightarrow> stamped (pl_op x) \<Longrightarrow> hlc_default < pl_time x"
    "x \<in> P \<Longrightarrow> y \<in> P \<Longrightarrow> pl_op x = RotateKey s k \<Longrightarrow> pl_op y = RotateKey s' k' \<Longrightarrow>
       marker_new E s k = marker_new E s' k' \<Longrightarrow> k = k'"
    "x \<in> P \<Longrightarrow> pl_op x = RotateKey s k \<Longrightarrow> marker_new E s k \<noteq> marker_default"
proof -
  note ok = assms [unfolded stamps_ok_def]
  show "x \<in> P \<Longrightarrow> y \<in> P \<Longrightarrow> stamped (pl_op x) \<Longrightarrow> stamped (pl_op y) \<Longrightarrow> pl_time x = pl_time y \<Longrightarrow> x = y"
    using ok [THEN conjunct1] by blast
  show "x \<in> P \<Longrightarrow> stamped (pl_op x) \<Longrightarrow> hlc_default < pl_time x"
    using ok [THEN conjunct2, THEN conjunct1] by blast
  show "x \<in> P \<Longrightarrow> y \<in> P \<Longrightarrow> pl_op x = RotateKey s k \<Longrightarrow> pl_op y = RotateKey s' k' \<Longrightarrow>
       marker_new E s k = marker_new E s' k' \<Longrightarrow> k = k'"
    using ok [THEN conjunct2, THEN conjunct2, THEN conjunct1] by blast
  show "x \<in> P \<Longrightarrow> pl_op x = RotateKey s k \<Longrightarrow> marker_new E s k \<noteq> marker_default"
    using ok [THEN conjunct2, THEN conjunct2, THEN conjunct2] by blast
qed

lemma stamps_ok_subset: "P \<subseteq> P' \<Longrightarrow> stamps_ok E P' \<Longrightarrow> stamps_ok E P"
  unfolding stamps_ok_def by (meson subsetD)

lemma reg_ok_choice:
  assumes "\<And>r q. r \<in> R \<Longrightarrow> q \<in> R \<Longrightarrow> lww_marker r = lww_marker q \<Longrightarrow> lww_val r = lww_val q"
  obtains \<psi> where "\<forall>r\<in>R. reg_ok \<psi> r"
proof
  let ?\<psi> = "\<lambda>m. lww_val (SOME r. r \<in> R \<and> lww_marker r = m)"
  show "\<forall>r\<in>R. reg_ok ?\<psi> r"
  proof
    fix r
    assume r: "r \<in> R"
    then have "(SOME q. q \<in> R \<and> lww_marker q = lww_marker r) \<in> R \<and>
        lww_marker (SOME q. q \<in> R \<and> lww_marker q = lww_marker r) = lww_marker r"
      by (intro someI [of "\<lambda>q. q \<in> R \<and> lww_marker q = lww_marker r" r]) simp
    then have "lww_val r = lww_val (SOME q. q \<in> R \<and> lww_marker q = lww_marker r)"
      by (intro assms [OF r]) auto
    then show "reg_ok ?\<psi> r" unfolding reg_ok_def .
  qed
qed

text \<open>Folding registers with unambiguous markers depends on the set only.\<close>

lemma lww_fold_cong:
  fixes a :: "('v, 'm::linorder) lww_reg"
  assumes "\<And>r q. r \<in> insert a (set xs) \<Longrightarrow> q \<in> insert a (set xs) \<Longrightarrow> lww_marker r = lww_marker q \<Longrightarrow> lww_val r = lww_val q"
    and "set xs = set ys"
  shows "fold (\<lambda>r a. lww_join a r) xs a = fold (\<lambda>r a. lww_join a r) ys a"
proof -
  obtain \<psi> where "\<forall>r\<in>insert a (set xs). reg_ok \<psi> r"
    using reg_ok_choice [of "insert a (set xs)"] assms(1) by metis
  with assms(2) show ?thesis by (intro lww.fold_set_cong [of \<psi>]) auto
qed

text \<open>Two documents with the same payloads.\<close>

definition same_payloads :: "document \<Rightarrow> document \<Rightarrow> bool" where
  "same_payloads doc doc' \<longleftrightarrow> payload ` set (doc_delta_log doc) = payload ` set (doc_delta_log doc')"

lemma concat_set_cong: "set xs = set ys \<Longrightarrow> set (concat (map f xs)) = set (concat (map f ys))"
  by simp

lemma aka_converges:
  assumes "crdts_laws E" "op_reach E doc" "op_reach E doc'" "same_payloads doc doc'"
    "stamps_ok E (payload ` set (doc_delta_log doc))"
  shows "doc_also_known_as doc = doc_also_known_as doc'"
proof -
  let ?xs = "\<lambda>doc. concat (map op_aka (map payload (doc_delta_log doc)))"
  have field: "doc_also_known_as doc = fold (\<lambda>r a. lww_join a r) (?xs doc) aka_new" if "op_reach E doc" for doc
    using field_fold [where F = doc_also_known_as and f = "\<lambda>x a. fold (\<lambda>r a. lww_join a r) (op_aka x) a",
        OF apply_delta_regs(1) [OF assms(1)] that]
    by (simp add: fold_concat) (simp add: doc_blank_def)
  have reg: "\<exists>x uris. x \<in> payload ` set (doc_delta_log doc) \<and> pl_op x = SetAlsoKnownAs uris \<and>
      r = \<lparr>lww_val = sort_dedup uris, lww_marker = pl_time x\<rparr>" if "r \<in> set (?xs doc)" for r
    using that unfolding set_concat_map op_aka_mem by blast
  have "fold (\<lambda>r a. lww_join a r) (?xs doc) aka_new = fold (\<lambda>r a. lww_join a r) (?xs doc') aka_new"
  proof (rule lww_fold_cong)
    fix r q
    assume rq: "r \<in> insert aka_new (set (?xs doc))" "q \<in> insert aka_new (set (?xs doc))" "lww_marker r = lww_marker q"
    have fresh: "lww_marker p \<noteq> lww_marker aka_new" if p: "p \<in> set (?xs doc)" for p
    proof -
      from reg [OF p] obtain x uris where "x \<in> payload ` set (doc_delta_log doc)" "pl_op x = SetAlsoKnownAs uris"
        "p = \<lparr>lww_val = sort_dedup uris, lww_marker = pl_time x\<rparr>" by blast
      then show ?thesis using stamps_okD(2) [OF assms(5), of x] by (auto simp: aka_new_def)
    qed
    have same: "lww_val r = lww_val q" if r: "r \<in> set (?xs doc)" and q: "q \<in> set (?xs doc)"
    proof -
      from reg [OF r] obtain x u where x: "x \<in> payload ` set (doc_delta_log doc)" "pl_op x = SetAlsoKnownAs u"
        "r = \<lparr>lww_val = sort_dedup u, lww_marker = pl_time x\<rparr>" by blast
      from reg [OF q] obtain y v where y: "y \<in> payload ` set (doc_delta_log doc)" "pl_op y = SetAlsoKnownAs v"
        "q = \<lparr>lww_val = sort_dedup v, lww_marker = pl_time y\<rparr>" by blast
      have "x = y" using stamps_okD(1) [OF assms(5) x(1) y(1)] x(2,3) y(2,3) rq(3) by simp
      with x y show ?thesis by simp
    qed
    from rq fresh [of r] fresh [of q] same show "lww_val r = lww_val q" by (elim insertE) simp_all
  qed (use assms(4) in \<open>intro concat_set_cong, simp add: same_payloads_def\<close>)
  then show ?thesis using field [OF assms(2)] field [OF assms(3)] by simp
qed

lemma ak_converges:
  assumes "crdts_laws E" "op_reach E doc" "op_reach E doc'" "same_payloads doc doc'"
    "stamps_ok E (payload ` set (doc_delta_log doc))"
  shows "doc_active_key doc = doc_active_key doc'"
proof -
  let ?xs = "\<lambda>doc. concat (map (op_ak E) (map payload (doc_delta_log doc)))"
  have field: "doc_active_key doc = fold (\<lambda>r a. lww_join a r) (?xs doc) ak_new" if "op_reach E doc" for doc
    using field_fold [where F = doc_active_key and f = "\<lambda>x a. fold (\<lambda>r a. lww_join a r) (op_ak E x) a",
        OF apply_delta_regs(2) [OF assms(1)] that]
    by (simp add: fold_concat) (simp add: doc_blank_def)
  have reg: "\<exists>x s k. x \<in> payload ` set (doc_delta_log doc) \<and> pl_op x = RotateKey s k \<and>
      r = \<lparr>lww_val = Some k, lww_marker = marker_new E s k\<rparr>" if "r \<in> set (?xs doc)" for r
    using that unfolding set_concat_map op_ak_mem by blast
  have "fold (\<lambda>r a. lww_join a r) (?xs doc) ak_new = fold (\<lambda>r a. lww_join a r) (?xs doc') ak_new"
  proof (rule lww_fold_cong)
    fix r q
    assume rq: "r \<in> insert ak_new (set (?xs doc))" "q \<in> insert ak_new (set (?xs doc))" "lww_marker r = lww_marker q"
    have fresh: "lww_marker p \<noteq> lww_marker ak_new" if p: "p \<in> set (?xs doc)" for p
    proof -
      from reg [OF p] obtain x s k where "x \<in> payload ` set (doc_delta_log doc)" "pl_op x = RotateKey s k"
        "p = \<lparr>lww_val = Some k, lww_marker = marker_new E s k\<rparr>" by blast
      then show ?thesis using stamps_okD(4) [OF assms(5), of x] by (auto simp: ak_new_def)
    qed
    have same: "lww_val r = lww_val q" if r: "r \<in> set (?xs doc)" and q: "q \<in> set (?xs doc)"
    proof -
      from reg [OF r] obtain x s k where x: "x \<in> payload ` set (doc_delta_log doc)" "pl_op x = RotateKey s k"
        "r = \<lparr>lww_val = Some k, lww_marker = marker_new E s k\<rparr>" by blast
      from reg [OF q] obtain y s' k' where y: "y \<in> payload ` set (doc_delta_log doc)" "pl_op y = RotateKey s' k'"
        "q = \<lparr>lww_val = Some k', lww_marker = marker_new E s' k'\<rparr>" by blast
      have "k = k'" using stamps_okD(3) [OF assms(5) x(1) y(1) x(2) y(2)] x(3) y(3) rq(3) by simp
      with x y show ?thesis by simp
    qed
    from rq fresh [of r] fresh [of q] same show "lww_val r = lww_val q" by (elim insertE) simp_all
  qed (use assms(4) in \<open>intro concat_set_cong, simp add: same_payloads_def\<close>)
  then show ?thesis using field [OF assms(2)] field [OF assms(3)] by simp
qed

lemma data_converges:
  assumes "crdts_laws E" "op_reach E doc" "op_reach E doc'" "same_payloads doc doc'"
    "stamps_ok E (payload ` set (doc_delta_log doc))"
  shows "doc_document_data doc = doc_document_data doc'"
proof -
  let ?P = "payload ` set (doc_delta_log doc)"
  let ?xs = "\<lambda>doc. concat (map op_data (map payload (doc_delta_log doc)))"
  let ?\<psi> = "\<lambda>k t. SOME v. \<exists>x\<in>?P. pl_op x = SetDocumentData k v \<and> pl_time x = t"
  have field: "doc_document_data doc = fold (\<lambda>r a. data_merge E a r) (?xs doc) data_new" if "op_reach E doc" for doc
    using field_fold [where F = doc_document_data and f = "\<lambda>x a. fold (\<lambda>r a. data_merge E a r) (op_data x) a",
        OF apply_delta_regs(3) [OF assms(1)] that]
    by (simp add: fold_concat) (simp add: doc_blank_def)
  have mem: "\<forall>m\<in>set (?xs doc). data_ok ?\<psi> m"
  proof
    fix m
    assume m: "m \<in> set (?xs doc)"
    obtain x k v where x: "x \<in> ?P" "pl_op x = SetDocumentData k v"
      "m = fmupd k \<lparr>lww_val = v, lww_marker = pl_time x\<rparr> fmempty"
      using m unfolding set_concat_map op_data_mem by blast
    have "?\<psi> k (pl_time x) = v"
    proof (rule some_equality)
      show "\<exists>y\<in>?P. pl_op y = SetDocumentData k v \<and> pl_time y = pl_time x" using x by blast
    next
      fix w
      assume "\<exists>y\<in>?P. pl_op y = SetDocumentData k w \<and> pl_time y = pl_time x"
      then obtain y where y: "y \<in> ?P" "pl_op y = SetDocumentData k w" "pl_time y = pl_time x" by blast
      then have "y = x" using stamps_okD(1) [OF assms(5) y(1) x(1)] x(2) by simp
      with x y show "w = v" by simp
    qed
    moreover have "hlc_default < pl_time x" using stamps_okD(2) [OF assms(5) x(1)] x(2) by simp
    ultimately show "data_ok ?\<psi> m" by (simp add: data_ok_def x(3) reg_ok_def)
  qed
  have set_eq: "set (?xs doc) = set (?xs doc')"
    using assms(4) by (intro concat_set_cong) (simp add: same_payloads_def)
  have new: "data_ok ?\<psi> data_new" by (simp add: data_ok_def data_new_def)
  have "\<forall>m\<in>set (?xs doc). crdts_laws E \<and> data_ok ?\<psi> m" using mem assms(1) by blast
  note data.fold_set_cong [OF conjI [OF assms(1) new] this set_eq]
  then show ?thesis using field [OF assms(2)] field [OF assms(3)] by simp
qed

end
