(* ===== verification/Eventual.thy ===== *)
theory Eventual
  imports Convergence
begin

text \<open>
  The service endpoints of a document as a function of its history, and with them the strong
  eventual consistency of whole documents: replicas that applied the same payloads, in whatever
  admissible order, are equal in every replicated field.
\<close>

section \<open>What a removal observes\<close>

lemma observed_adds_mem: "t \<in> set (observed_adds g ps i) \<longleftrightarrow>
    (\<exists>h d ty ep. h \<in> closure_of g ps \<and> dag_get g h = Some d \<and>
       sd_op d = AddServiceEndpoint i ty ep \<and> t = sd_timestamp d)"
  unfolding observed_adds_def closure_collect_set mem_Collect_eq
  by (rule ex_cong1, rule ex_cong1) (auto split: delta_op.splits if_splits)

lemma observed_adds_agree:
  assumes "dag_agree g g'" "past_missing g' ps = {}" "t \<in> set (observed_adds g ps i)"
  shows "t \<in> set (observed_adds g' ps i)"
proof -
  obtain h d ty ep where d: "h \<in> closure_of g ps" "dag_get g h = Some d"
    "sd_op d = AddServiceEndpoint i ty ep" "t = sd_timestamp d"
    using assms(3) unfolding observed_adds_mem by blast
  with closure_of_agree [OF assms(1,2)] have h: "h \<in> closure_of g' ps" by blast
  with assms(2) obtain d' where d': "dag_get g' h = Some d'"
    by (auto simp: past_missing_def dag_contains_get)
  with assms(1) d(2) have "payload d = payload d'" unfolding dag_agree_def by blast
  then show ?thesis unfolding observed_adds_mem using h d d' payload_eqD(2,3) [of d d'] by metis
qed

lemma observed_adds_frozen:
  assumes "dag_le g g'" "past_missing g ps = {}"
  shows "t \<in> set (observed_adds g' ps i) \<longleftrightarrow> t \<in> set (observed_adds g ps i)"
  using observed_adds_agree [OF dag_le_agree [OF assms(1)] past_complete_mono [OF assms]]
    observed_adds_agree [OF dag_agree_sym [OF dag_le_agree [OF assms(1)]] assms(2)] by blast

lemma held_past_complete:
  assumes "doc_ok E doc" "\<forall>p\<in>set ps. dag_contains (doc_dag doc) p"
  shows "past_missing (doc_dag doc) ps = {}"
proof -
  have "h \<in> closure_of (doc_dag doc) ps \<Longrightarrow> dag_contains (doc_dag doc) h" for h
  proof -
    assume "h \<in> closure_of (doc_dag doc) ps"
    then obtain p where p: "p \<in> set ps" "(p, h) \<in> (dag_edges (dag_by_hash (doc_dag doc)))\<^sup>*"
      by (auto simp: closure_of_def)
    from p(2) show ?thesis
      by (induction rule: rtrancl_induct)
        (use assms(2) p(1) doc_okD(4,5) [OF assms(1)] in \<open>auto simp: dag_complete_iff\<close>)
  qed
  then show ?thesis by (auto simp: past_missing_def)
qed

lemma logged_past_complete:
  "doc_ok E doc \<Longrightarrow> x \<in> set (doc_delta_log doc) \<Longrightarrow> past_missing (doc_dag doc) (sd_parents x) = {}"
  using held_past_complete doc_parents_held by blast

section \<open>The live endpoints\<close>

text \<open>An add event is cancelled when some logged removal has it in its causal past.\<close>

definition cancelled :: "document \<Rightarrow> dot \<Rightarrow> bool" where
  "cancelled doc t \<longleftrightarrow> (\<exists>r\<in>set (doc_delta_log doc). \<exists>i. sd_op r = RemoveServiceEndpoint i \<and>
     t \<in> set (observed_adds (doc_dag doc) (sd_parents r) i))"

definition added :: "document \<Rightarrow> dot \<Rightarrow> service_entry \<Rightarrow> bool" where
  "added doc t e \<longleftrightarrow> (\<exists>x\<in>set (doc_delta_log doc). \<exists>i ty ep. sd_op x = AddServiceEndpoint i ty ep \<and>
     e = ServiceEntry i ty ep \<and> t = sd_timestamp x)"

lemma cancelled_step:
  assumes "doc_ok E doc" "admissible E doc d"
  shows "cancelled (apply_delta E doc d) t \<longleftrightarrow> cancelled doc t \<or>
    (\<exists>i. sd_op d = RemoveServiceEndpoint i \<and> t \<in> set (observed_adds (doc_dag doc) (sd_parents d) i))"
proof -
  have "past_missing (doc_dag doc) (sd_parents r) = {}" if "r \<in> set (doc_delta_log doc) \<or> r = d" for r
    using that logged_past_complete [OF assms(1)] assms(2) causal_gate_complete by (auto simp: admissible_def)
  note frozen = observed_adds_frozen [OF dag_le_put this]
  then show ?thesis
    unfolding cancelled_def apply_delta_history by (auto simp: frozen)
qed

lemma cancelled_added: "doc_ok E doc \<Longrightarrow> cancelled doc t \<Longrightarrow> \<exists>e. added doc t e"
  unfolding cancelled_def added_def observed_adds_mem doc_get_iff by blast

lemma fresh_payload:
  assumes "doc_ok E doc" "\<not> dag_contains (doc_dag doc) (delta_id E d)" "x \<in> set (doc_delta_log doc)"
  shows "payload x \<noteq> payload d"
proof
  assume "payload x = payload d"
  with assms(3) have "delta_id E d \<in> delta_id E ` set (doc_delta_log doc)"
    using delta_id_payload [of x d E] by (metis image_eqI)
  with assms(2) doc_held_iff [OF assms(1)] show False by simp
qed

lemma apply_delta_services:
  "doc_service_endpoints (apply_delta E doc d) =
    (case sd_op d of
       AddServiceEndpoint i ty ep \<Rightarrow> svc_apply_add (doc_service_endpoints doc) (ServiceEntry i ty ep) (sd_timestamp d)
     | RemoveServiceEndpoint i \<Rightarrow>
         svc_apply_remove (doc_service_endpoints doc) (observed_adds (doc_dag doc) (sd_parents d) i) (sd_timestamp d)
     | _ \<Rightarrow> doc_service_endpoints doc)"
  by (simp add: apply_delta_def apply_op_def Let_def split: delta_op.split)

lemma added_step: "added (apply_delta E doc d) t e \<longleftrightarrow> added doc t e \<or>
    (\<exists>i ty ep. sd_op d = AddServiceEndpoint i ty ep \<and> e = ServiceEntry i ty ep \<and> t = sd_timestamp d)"
  by (auto simp: added_def apply_delta_history)

lemma live_endpoints:
  assumes "op_reach E doc" "stamps_ok E (payload ` set (doc_delta_log doc))"
  shows "fmlookup (svc_live (doc_service_endpoints doc)) t = Some e \<longleftrightarrow> added doc t e \<and> \<not> cancelled doc t"
  using assms
proof (induction arbitrary: t e rule: op_reach.induct)
  case (op_new pk doc creation)
  from doc_new_effect [OF this(1)] obtain i k rs su pkm where
    doc: "doc = apply_delta E (genesis_blank i) creation" "sd_op creation = AddVerificationMethod k pkm su rs" by blast
  have "\<not> added doc t e" unfolding doc(1) added_step doc(2) by (simp add: added_def doc_blank_def)
  moreover have "fmlookup (svc_live (doc_service_endpoints doc)) t = None"
    unfolding doc(1) apply_delta_services doc(2) by (simp add: doc_blank_def svc_new_def)
  ultimately show ?case by simp
next
  case (op_step doc d)
  let ?doc = "apply_delta E doc d"
  have ok: "doc_ok E doc" using op_step(1) by (rule op_reach_ok)
  have stamps: "stamps_ok E (payload ` set (doc_delta_log ?doc))" by (rule op_step.prems)
  then have IH: "fmlookup (svc_live (doc_service_endpoints doc)) t = Some e \<longleftrightarrow> added doc t e \<and> \<not> cancelled doc t" for t e
    by (intro op_step.IH stamps_ok_subset [OF _ stamps]) (auto simp: apply_delta_history)
  show ?case
  proof (cases "sd_op d")
    case (AddServiceEndpoint i ty ep)
    have unused: "\<not> added doc (sd_timestamp d) e'" for e'
    proof
      assume "added doc (sd_timestamp d) e'"
      then obtain x i' ty' ep' where x: "x \<in> set (doc_delta_log doc)" "sd_op x = AddServiceEndpoint i' ty' ep'"
        "sd_timestamp d = sd_timestamp x" unfolding added_def by blast
      have "payload x = payload d"
        by (rule stamps_okD(1) [OF stamps]) (use x AddServiceEndpoint in \<open>auto simp: apply_delta_history\<close>)
      with fresh_payload [OF ok op_step(2) x(1)] show False by simp
    qed
    then have "\<not> cancelled doc (sd_timestamp d)" using cancelled_added [OF ok] by blast
    with unused IH [of t e] show ?thesis
      unfolding added_step cancelled_step [OF ok op_step(3)] apply_delta_services AddServiceEndpoint
      by (auto simp: svc_apply_add_simps)
  next
    case (RemoveServiceEndpoint i)
    with IH [of t e] show ?thesis
      unfolding added_step cancelled_step [OF ok op_step(3)] apply_delta_services RemoveServiceEndpoint
      by (auto simp: svc_apply_remove_simps)
  qed (simp_all add: added_step cancelled_step [OF ok op_step(3)] apply_delta_services IH)
qed

section \<open>The version vector\<close>

fun service_op :: "delta_op \<Rightarrow> bool" where
  "service_op (AddServiceEndpoint _ _ _) \<longleftrightarrow> True"
| "service_op (RemoveServiceEndpoint _) \<longleftrightarrow> True"
| "service_op _ \<longleftrightarrow> False"

definition service_times :: "signed_delta set \<Rightarrow> dot set" where
  "service_times D = sd_timestamp ` {x \<in> D. service_op (sd_op x)}"

definition latest :: "dot set \<Rightarrow> u64 \<Rightarrow> dot option" where
  "latest T n = (let S = {t \<in> T. node_id t = n} in if S = {} then None else Some (Max S))"

lemma max_insert_cases: "finite S \<Longrightarrow> Max (insert t S) = (if S = {} then t else max t (Max S))"
  by simp

lemma lookup_raise_latest:
  assumes "finite T" "\<And>n. fmlookup c n = latest T n"
  shows "fmlookup (ctx_raise c (node_id t) t) n = latest (insert t T) n"
proof (cases "node_id t = n")
  case True
  have fin: "finite {s \<in> T. node_id s = n}" using assms(1) by simp
  have "{s \<in> insert t T. node_id s = n} = insert t {s \<in> T. node_id s = n}" using True by auto
  then have "latest (insert t T) n =
      Some (if {s \<in> T. node_id s = n} = {} then t else max t (Max {s \<in> T. node_id s = n}))"
    unfolding latest_def Let_def
    by (simp only: insert_not_empty if_False option.inject max_insert_cases [OF fin])
  moreover have "fmlookup c n = (if {s \<in> T. node_id s = n} = {} then None else Some (Max {s \<in> T. node_id s = n}))"
    by (simp add: assms(2) latest_def Let_def)
  ultimately show ?thesis using True by (auto simp: lookup_ctx_raise max.commute)
next
  case False
  then have "{s \<in> insert t T. node_id s = n} = {s \<in> T. node_id s = n}" by auto
  with False assms show ?thesis by (simp add: lookup_ctx_raise latest_def)
qed

lemma lookup_raise_all_latest:
  assumes "finite T" "\<And>n. fmlookup c n = latest T n"
  shows "fmlookup (fold (\<lambda>d c. ctx_raise c (node_id d) d) ts c) n = latest (set ts \<union> T) n"
  using assms
proof (induction ts arbitrary: c T)
  case (Cons t ts)
  have "fmlookup (fold (\<lambda>d c. ctx_raise c (node_id d) d) ts (ctx_raise c (node_id t) t)) n
      = latest (set ts \<union> insert t T) n"
    by (rule Cons.IH) (use Cons.prems in \<open>simp_all add: lookup_raise_latest\<close>)
  then show ?case by simp
qed simp

lemma version_vector:
  assumes "op_reach E doc"
  shows "fmlookup (svc_context (doc_service_endpoints doc)) n = latest (service_times (set (doc_delta_log doc))) n"
  using assms
proof (induction arbitrary: n rule: op_reach.induct)
  case (op_new pk doc creation)
  from doc_new_effect [OF this] obtain i k rs su pkm where
    doc: "doc = apply_delta E (genesis_blank i) creation" "sd_op creation = AddVerificationMethod k pkm su rs" by blast
  have "doc_delta_log doc = [creation]" unfolding doc(1) by (simp add: apply_delta_history doc_blank_def)
  then have "service_times (set (doc_delta_log doc)) = {}" by (simp add: service_times_def doc(2))
  then show ?case
    unfolding doc(1) apply_delta_services doc(2) by (simp add: doc_blank_def svc_new_def latest_def)
next
  case (op_step doc d)
  let ?T = "service_times (set (doc_delta_log doc))"
  have ok: "doc_ok E doc" using op_step(1) by (rule op_reach_ok)
  have fin: "finite ?T" by (simp add: service_times_def)
  have times: "service_times (set (doc_delta_log (apply_delta E doc d))) =
      (if service_op (sd_op d) then insert (sd_timestamp d) ?T else ?T)"
    by (auto simp: service_times_def apply_delta_history)
  show ?case
  proof (cases "sd_op d")
    case (AddServiceEndpoint i ty ep)
    then show ?thesis
      unfolding times apply_delta_services
      by (simp add: svc_apply_add_simps lookup_raise_latest [OF fin op_step.IH])
  next
    case (RemoveServiceEndpoint i)
    let ?obs = "observed_adds (doc_dag doc) (sd_parents d) i"
    have "set ?obs \<subseteq> ?T"
    proof
      fix t
      assume "t \<in> set ?obs"
      then obtain x i' ty ep where "x \<in> set (doc_delta_log doc)" "sd_op x = AddServiceEndpoint i' ty ep" "t = sd_timestamp x"
        unfolding observed_adds_mem doc_get_iff [OF ok] by blast
      then show "t \<in> ?T" by (auto simp: service_times_def)
    qed
    then have "set (sd_timestamp d # ?obs) \<union> ?T = insert (sd_timestamp d) ?T" by auto
    then show ?thesis
      using lookup_raise_all_latest [OF fin op_step.IH, of "sd_timestamp d # ?obs" n]
      unfolding times apply_delta_services RemoveServiceEndpoint by (simp only: svc_apply_remove_simps delta_op.simps service_op.simps if_True)
  qed (simp_all add: times apply_delta_services op_step.IH)
qed

section \<open>Strong eventual consistency\<close>

lemma option_eqI: "(\<And>e. a = Some e \<longleftrightarrow> b = Some e) \<Longrightarrow> a = b"
  by (metis option.exhaust)

lemma same_payloadsD:
  assumes "same_payloads doc doc'" "x \<in> set (doc_delta_log doc)"
  obtains y where "y \<in> set (doc_delta_log doc')" "payload y = payload x"
proof -
  have "payload x \<in> payload ` set (doc_delta_log doc')"
    using assms unfolding same_payloads_def by blast
  then show thesis using that by (metis imageE)
qed

lemma same_payloads_sym: "same_payloads doc doc' \<Longrightarrow> same_payloads doc' doc"
  by (simp add: same_payloads_def)

lemma docs_agree:
  assumes "doc_ok E doc" "doc_ok E doc'" "collision_free E (set (doc_delta_log doc) \<union> set (doc_delta_log doc'))"
  shows "dag_agree (doc_dag doc) (doc_dag doc')"
proof (rule dag_agreeI [OF doc_okD(5) [OF assms(1)] doc_okD(5) [OF assms(2)]])
  show "collision_free E {d. \<exists>h. dag_get (doc_dag doc) h = Some d \<or> dag_get (doc_dag doc') h = Some d}"
    by (rule collision_free_subset [OF _ assms(3)])
      (auto simp: doc_get_iff [OF assms(1)] doc_get_iff [OF assms(2)])
qed

lemma cancelled_transfer:
  assumes "doc_ok E doc" "doc_ok E doc'" "same_payloads doc doc'"
    "collision_free E (set (doc_delta_log doc) \<union> set (doc_delta_log doc'))" "cancelled doc t"
  shows "cancelled doc' t"
proof -
  obtain r i where r: "r \<in> set (doc_delta_log doc)" "sd_op r = RemoveServiceEndpoint i"
    "t \<in> set (observed_adds (doc_dag doc) (sd_parents r) i)"
    using assms(5) unfolding cancelled_def by blast
  obtain r' where r': "r' \<in> set (doc_delta_log doc')" "payload r' = payload r"
    using same_payloadsD [OF assms(3) r(1)] by blast
  have "t \<in> set (observed_adds (doc_dag doc') (sd_parents r') i)"
    using observed_adds_agree [OF docs_agree [OF assms(1,2,4)] logged_past_complete [OF assms(2) r'(1)]] r(3)
      payload_eqD(4) [OF r'(2)] by simp
  with r(2) r' payload_eqD(3) [OF r'(2)] show ?thesis unfolding cancelled_def by auto
qed

lemma added_transfer: "same_payloads doc doc' \<Longrightarrow> added doc t e \<Longrightarrow> added doc' t e"
  unfolding added_def by (metis same_payloadsD payload_eqD(2,3))

lemma service_times_transfer:
  "same_payloads doc doc' \<Longrightarrow> service_times (set (doc_delta_log doc)) \<subseteq> service_times (set (doc_delta_log doc'))"
proof
  fix t
  assume same: "same_payloads doc doc'" and "t \<in> service_times (set (doc_delta_log doc))"
  then obtain x where x: "x \<in> set (doc_delta_log doc)" "service_op (sd_op x)" "t = sd_timestamp x"
    unfolding service_times_def by blast
  from same x(1) obtain y where "y \<in> set (doc_delta_log doc')" "payload y = payload x" by (rule same_payloadsD)
  with x payload_eqD(2,3) [of y x] have "y \<in> {z \<in> set (doc_delta_log doc'). service_op (sd_op z)}" "t = sd_timestamp y"
    by simp_all
  then show "t \<in> service_times (set (doc_delta_log doc'))"
    unfolding service_times_def by (rule rev_image_eqI)
qed

lemma services_converge:
  assumes "op_reach E doc" "op_reach E doc'" "same_payloads doc doc'"
    "stamps_ok E (payload ` set (doc_delta_log doc))"
    "collision_free E (set (doc_delta_log doc) \<union> set (doc_delta_log doc'))"
  shows "doc_service_endpoints doc = doc_service_endpoints doc'"
proof (rule svc_eqI)
  note ok = op_reach_ok [OF assms(1)] op_reach_ok [OF assms(2)]
  note same = assms(3) same_payloads_sym [OF assms(3)]
  have stamps': "stamps_ok E (payload ` set (doc_delta_log doc'))"
    using assms(3,4) by (simp add: same_payloads_def)
  have free': "collision_free E (set (doc_delta_log doc') \<union> set (doc_delta_log doc))"
    using assms(5) by (simp add: Un_commute)
  fix t
  have "fmlookup (svc_live (doc_service_endpoints doc)) t = Some e \<longleftrightarrow>
      fmlookup (svc_live (doc_service_endpoints doc')) t = Some e" for e
    unfolding live_endpoints [OF assms(1,4)] live_endpoints [OF assms(2) stamps']
    using added_transfer [OF same(1)] added_transfer [OF same(2)]
      cancelled_transfer [OF ok same(1) assms(5)] cancelled_transfer [OF ok(2,1) same(2) free'] by blast
  then show "fmlookup (svc_live (doc_service_endpoints doc)) t = fmlookup (svc_live (doc_service_endpoints doc')) t"
    by (rule option_eqI)
next
  fix n
  have "service_times (set (doc_delta_log doc)) = service_times (set (doc_delta_log doc'))"
    using service_times_transfer [OF assms(3)] service_times_transfer [OF same_payloads_sym [OF assms(3)]] by blast
  then show "fmlookup (svc_context (doc_service_endpoints doc)) n = fmlookup (svc_context (doc_service_endpoints doc')) n"
    by (simp add: version_vector [OF assms(1)] version_vector [OF assms(2)])
qed

lemma op_reach_created: "op_reach E doc \<Longrightarrow> doc_created_ms doc = Some (wall_ms hlc_default)"
proof (induction rule: op_reach.induct)
  case (op_new pk doc creation)
  from doc_new_effect [OF this] obtain i where "doc = apply_delta E (genesis_blank i) creation" by blast
  then show ?case by (simp add: apply_delta_history doc_blank_def)
qed (simp add: apply_delta_history)

lemma same_did:
  assumes "op_reach E doc" "op_reach E doc'" "same_payloads doc doc'"
  shows "doc_did doc = doc_did doc'"
proof -
  obtain x where x: "x \<in> set (doc_delta_log doc)"
    using op_reach_fold [OF assms(1)] by (cases "doc_delta_log doc") auto
  with assms(3) obtain y where "y \<in> set (doc_delta_log doc')" "payload y = payload x" by (rule same_payloadsD)
  with x show ?thesis
    using doc_okD(3) [OF op_reach_ok [OF assms(1)]] doc_okD(3) [OF op_reach_ok [OF assms(2)]]
      payload_eqD(1) [of y x] by metis
qed

lemma sets_converge:
  assumes "crdts_laws E" "op_reach E doc" "op_reach E doc'" "same_payloads doc doc'"
  shows "doc_verification_methods doc = doc_verification_methods doc'"
    "doc_revocations doc = doc_revocations doc'"
    "doc_revoked_verification_methods doc = doc_revoked_verification_methods doc'"
    "doc_deactivated doc = doc_deactivated doc'"
    "doc_updated_ms doc = doc_updated_ms doc'"
proof -
  have set_eq: "set (map payload (doc_delta_log doc)) = set (map payload (doc_delta_log doc'))"
    using assms(4) by (simp add: same_payloads_def)
  then have fset_eq: "fset_of_list (map payload (doc_delta_log doc)) = fset_of_list (map payload (doc_delta_log doc'))"
    by (simp add: fset_of_list.abs_eq)
  have union: "F doc = F doc'"
    if "\<And>doc d. F (apply_delta E doc d) = F doc |\<union>| f (sd_op d)" "\<And>i. F (genesis_blank i) = s0"
    for F :: "document \<Rightarrow> 'a fset" and f s0
  proof -
    have "F doc = s0 |\<union>| ffUnion ((\<lambda>x. f (pl_op x)) |`| fset_of_list (map payload (doc_delta_log doc)))"
      if "op_reach E doc" for doc
      using field_fold [where F = F and f = "\<lambda>x s. s |\<union>| f (pl_op x)", OF _ that] fold_funion [where f = "\<lambda>x. f (pl_op x)"]
      by (simp add: \<open>\<And>doc d. F (apply_delta E doc d) = F doc |\<union>| f (sd_op d)\<close> \<open>\<And>i. F (genesis_blank i) = s0\<close>)
    from this [OF assms(2)] this [OF assms(3)] show ?thesis by (simp only: fset_eq)
  qed
  note effect = apply_delta_gsets [OF assms(1)]
  show "doc_verification_methods doc = doc_verification_methods doc'"
    by (rule union [OF effect(1)]) (simp add: doc_blank_def)
  show "doc_revocations doc = doc_revocations doc'"
    by (rule union [OF effect(2)]) (simp add: doc_blank_def)
  show "doc_revoked_verification_methods doc = doc_revoked_verification_methods doc'"
    by (rule union [OF effect(3)]) (simp add: doc_blank_def)
  have "doc_deactivated doc \<longleftrightarrow> (\<exists>x\<in>set (map payload (doc_delta_log doc)). pl_op x = Deactivate)"
    if "op_reach E doc" for doc
  proof -
    have "fold (\<lambda>x b. b \<or> pl_op x = Deactivate) xs b \<longleftrightarrow> b \<or> (\<exists>x\<in>set xs. pl_op x = Deactivate)" for xs :: "delta_payload list" and b
      by (induction xs arbitrary: b) auto
    then show ?thesis
      using field_fold [where F = doc_deactivated and f = "\<lambda>x b. b \<or> pl_op x = Deactivate", OF _ that]
      by (simp add: effect(4)) (simp add: doc_blank_def deact_new_def)
  qed
  from this [OF assms(2)] this [OF assms(3)] show "doc_deactivated doc = doc_deactivated doc'"
    by (simp only: set_eq)
  have "doc_updated_ms doc = fold (\<lambda>x a. merge_updated a x)
      (map (\<lambda>x. Some (wall_ms (pl_time x))) (map payload (doc_delta_log doc))) (Some (wall_ms hlc_default))"
    if "op_reach E doc" for doc
    using field_fold [where F = doc_updated_ms and f = "\<lambda>x a. merge_updated a (Some (wall_ms (pl_time x)))", OF _ that]
    by (simp add: effect(5) fold_map comp_def) (simp add: doc_blank_def)
  from this [OF assms(2)] this [OF assms(3)] show "doc_updated_ms doc = doc_updated_ms doc'"
    using upd.fold_set_cong set_eq by (metis (no_types, lifting) image_set)
qed

lemma frontier_converges:
  assumes "doc_ok E doc" "doc_ok E doc'" "same_payloads doc doc'"
  shows "doc_frontier doc = doc_frontier doc'"
proof -
  have sub: "delta_id E ` set (doc_delta_log a) \<subseteq> delta_id E ` set (doc_delta_log b)"
      "(\<Union>d\<in>set (doc_delta_log a). set (sd_parents d)) \<subseteq> (\<Union>d\<in>set (doc_delta_log b). set (sd_parents d))"
    if same: "same_payloads a b" for a b
  proof -
    have step: "\<exists>y\<in>set (doc_delta_log b). delta_id E y = delta_id E x \<and> sd_parents y = sd_parents x"
      if "x \<in> set (doc_delta_log a)" for x
      using same_payloadsD [OF same that] delta_id_payload payload_eqD(4) by metis
    show "delta_id E ` set (doc_delta_log a) \<subseteq> delta_id E ` set (doc_delta_log b)"
      by (rule image_subsetI) (metis step image_eqI)
    from step show "(\<Union>d\<in>set (doc_delta_log a). set (sd_parents d)) \<subseteq> (\<Union>d\<in>set (doc_delta_log b). set (sd_parents d))"
      by fastforce
  qed
  have "set (doc_frontier doc) = set (doc_frontier doc')"
    unfolding doc_frontier_set [OF assms(1)] doc_frontier_set [OF assms(2)]
    using equalityI [OF sub(1) [OF assms(3)] sub(1) [OF same_payloads_sym [OF assms(3)]]]
      equalityI [OF sub(2) [OF assms(3)] sub(2) [OF same_payloads_sym [OF assms(3)]]] by simp
  then have "dag_frontier (doc_dag doc) = dag_frontier (doc_dag doc')"
    by (simp add: doc_frontier_def frontier_of_def fset_inject)
  then show ?thesis by (simp add: doc_frontier_def frontier_of_def)
qed

text \<open>The replicated state of a document: everything but the log and the DAG built from it.\<close>

definition replicated :: "document \<Rightarrow> document" where
  "replicated doc = doc\<lparr>doc_delta_log := [], doc_dag := dag_new\<rparr>"

lemma replicated_content_hash: "replicated doc = replicated doc' \<Longrightarrow> doc_content_hash E doc = doc_content_hash E doc'"
  by (cases doc; cases doc') (simp add: replicated_def doc_content_hash_def)

lemma docs_converge:
  assumes "crdts_laws E" "op_reach E doc" "op_reach E doc'" "same_payloads doc doc'"
    "stamps_ok E (payload ` set (doc_delta_log doc))"
    "collision_free E (set (doc_delta_log doc) \<union> set (doc_delta_log doc'))"
  shows "replicated doc = replicated doc' \<and> doc_frontier doc = doc_frontier doc'"
proof
  show "replicated doc = replicated doc'"
    using same_did [OF assms(2-4)] sets_converge [OF assms(1-4)] services_converge [OF assms(2-6)]
      aka_converges [OF assms(1-5)] ak_converges [OF assms(1-5)] data_converges [OF assms(1-5)]
      op_reach_created [OF assms(2)] op_reach_created [OF assms(3)]
    by (cases doc; cases doc') (simp add: replicated_def)
  show "doc_frontier doc = doc_frontier doc'"
    by (rule frontier_converges [OF op_reach_ok [OF assms(2)] op_reach_ok [OF assms(3)] assms(4)])
qed

section \<open>Exchanging histories\<close>

text \<open>
  In a document built by deltas every fact has its delta in the DAG, so the floor for imported
  facts never refuses and the causal decision alone admits.
\<close>

lemma dag_values_log: "doc_ok E doc \<Longrightarrow> set (dag_values (doc_dag doc)) = set (doc_delta_log doc)"
proof -
  assume ok: "doc_ok E doc"
  have "d \<in> set (dag_values (doc_dag doc)) \<longleftrightarrow> (\<exists>h. dag_get (doc_dag doc) h = Some d)" for d
    unfolding dag_values_def set_snd_sorted_list_of_fmap dag_get_def by (auto elim: fmran'E intro: fmran'I)
  then show ?thesis unfolding doc_get_iff [OF ok] by auto
qed

lemma op_vms_adds: "e |\<in>| op_vms op \<Longrightarrow> adds_key (vme_id e) op"
  by (cases op) (simp_all add: op_vms_def)

lemma op_rvms_revokes: "k |\<in>| op_rvms op \<Longrightarrow> revokes_key k op"
  by (cases op) (simp_all add: op_rvms_def)

lemma op_reach_backed:
  assumes "op_reach E doc" "crdts_laws E"
  shows "doc_deactivated doc \<Longrightarrow> \<exists>x\<in>set (doc_delta_log doc). sd_op x = Deactivate"
    "e |\<in>| doc_verification_methods doc \<Longrightarrow> \<exists>x\<in>set (doc_delta_log doc). adds_key (vme_id e) (sd_op x)"
    "k |\<in>| doc_revoked_verification_methods doc \<Longrightarrow> \<exists>x\<in>set (doc_delta_log doc). revokes_key k (sd_op x)"
proof -
  note effect = apply_delta_gsets [OF assms(2)]
  let ?P = "\<lambda>doc. (doc_deactivated doc \<longrightarrow> (\<exists>x\<in>set (doc_delta_log doc). sd_op x = Deactivate)) \<and>
    (\<forall>e. e |\<in>| doc_verification_methods doc \<longrightarrow> (\<exists>x\<in>set (doc_delta_log doc). adds_key (vme_id e) (sd_op x))) \<and>
    (\<forall>k. k |\<in>| doc_revoked_verification_methods doc \<longrightarrow> (\<exists>x\<in>set (doc_delta_log doc). revokes_key k (sd_op x)))"
  have step: "?P (apply_delta E doc d)" if P: "?P doc" for doc d
  proof (intro conjI allI impI)
    show "doc_deactivated (apply_delta E doc d) \<Longrightarrow> \<exists>x\<in>set (doc_delta_log (apply_delta E doc d)). sd_op x = Deactivate"
      using P unfolding effect apply_delta_history by (simp; blast)
    show "e |\<in>| doc_verification_methods (apply_delta E doc d) \<Longrightarrow>
        \<exists>x\<in>set (doc_delta_log (apply_delta E doc d)). adds_key (vme_id e) (sd_op x)" for e
      using P op_vms_adds [of e "sd_op d"] unfolding effect apply_delta_history by (simp; blast)
    show "k |\<in>| doc_revoked_verification_methods (apply_delta E doc d) \<Longrightarrow>
        \<exists>x\<in>set (doc_delta_log (apply_delta E doc d)). revokes_key k (sd_op x)" for k
      using P op_rvms_revokes [of k "sd_op d"] unfolding effect apply_delta_history by (simp; blast)
  qed
  have "?P doc" using assms(1)
  proof (induction rule: op_reach.induct)
    case (op_new pk doc creation)
    from doc_new_effect [OF this] obtain i where doc: "doc = apply_delta E (genesis_blank i) creation" by blast
    show ?case unfolding doc by (rule step) (simp add: doc_blank_def deact_new_def vm_new_def rvm_new_def)
  qed (rule step)
  then show "doc_deactivated doc \<Longrightarrow> \<exists>x\<in>set (doc_delta_log doc). sd_op x = Deactivate"
    "e |\<in>| doc_verification_methods doc \<Longrightarrow> \<exists>x\<in>set (doc_delta_log doc). adds_key (vme_id e) (sd_op x)"
    "k |\<in>| doc_revoked_verification_methods doc \<Longrightarrow> \<exists>x\<in>set (doc_delta_log doc). revokes_key k (sd_op x)"
    by blast+
qed

lemma op_reach_has_key:
  assumes "op_reach E doc" "crdts_laws E"
  shows "doc_verification_methods doc \<noteq> {||}"
  using assms(1)
proof (induction rule: op_reach.induct)
  case (op_new pk doc creation)
  from doc_new_effect [OF this] obtain i where doc: "doc = apply_delta E (genesis_blank i) creation"
    "op_vms (sd_op creation) \<noteq> {||}" by (auto simp: op_vms_def)
  then show ?case by (simp add: apply_delta_gsets [OF assms(2)])
qed (simp add: apply_delta_gsets [OF assms(2)])

text \<open>The checks of a delta that do not read the state, apart from its identifier.\<close>

definition well_shaped :: "externs \<Rightarrow> did \<Rightarrow> signed_delta \<Rightarrow> bool" where
  "well_shaped E i d \<longleftrightarrow>
     (\<exists>bytes. delta_to_vec E d = Some bytes \<and> length bytes \<le> MAX_DELTA_SIZE) \<and> sd_did d = i \<and>
     recognise_op (sd_op d) = Inr () \<and> is_canonical_parents (sd_parents d)"

lemma valid_has_authorising:
  assumes "doc_ok E doc" "doc_delta_log doc \<noteq> []" "verify_causal d (doc_dag doc) = Valid"
  shows "sd_parents d \<noteq> []" "has_authorising_delta (doc_dag doc) (pr_verification_method (sd_proof d))"
proof -
  obtain x where "x \<in> set (doc_delta_log doc)" using assms(2) by (cases "doc_delta_log doc") auto
  then have "\<not> dag_is_empty (doc_dag doc)"
    using doc_held_iff [OF assms(1), of "delta_id E x"]
    by (auto simp: dag_is_empty_def dag_contains_def fmlookup_dom_iff dest: arg_cong [of _ _ "\<lambda>S. delta_id E x |\<in>| S"])
  with assms(3) show ps: "sd_parents d \<noteq> []" by (auto simp: verify_causal_eq Let_def)
  with assms(3) have "past_has (doc_dag doc) (sd_parents d) (adds_key (pr_verification_method (sd_proof d)))"
    by (auto simp: verify_causal_eq Let_def split: if_splits)
  then show "has_authorising_delta (doc_dag doc) (pr_verification_method (sd_proof d))"
    unfolding past_has_def has_authorising_delta_def list_ex_iff dag_values_log [OF assms(1)]
      doc_get_iff [OF assms(1)] by blast
qed

lemma admissible_iff:
  assumes "op_reach E doc" "crdts_laws E"
  shows "admissible E doc d \<longleftrightarrow> well_shaped E (doc_did doc) d \<and> verify_causal d (doc_dag doc) = Valid"
proof -
  let ?g = "doc_dag doc" and ?k = "pr_verification_method (sd_proof d)"
  have ok: "doc_ok E doc" using assms(1) by (rule op_reach_ok)
  have some: "doc_delta_log doc \<noteq> []" using op_reach_fold [OF assms(1)] by simp
  note vals = dag_values_log [OF ok]
  have deact: "deact_is_set (doc_deactivated doc) \<Longrightarrow> has_deactivate_delta ?g"
    using op_reach_backed(1) [OF assms] by (simp add: deact_is_set_def has_deactivate_delta_def list_ex_iff vals)
  have key: "vm_contains_id E (doc_verification_methods doc) ?k \<Longrightarrow> has_authorising_delta ?g ?k"
    using op_reach_backed(2) [OF assms]
    by (simp add: vm_contains_id_def vm_entries_def crdts_simps [OF assms(2)] list_ex_iff has_authorising_delta_def vals)
      metis
  have rvm: "rvm_contains E (doc_revoked_verification_methods doc) ?k \<Longrightarrow> has_revoking_delta ?g ?k"
    using op_reach_backed(3) [OF assms]
    by (auto simp: rvm_contains_def crdts_simps [OF assms(2)] list_ex_iff has_revoking_delta_def vals)
  have "set (vm_entries E (doc_verification_methods doc)) = fset (doc_verification_methods doc)"
    by (simp add: vm_entries_def crdts_simps [OF assms(2)])
  then have entries: "vm_entries E (doc_verification_methods doc) \<noteq> []"
    using op_reach_has_key [OF assms] by (metis bot_fset.rep_eq fset_inject list.set(1))
  have floor: "import_floor E doc ?k = Inr () \<longleftrightarrow> has_authorising_delta ?g ?k"
    using deact key rvm entries by (auto simp: import_floor_def)
  have "causal_gate doc d = Inr () \<and> has_authorising_delta ?g ?k \<longleftrightarrow> verify_causal d ?g = Valid"
    using valid_has_authorising(2) [OF ok some] by (auto simp: causal_gate_def split: admission_result.splits if_splits)
  with floor show ?thesis by (auto simp: admissible_def well_shaped_def)
qed

text \<open>An acceptance carries over to every replica that holds the parents.\<close>

lemma verify_causal_transfer:
  assumes "verify_causal d g = Valid" "sd_parents d \<noteq> []" "dag_agree g g'" "past_missing g' (sd_parents d) = {}"
  shows "verify_causal d g' = Valid"
proof -
  let ?k = "pr_verification_method (sd_proof d)" and ?ps = "sd_parents d"
  have valid: "\<not> past_has g ?ps (revokes_key ?k)" "\<not> past_has g ?ps (\<lambda>op. op = Deactivate)"
    "past_missing g ?ps = {}" "past_has g ?ps (adds_key ?k)"
    using assms(1,2) by (auto simp: verify_causal_eq Let_def split: if_splits)
  note to = past_has_agree [OF assms(3,4)] and fro = past_has_agree [OF dag_agree_sym [OF assms(3)] valid(3)]
  show ?thesis
    using valid to [OF valid(4)] fro [of "revokes_key ?k"] fro [of "\<lambda>op. op = Deactivate"] assms(2,4)
    by (auto simp: verify_causal_eq Let_def)
qed

lemma verify_causal_grows:
  assumes "verify_causal d g = Valid" "sd_parents d \<noteq> []" "dag_le g g'"
  shows "verify_causal d g' = Valid"
proof -
  have "past_missing g (sd_parents d) = {}"
    using assms(1,2) by (auto simp: verify_causal_eq Let_def split: if_splits)
  with assms(3) have "past_missing g' (sd_parents d) = {}" by (rule past_complete_mono)
  with assms show ?thesis by (blast intro: verify_causal_transfer dag_le_agree)
qed

text \<open>Every delta of a log but the first stays acceptable to the document.\<close>

definition genesis_of :: "document \<Rightarrow> signed_delta" where
  "genesis_of doc = hd (doc_delta_log doc)"

lemma op_reach_log:
  assumes "op_reach E doc" "crdts_laws E"
  shows "\<forall>d\<in>set (tl (doc_delta_log doc)). well_shaped E (doc_did doc) d \<and> sd_parents d \<noteq> [] \<and>
     verify_causal d (doc_dag doc) = Valid"
  using assms(1)
proof (induction rule: op_reach.induct)
  case (op_new pk doc creation)
  from doc_new_effect [OF this] obtain i where doc: "doc = apply_delta E (genesis_blank i) creation" by blast
  have "doc_delta_log doc = [creation]" unfolding doc by (simp add: apply_delta_history doc_blank_def)
  then show ?case by simp
next
  case (op_step doc d)
  have ok: "doc_ok E doc" using op_step(1) by (rule op_reach_ok)
  have some: "doc_delta_log doc \<noteq> []" using op_reach_fold [OF op_step(1)] by simp
  have adm: "well_shaped E (doc_did doc) d" "verify_causal d (doc_dag doc) = Valid"
    using op_step(3) unfolding admissible_iff [OF op_step(1) assms(2)] by blast+
  have "sd_parents d \<noteq> []" using valid_has_authorising(1) [OF ok some adm(2)] .
  with adm op_step.IH some show ?case
    using verify_causal_grows [OF _ _ dag_le_put] by (auto simp: apply_delta_history)
qed

lemma op_reach_causal_order:
  assumes "op_reach E doc" "doc_delta_log doc = xs @ d # ys"
  shows "set (sd_parents d) \<subseteq> delta_id E ` set xs"
  using assms
proof (induction arbitrary: ys rule: op_reach.induct)
  case (op_new pk doc creation)
  from doc_new_effect [OF this(1)] obtain i where
    doc: "doc = apply_delta E (genesis_blank i) creation" "sd_parents creation = []" by blast
  have "doc_delta_log doc = [creation]" unfolding doc(1) by (simp add: apply_delta_history doc_blank_def)
  with op_new(2) doc(2) show ?case by (simp add: Cons_eq_append_conv)
next
  case (op_step doc x)
  show ?case
  proof (cases ys rule: rev_cases)
    case Nil
    with op_step.prems have x: "x = d" "doc_delta_log doc = xs" by (simp_all add: apply_delta_history)
    have "past_missing (doc_dag doc) (sd_parents d) = {}"
      using op_step(3) causal_gate_complete unfolding x(1) admissible_def by blast
    from complete_parents_held [OF this] show ?thesis
      using doc_held_iff [OF op_reach_ok [OF op_step(1)]] x(2) by blast
  next
    case (snoc zs z)
    with op_step.prems have "doc_delta_log doc = xs @ d # zs" by (simp add: apply_delta_history)
    then show ?thesis by (rule op_step.IH)
  qed
qed

text \<open>Delivery of the deltas of a log, one merge each.\<close>

definition deliver :: "externs \<Rightarrow> signed_delta list \<Rightarrow> document \<Rightarrow> document" where
  "deliver E ds doc = fold (\<lambda>d doc. snd (merge E doc d)) ds doc"

definition accepted :: "externs \<Rightarrow> signed_delta list \<Rightarrow> document \<Rightarrow> bool" where
  "accepted E ds doc \<longleftrightarrow> (\<forall>xs d ys. ds = xs @ d # ys \<longrightarrow> fst (merge E (deliver E xs doc) d) = Inr ())"

lemma merge_well_shaped:
  assumes "well_shaped E (doc_did doc) d"
  shows "dag_contains (doc_dag doc) (delta_id E d) \<Longrightarrow> merge E doc d = (Inr (), doc)"
  using assms by (auto simp: merge_def well_shaped_def)

text \<open>A logged delta of one replica is accepted by any replica that holds its parents.\<close>

lemma logged_admissible:
  assumes "crdts_laws E" "op_reach E src" "op_reach E doc" "doc_did doc = doc_did src"
    "collision_free E (set (doc_delta_log src) \<union> set (doc_delta_log doc))"
    "d \<in> set (tl (doc_delta_log src))" "set (sd_parents d) \<subseteq> delta_id E ` set (doc_delta_log doc)"
  shows "admissible E doc d" "well_shaped E (doc_did doc) d"
proof -
  have ok: "doc_ok E src" "doc_ok E doc" using assms(2,3) by (simp_all add: op_reach_ok)
  have src: "well_shaped E (doc_did doc) d" "sd_parents d \<noteq> []" "verify_causal d (doc_dag src) = Valid"
    using op_reach_log [OF assms(2,1)] assms(4,6) by auto
  have "past_missing (doc_dag doc) (sd_parents d) = {}"
    using assms(7) doc_held_iff [OF ok(2)] by (intro held_past_complete [OF ok(2)]) blast
  with src docs_agree [OF ok assms(5)] show "admissible E doc d"
    unfolding admissible_iff [OF assms(3,1)] using verify_causal_transfer by blast
  show "well_shaped E (doc_did doc) d" by (rule src(1))
qed

lemma merge_admissible:
  assumes "doc_ok E doc" "admissible E doc d" "well_shaped E (doc_did doc) d"
  shows "fst (merge E doc d) = Inr ()" "set (doc_delta_log doc) \<subseteq> set (doc_delta_log (snd (merge E doc d)))"
    "set (doc_delta_log (snd (merge E doc d))) \<subseteq> insert d (set (doc_delta_log doc))"
    "delta_id E d \<in> delta_id E ` set (doc_delta_log (snd (merge E doc d)))"
  using merge_applied [of doc E d] merge_well_shaped [OF assms(3)] doc_held_iff [OF assms(1), of "delta_id E d"] assms(2)
  by (cases "dag_contains (doc_dag doc) (delta_id E d)"; auto simp: apply_delta_history)+

lemma accepted_snoc:
  assumes "accepted E xs doc" "fst (merge E (deliver E xs doc) d) = Inr ()"
  shows "accepted E (xs @ [d]) doc"
  unfolding accepted_def
proof (intro allI impI)
  fix us u vs
  assume "xs @ [d] = us @ u # vs"
  then consider "us = xs" "u = d" | ws where "xs = us @ u # ws" by (cases vs rule: rev_cases) auto
  then show "fst (merge E (deliver E us doc) u) = Inr ()"
    using assms unfolding accepted_def by cases auto
qed

lemma deliver_prefix:
  assumes "crdts_laws E" "op_reach E src" "op_reach E doc" "payload (genesis_of src) = payload (genesis_of doc)"
    "collision_free E (set (doc_delta_log src) \<union> set (doc_delta_log doc))"
    "doc_delta_log src = genesis_of src # xs @ ys"
  shows "op_reach E (deliver E xs doc) \<and> accepted E xs doc \<and>
    set (doc_delta_log doc) \<subseteq> set (doc_delta_log (deliver E xs doc)) \<and>
    set (doc_delta_log (deliver E xs doc)) \<subseteq> set (doc_delta_log doc) \<union> set xs \<and>
    delta_id E ` set xs \<subseteq> delta_id E ` set (doc_delta_log (deliver E xs doc))"
  using assms(6)
proof (induction xs arbitrary: ys rule: rev_induct)
  case Nil
  then show ?case by (simp add: deliver_def accepted_def assms(3))
next
  case (snoc d xs)
  let ?doc = "deliver E xs doc"
  have IH: "op_reach E ?doc" "accepted E xs doc" "set (doc_delta_log doc) \<subseteq> set (doc_delta_log ?doc)"
    "set (doc_delta_log ?doc) \<subseteq> set (doc_delta_log doc) \<union> set xs"
    "delta_id E ` set xs \<subseteq> delta_id E ` set (doc_delta_log ?doc)"
    using snoc.IH [of "d # ys"] snoc.prems by simp_all
  have log: "doc_delta_log src = (genesis_of src # xs) @ d # ys" using snoc.prems by simp
  have ok: "doc_ok E src" "doc_ok E ?doc" using assms(2) IH(1) by (simp_all add: op_reach_ok)
  have "genesis_of doc \<in> set (doc_delta_log doc)" using op_reach_fold [OF assms(3)] by (simp add: genesis_of_def)
  with IH(3) have gen: "genesis_of doc \<in> set (doc_delta_log ?doc)" "genesis_of src \<in> set (doc_delta_log src)"
    unfolding log by auto
  have did: "doc_did ?doc = doc_did src"
    using gen doc_okD(3) [OF ok(1)] doc_okD(3) [OF ok(2)] payload_eqD(1) [OF assms(4)] by metis
  have "delta_id E (genesis_of src) \<in> delta_id E ` set (doc_delta_log ?doc)"
    using delta_id_payload [OF assms(4)] gen(1) by (metis image_eqI)
  then have "insert (delta_id E (genesis_of src)) (delta_id E ` set xs) \<subseteq> delta_id E ` set (doc_delta_log ?doc)"
    using IH(5) by simp
  then have "set (sd_parents d) \<subseteq> delta_id E ` set (doc_delta_log ?doc)"
    using op_reach_causal_order [OF assms(2) log] unfolding list.set(2) image_insert by (rule order_trans [rotated])
  moreover have "set (doc_delta_log src) \<union> set (doc_delta_log ?doc) \<subseteq> set (doc_delta_log src) \<union> set (doc_delta_log doc)"
    using IH(4) log by auto
  ultimately have "admissible E ?doc d" "well_shaped E (doc_did ?doc) d"
    using logged_admissible [OF assms(1,2) IH(1) did collision_free_subset [OF _ assms(5)]] log by simp_all
  note step = merge_admissible [OF ok(2) this]
  have next_doc: "deliver E (xs @ [d]) doc = snd (merge E ?doc d)" by (simp add: deliver_def)
  have "delta_id E ` set (xs @ [d]) \<subseteq> delta_id E ` set (doc_delta_log (snd (merge E ?doc d)))"
    using order_trans [OF IH(5) image_mono [OF step(2)]] step(4) by simp
  moreover have "set (doc_delta_log (snd (merge E ?doc d))) \<subseteq> set (doc_delta_log doc) \<union> set (xs @ [d])"
    using step(3) IH(4) by auto
  ultimately show ?case
    unfolding next_doc
    using accepted_snoc [OF IH(2) step(1)] order_trans [OF IH(3) step(2)] op_reach_merge [OF IH(1)] by blast
qed

lemma deliver_all:
  assumes "crdts_laws E" "op_reach E src" "op_reach E doc" "payload (genesis_of src) = payload (genesis_of doc)"
    "collision_free E (set (doc_delta_log src) \<union> set (doc_delta_log doc))"
  shows "op_reach E (deliver E (tl (doc_delta_log src)) doc)" "accepted E (tl (doc_delta_log src)) doc"
    "set (doc_delta_log (deliver E (tl (doc_delta_log src)) doc)) \<subseteq> set (doc_delta_log doc) \<union> set (doc_delta_log src)"
    "payload ` set (doc_delta_log (deliver E (tl (doc_delta_log src)) doc))
       = payload ` (set (doc_delta_log doc) \<union> set (doc_delta_log src))"
proof -
  let ?xs = "tl (doc_delta_log src)" and ?doc = "deliver E (tl (doc_delta_log src)) doc"
  have some: "doc_delta_log src \<noteq> []" "doc_delta_log doc \<noteq> []"
    using op_reach_fold [OF assms(2)] op_reach_fold [OF assms(3)] by simp_all
  have log: "doc_delta_log src = genesis_of src # ?xs @ []" using some(1) by (simp add: genesis_of_def)
  note res = deliver_prefix [OF assms log]
  show "op_reach E ?doc" "accepted E ?xs doc" using res by blast+
  have set_src: "set (doc_delta_log src) = insert (genesis_of src) (set ?xs)" by (subst log) simp
  show sub: "set (doc_delta_log ?doc) \<subseteq> set (doc_delta_log doc) \<union> set (doc_delta_log src)"
    using res set_src by blast
  have "payload x \<in> payload ` set (doc_delta_log ?doc)" if x: "x \<in> set (doc_delta_log doc) \<union> set (doc_delta_log src)" for x
  proof -
    consider "x \<in> set (doc_delta_log doc)" | "x = genesis_of src" | "x \<in> set ?xs" using x set_src by blast
    then show ?thesis
    proof cases
      case 2
      have "genesis_of doc \<in> set (doc_delta_log ?doc)" using res some(2) by (auto simp: genesis_of_def)
      then show ?thesis using assms(4) 2 by (metis image_eqI)
    next
      case 3
      then obtain y where y: "y \<in> set (doc_delta_log ?doc)" "delta_id E x = delta_id E y" using res by blast
      with sub x have "payload x = payload y" by (intro collision_freeD [OF assms(5)]) blast+
      with y(1) show ?thesis by blast
    qed (use res in blast)
  qed
  with sub show "payload ` set (doc_delta_log ?doc) = payload ` (set (doc_delta_log doc) \<union> set (doc_delta_log src))" by blast
qed

lemma exchange_replicated:
  assumes "crdts_laws E" "op_reach E a" "op_reach E b" "payload (genesis_of a) = payload (genesis_of b)"
    "stamps_ok E (payload ` (set (doc_delta_log a) \<union> set (doc_delta_log b)))"
    "collision_free E (set (doc_delta_log a) \<union> set (doc_delta_log b))"
  shows "accepted E (tl (doc_delta_log b)) a \<and> accepted E (tl (doc_delta_log a)) b \<and>
    replicated (deliver E (tl (doc_delta_log b)) a) = replicated (deliver E (tl (doc_delta_log a)) b) \<and>
    doc_frontier (deliver E (tl (doc_delta_log b)) a) = doc_frontier (deliver E (tl (doc_delta_log a)) b)"
proof -
  have free': "collision_free E (set (doc_delta_log b) \<union> set (doc_delta_log a))"
    using assms(6) by (simp add: Un_commute)
  note ab = deliver_all [OF assms(1,3,2) assms(4) [symmetric] free'] and ba = deliver_all [OF assms(1-4,6)]
  let ?a = "deliver E (tl (doc_delta_log b)) a" and ?b = "deliver E (tl (doc_delta_log a)) b"
  have same: "same_payloads ?a ?b" unfolding same_payloads_def ab(4) ba(4) by (simp add: Un_commute)
  have "collision_free E (set (doc_delta_log ?a) \<union> set (doc_delta_log ?b))"
    using ab(3) ba(3) by (intro collision_free_subset [OF _ assms(6)]) blast
  from docs_converge [OF assms(1) ab(1) ba(1) same _ this] assms(5)
  have "replicated ?a = replicated ?b \<and> doc_frontier ?a = doc_frontier ?b" by (simp add: ab(4))
  with ab(2) ba(2) show ?thesis by blast
qed

section \<open>Properties\<close>

text \<open>
  C1: Strong eventual consistency.  Two replicas built from a creation by admitted deltas that
  applied the same payloads, in whatever orders, agree in every replicated field (keys, services
  with their version vector, document data, aliases, active key, revocations, revoked keys,
  deactivation, creation and update times), in the frontier and in the content hash; provided the
  hash has no collision among their deltas and the timestamps of the writes identify them.
\<close>

theorem strong_eventual_consistency:
  assumes "crdts_laws E" "op_reach E doc" "op_reach E doc'"
    "payload ` set (doc_delta_log doc) = payload ` set (doc_delta_log doc')"
    "stamps_ok E (payload ` set (doc_delta_log doc))"
    "collision_free E (set (doc_delta_log doc) \<union> set (doc_delta_log doc'))"
  shows "replicated doc = replicated doc' \<and> doc_frontier doc = doc_frontier doc' \<and>
    doc_content_hash E doc = doc_content_hash E doc'"
proof -
  have "same_payloads doc doc'" using assms(4) by (simp add: same_payloads_def)
  from docs_converge [OF assms(1-3) this assms(5,6)] show ?thesis
    using replicated_content_hash by blast
qed

text \<open>
  C2: Exchange of histories always succeeds and makes replicas equal.  When two replicas of one
  identity send each other the deltas of their logs in log order, every single merge is accepted,
  none is left pending, and afterwards both hold the same replicated state, frontier and content
  hash.
\<close>

theorem exchange_converges:
  assumes "crdts_laws E" "op_reach E a" "op_reach E b" "payload (genesis_of a) = payload (genesis_of b)"
    "stamps_ok E (payload ` (set (doc_delta_log a) \<union> set (doc_delta_log b)))"
    "collision_free E (set (doc_delta_log a) \<union> set (doc_delta_log b))"
  shows "let a' = deliver E (tl (doc_delta_log b)) a; b' = deliver E (tl (doc_delta_log a)) b
    in accepted E (tl (doc_delta_log b)) a \<and> accepted E (tl (doc_delta_log a)) b \<and>
       replicated a' = replicated b' \<and> doc_frontier a' = doc_frontier b' \<and>
       doc_content_hash E a' = doc_content_hash E b'"
  using exchange_replicated [OF assms] replicated_content_hash unfolding Let_def by blast

text \<open>
  C19: The service endpoints refine their specification.  In a document built by admitted deltas a
  service is live under a timestamp exactly when some logged delta added it at that time and no
  logged removal of its id has that addition in its causal past; an addition concurrent to the
  removal survives.
\<close>

theorem services_refine_history:
  assumes "op_reach E doc" "stamps_ok E (payload ` set (doc_delta_log doc))"
  shows "fmlookup (svc_live (doc_service_endpoints doc)) t = Some e \<longleftrightarrow>
    (\<exists>x\<in>set (doc_delta_log doc). sd_op x = AddServiceEndpoint (se_id e) (se_service_type e) (se_endpoint e) \<and> sd_timestamp x = t) \<and>
    \<not> (\<exists>r\<in>set (doc_delta_log doc). \<exists>i h x ty ep. sd_op r = RemoveServiceEndpoint i \<and>
         h \<in> closure_of (doc_dag doc) (sd_parents r) \<and> dag_get (doc_dag doc) h = Some x \<and>
         sd_op x = AddServiceEndpoint i ty ep \<and> sd_timestamp x = t)"
proof -
  have "added doc t e \<longleftrightarrow>
      (\<exists>x\<in>set (doc_delta_log doc). sd_op x = AddServiceEndpoint (se_id e) (se_service_type e) (se_endpoint e) \<and> sd_timestamp x = t)"
    by (cases e) (auto simp: added_def)
  moreover have "cancelled doc t \<longleftrightarrow>
      (\<exists>r\<in>set (doc_delta_log doc). \<exists>i h x ty ep. sd_op r = RemoveServiceEndpoint i \<and>
         h \<in> closure_of (doc_dag doc) (sd_parents r) \<and> dag_get (doc_dag doc) h = Some x \<and>
         sd_op x = AddServiceEndpoint i ty ep \<and> sd_timestamp x = t)"
    unfolding cancelled_def observed_adds_mem by blast
  ultimately show ?thesis unfolding live_endpoints [OF assms] by simp
qed

section \<open>Examples\<close>

text \<open>A second update, concurrent to the first, of the example document.\<close>

definition ex_service :: signed_delta where
  "ex_service =
     \<lparr>sd_did = ex_did, sd_timestamp = HlcTimestamp 6 0 0x626262,
      sd_op = AddServiceEndpoint ''#s'' ''T'' ''u'', sd_parents = [DeltaHash [char_of (0::nat)]],
      sd_proof = \<lparr>pr_suite = EcdsaSecp256k1Signature2019, pr_verification_method = ''did:crdt:b#key-0'',
        pr_created = '''', pr_proof_value = ''ubbb''\<rparr>\<rparr>"

lemma ex_op_reach: "op_reach ex_externs ex_doc"
  by (rule op_new [OF ex_new])

lemma ex_service_admissible: "admissible ex_externs ex_doc ex_service"
proof -
  have "doc_did ex_doc = ex_did" by (simp add: ex_doc_def apply_delta_history doc_blank_def)
  moreover have "verify_causal ex_service (doc_dag ex_doc) = Valid"
    by (simp add: ex_doc_dag verify_causal_def scan_closure_def ex_service_def push_parents_def note_op_def)
  ultimately show ?thesis
    unfolding admissible_iff [OF ex_op_reach ex_crdts_laws]
    by (simp add: well_shaped_def ex_service_def str_bytes_def MAX_DELTA_SIZE_def recognise_op_def)
qed

abbreviation ex_a :: document where "ex_a \<equiv> apply_delta ex_externs ex_doc ex_update"
abbreviation ex_b :: document where "ex_b \<equiv> apply_delta ex_externs ex_doc ex_service"

lemma ex_a_reach: "op_reach ex_externs ex_a"
  by (rule op_step [OF ex_op_reach ex_fresh ex_admissible])

lemma ex_b_reach: "op_reach ex_externs ex_b"
  by (rule op_step [OF ex_op_reach _ ex_service_admissible])
    (simp add: ex_doc_dag dag_contains_def ex_service_def)

lemma ex_doc_log: "doc_delta_log ex_doc = [ex_creation]"
  by (simp add: ex_doc_def apply_delta_history doc_blank_def)

lemma ex_logs: "doc_delta_log ex_a = [ex_creation, ex_update]" "doc_delta_log ex_b = [ex_creation, ex_service]"
  by (simp_all add: apply_delta_history ex_doc_log)

lemma ex_stamps_ok: "stamps_ok ex_externs (payload ` {ex_creation, ex_update, ex_service})"
  by (simp add: stamps_ok_def payload_def ex_update_def ex_service_def hlc_default_def hlc_less_iff)

lemma ex_pair_free: "collision_free ex_externs {ex_creation, ex_update, ex_service}"
  by (simp add: collision_free_def ex_update_def ex_service_def hlc_default_def)

theorem exchange_converges_witness:
  "accepted ex_externs [ex_service] ex_a \<and> accepted ex_externs [ex_update] ex_b \<and>
   replicated (deliver ex_externs [ex_service] ex_a) = replicated (deliver ex_externs [ex_update] ex_b)"
proof -
  have "set (doc_delta_log ex_a) \<union> set (doc_delta_log ex_b) = {ex_creation, ex_update, ex_service}"
    by (auto simp: ex_logs)
  then show ?thesis
    using exchange_converges [OF ex_crdts_laws ex_a_reach ex_b_reach] ex_stamps_ok ex_pair_free
    by (simp add: genesis_of_def ex_logs Let_def)
qed

theorem strong_eventual_consistency_witness:
  "replicated (deliver ex_externs [ex_service] ex_a) = replicated (deliver ex_externs [ex_update] ex_b) \<and>
   doc_content_hash ex_externs (deliver ex_externs [ex_service] ex_a)
     = doc_content_hash ex_externs (deliver ex_externs [ex_update] ex_b)"
proof -
  have gen: "payload (genesis_of ex_a) = payload (genesis_of ex_b)"
    "tl (doc_delta_log ex_a) = [ex_update]" "tl (doc_delta_log ex_b) = [ex_service]"
    by (simp_all add: genesis_of_def ex_logs)
  have logs: "set (doc_delta_log ex_a) \<union> set (doc_delta_log ex_b) = {ex_creation, ex_update, ex_service}"
    "set (doc_delta_log ex_b) \<union> set (doc_delta_log ex_a) = {ex_creation, ex_update, ex_service}"
    by (auto simp: ex_logs)
  note ba = deliver_all [OF ex_crdts_laws ex_a_reach ex_b_reach gen(1), unfolded gen logs, OF ex_pair_free]
    and ab = deliver_all [OF ex_crdts_laws ex_b_reach ex_a_reach gen(1) [symmetric], unfolded gen logs, OF ex_pair_free]
  from strong_eventual_consistency [OF ex_crdts_laws ab(1) ba(1)] show ?thesis
    using ex_stamps_ok ab(3) ba(3) collision_free_subset [OF _ ex_pair_free]
    unfolding ab(4) ba(4) by simp
qed

theorem services_refine_history_witness:
  "fmlookup (svc_live (doc_service_endpoints ex_b)) (HlcTimestamp 6 0 0x626262) = Some (ServiceEntry ''#s'' ''T'' ''u'')"
proof -
  have "stamps_ok ex_externs (payload ` set (doc_delta_log ex_b))"
    by (rule stamps_ok_subset [OF _ ex_stamps_ok]) (auto simp: ex_logs)
  from services_refine_history [OF ex_b_reach this] show ?thesis
    by (simp add: ex_logs) (simp add: ex_service_def)
qed

end
