(* ===== verification/Authentic.thy ===== *)
theory Authentic
  imports Eventual
begin

text \<open>
  Documents whose history is authentic: beyond admission, every delta but the first was merged with a
  signature that verified against the document it was merged into (the verified merges of
  \<open>src/core/document.rs\<close> and the submission of \<open>src/service/handlers.rs\<close>).  When a key id names one
  key, such a signature verifies again at every replica that holds the key, so a replica never has to
  trust the peer that hands a history over.
\<close>

section \<open>Histories of verified deltas\<close>

inductive authentic :: "externs \<Rightarrow> document \<Rightarrow> bool" for E where
  auth_new: "doc_new E pk = Inr (doc, creation) \<Longrightarrow> authentic E doc"
| auth_step: "\<lbrakk>authentic E doc; \<not> dag_contains (doc_dag doc) (delta_id E d);
    verify_signature E d doc = Inr (); admissible E doc d\<rbrakk> \<Longrightarrow> authentic E (apply_delta E doc d)"

inductive_cases authenticE: "authentic E doc"

lemma authentic_reach: "authentic E doc \<Longrightarrow> op_reach E doc"
  by (induction rule: authentic.induct) (auto intro: op_new op_step)

lemmas authentic_ok = op_reach_ok [OF authentic_reach]

lemma authentic_merge:
  assumes "authentic E doc" "verify_signature E d doc = Inr ()"
  shows "authentic E (snd (merge E doc d))"
  by (rule merge_cases [of E doc d]) (use assms in \<open>auto intro: auth_step\<close>)

lemma authentic_chain: "verified_chain E D doc doc' \<Longrightarrow> authentic E doc \<Longrightarrow> authentic E doc'"
  by (induction rule: verified_chain.induct) (auto intro: auth_step)

section \<open>The keys of a document\<close>

text \<open>Every key entry comes from a logged delta.\<close>

lemma op_reach_entry:
  assumes "op_reach E doc" "crdts_laws E" "e |\<in>| doc_verification_methods doc"
  shows "\<exists>x\<in>set (doc_delta_log doc). e |\<in>| op_vms (sd_op x)"
  using assms(1,3)
proof (induction rule: op_reach.induct)
  case (op_new pk doc creation)
  from doc_new_effect [OF this(1)] obtain i where doc: "doc = apply_delta E (genesis_blank i) creation" by blast
  from op_new(2) show ?case
    unfolding doc apply_delta_gsets [OF assms(2)] by (simp add: apply_delta_history doc_blank_def vm_new_def)
next
  case (op_step doc d)
  then show ?case by (auto simp: apply_delta_gsets [OF assms(2)] apply_delta_history)
qed

text \<open>
  In a set of deltas a key id names one key.  The code does not enforce this: with two entries under
  one id it reads the first in sort order, and a signature under the other key is refused.
\<close>

definition one_key_per_id :: "signed_delta set \<Rightarrow> bool" where
  "one_key_per_id D \<longleftrightarrow> (\<forall>x\<in>D. \<forall>y\<in>D. \<forall>e e'. e |\<in>| op_vms (sd_op x) \<longrightarrow> e' |\<in>| op_vms (sd_op y) \<longrightarrow> vme_id e = vme_id e' \<longrightarrow>
     vme_public_key_multibase e = vme_public_key_multibase e')"

lemma one_key_per_id_subset: "D \<subseteq> D' \<Longrightarrow> one_key_per_id D' \<Longrightarrow> one_key_per_id D"
  unfolding one_key_per_id_def by blast

section \<open>Signatures verify everywhere\<close>

text \<open>What a verified signature depends on: the key that the document files under the claimed id.\<close>

lemma verify_signature_entry:
  assumes "verify_signature E d doc = Inr ()" "crdts_laws E" "doc_verification_methods doc \<noteq> {||}"
  obtains e where "e |\<in>| doc_verification_methods doc" "vme_id e = pr_verification_method (sd_proof d)"
    "\<And>doc'. crdts_laws E \<Longrightarrow> (\<And>e'. e' |\<in>| doc_verification_methods doc' \<Longrightarrow> vme_id e' = vme_id e \<Longrightarrow>
        vme_public_key_multibase e' = vme_public_key_multibase e) \<Longrightarrow>
      vm_contains_id E (doc_verification_methods doc') (vme_id e) \<Longrightarrow> verify_signature E d doc' = Inr ()"
proof -
  let ?entries = "\<lambda>doc. vm_entries E (doc_verification_methods doc)" and ?k = "pr_verification_method (sd_proof d)"
  note set = vm_entries_set [OF assms(2)]
  have proof_value: "pr_proof_value (sd_proof d) \<noteq> []"
    using assms(1,3) set by (auto simp: verify_signature_def split: if_splits)
  with assms(1) obtain e where e: "find (\<lambda>e. vme_id e = ?k) (?entries doc) = Some e"
    by (auto simp: verify_signature_def split: if_splits sum.splits option.splits)
  then have mem: "e |\<in>| doc_verification_methods doc" "vme_id e = ?k"
    using set(1) [of "doc_verification_methods doc"] by (auto simp: find_Some_iff dest: nth_mem)
  show ?thesis
  proof (rule that [OF mem])
    fix doc' :: document
    assume key: "\<And>e'. e' |\<in>| doc_verification_methods doc' \<Longrightarrow> vme_id e' = vme_id e \<Longrightarrow>
        vme_public_key_multibase e' = vme_public_key_multibase e"
      and held: "vm_contains_id E (doc_verification_methods doc') (vme_id e)"
    from held obtain e' where e': "find (\<lambda>e. vme_id e = ?k) (?entries doc') = Some e'"
      using mem(2) by (cases "find (\<lambda>e. vme_id e = ?k) (?entries doc')")
        (auto simp: vm_contains_id_def list_ex_iff find_None_iff)
    then have "e' |\<in>| doc_verification_methods doc'" "vme_id e' = ?k"
      using set(1) [of "doc_verification_methods doc'"] by (auto simp: find_Some_iff dest: nth_mem)
    with key mem(2) have "vme_public_key_multibase e' = vme_public_key_multibase e" by simp
    with assms(1) e e' proof_value show "verify_signature E d doc' = Inr ()"
      by (auto simp: verify_signature_def split: if_splits sum.splits)
  qed
qed

text \<open>Every delta but the first was verified at some earlier state of the document.\<close>

lemma authentic_verified:
  assumes "authentic E doc" "crdts_laws E" "d \<in> set (tl (doc_delta_log doc))"
  shows "\<exists>x. op_reach E x \<and> verify_signature E d x = Inr () \<and>
    doc_verification_methods x |\<subseteq>| doc_verification_methods doc"
  using assms(1,3)
proof (induction rule: authentic.induct)
  case (auth_new pk doc creation)
  from doc_new_effect [OF this(1)] obtain i where doc: "doc = apply_delta E (genesis_blank i) creation" by blast
  with auth_new(2) show ?case by (simp add: apply_delta_history doc_blank_def)
next
  case (auth_step doc d')
  note grow = apply_delta_gsets(1) [OF assms(2), of doc d']
  have reach: "op_reach E doc" using auth_step(1) by (rule authentic_reach)
  have "doc_delta_log doc \<noteq> []" using op_reach_fold [OF reach] by simp
  with auth_step.prems consider "d = d'" | "d \<in> set (tl (doc_delta_log doc))" by (auto simp: apply_delta_history)
  then show ?case
  proof cases
    case 1
    with auth_step(3) reach grow show ?thesis by auto
  next
    case 2
    with auth_step.IH grow show ?thesis by auto
  qed
qed

text \<open>
  The signatures of an authentic history verify at every replica on which the signer's key is
  materialised, as long as no key id is used for two keys.
\<close>

lemma authentic_signatures:
  assumes "authentic E b" "op_reach E x" "crdts_laws E"
    "one_key_per_id (set (doc_delta_log b) \<union> set (doc_delta_log x))" "d \<in> set (tl (doc_delta_log b))"
    "vm_contains_id E (doc_verification_methods x) (pr_verification_method (sd_proof d))"
  shows "verify_signature E d x = Inr ()"
proof -
  from authentic_verified [OF assms(1,3,5)] obtain y where y: "op_reach E y" "verify_signature E d y = Inr ()"
    "doc_verification_methods y |\<subseteq>| doc_verification_methods b" by blast
  from verify_signature_entry [OF y(2) assms(3) op_reach_has_key [OF y(1) assms(3)]]
  obtain e where e: "e |\<in>| doc_verification_methods y" "vme_id e = pr_verification_method (sd_proof d)"
    "\<And>doc'. (\<And>e'. e' |\<in>| doc_verification_methods doc' \<Longrightarrow> vme_id e' = vme_id e \<Longrightarrow>
        vme_public_key_multibase e' = vme_public_key_multibase e) \<Longrightarrow>
      vm_contains_id E (doc_verification_methods doc') (vme_id e) \<Longrightarrow> verify_signature E d doc' = Inr ()"
    using assms(3) by metis
  show ?thesis
  proof (rule e(3))
    show "vm_contains_id E (doc_verification_methods x) (vme_id e)" using assms(6) e(2) by simp
    fix e'
    assume "e' |\<in>| doc_verification_methods x" "vme_id e' = vme_id e"
    moreover from this(1) obtain u where "u \<in> set (doc_delta_log x)" "e' |\<in>| op_vms (sd_op u)"
      using op_reach_entry [OF assms(2,3)] by blast
    moreover obtain v where "v \<in> set (doc_delta_log b)" "e |\<in>| op_vms (sd_op v)"
      using op_reach_entry [OF authentic_reach [OF assms(1)] assms(3)] y(3) e(1) by blast
    ultimately show "vme_public_key_multibase e' = vme_public_key_multibase e"
      using assms(4) unfolding one_key_per_id_def by blast
  qed
qed

end
