(* ===== verification/Gossip.thy ===== *)
theory Gossip
  imports Authentic
begin

text \<open>
  The sync protocol (\<open>src/sync/protocol.rs\<close>, \<open>src/sync/gossip.rs\<close> and the message loop of
  \<open>src/sync/live.rs\<close>): the messages, the admission policy for unknown identifiers, the routing
  state, genesis bootstrap, and the merge of inbound deltas with its retry loop.  The gossip
  transport is not modelled; what a node broadcasts is part of the result of a step.
\<close>

section \<open>Messages and policy\<close>

type_synonym blake3_hash = bytes

datatype sync_message =
    Announce did blake3_hash hlc_timestamp
  | Request did "delta_hash list"
  | Deltas did "signed_delta list"

record bootstrap_policy =
  bp_wanted :: "did fset"
  bp_replicate_all :: bool

definition solicited_only :: bootstrap_policy where
  "solicited_only = \<lparr>bp_wanted = {||}, bp_replicate_all = False\<rparr>"

definition replicate_all :: bootstrap_policy where
  "replicate_all = \<lparr>bp_wanted = {||}, bp_replicate_all = True\<rparr>"

definition wants :: "bootstrap_policy \<Rightarrow> did \<Rightarrow> bool" where
  "wants p i \<longleftrightarrow> bp_replicate_all p \<or> i |\<in>| bp_wanted p"

definition add_wanted :: "bootstrap_policy \<Rightarrow> did \<Rightarrow> bootstrap_policy" where
  "add_wanted p i = p\<lparr>bp_wanted := finsert i (bp_wanted p)\<rparr>"

definition remove_wanted :: "bootstrap_policy \<Rightarrow> did \<Rightarrow> bootstrap_policy" where
  "remove_wanted p i = p\<lparr>bp_wanted := bp_wanted p |-| {|i|}\<rparr>"

datatype bootstrap_msg =
    MultipleGenesis
  | GenesisOpNotAdd
  | NewFailed error
  | ReconstructedDid did did
  | HashFailed error
  | GenesisHashMismatch

datatype bootstrap_error = PartialHistory | BootstrapFailed bootstrap_msg

datatype merge_outcome = Noop | Merged | Bootstrapped did | BootstrapError | IgnoredUnsolicited

type_synonym doc_store = "(did, document) fmap"

section \<open>Merging inbound deltas\<close>

text \<open>One pass over the pending deltas; those with missing ancestors are kept for the next pass.\<close>

fun merge_pass ::
    "externs \<Rightarrow> signed_delta list \<Rightarrow> document \<Rightarrow> bool \<Rightarrow> signed_delta list \<Rightarrow> document \<times> bool \<times> signed_delta list" where
  "merge_pass E [] doc progressed still = (doc, progressed, still)"
| "merge_pass E (d # ds) doc progressed still =
     (case merge_verified_delta E doc d of
        (Inl (DeltaPending _), doc') \<Rightarrow> merge_pass E ds doc' progressed (still @ [d])
      | (_, doc') \<Rightarrow> merge_pass E ds doc' True still)"

lemma merge_pass_length:
  "merge_pass E ds doc p st = (doc', p', st') \<Longrightarrow>
     length st' \<le> length st + length ds \<and> (p' \<longrightarrow> p \<or> length st' < length st + length ds)"
proof (induction ds arbitrary: doc p st)
  case (Cons d ds)
  obtain r x where r: "merge_verified_delta E doc d = (r, x)" by fastforce
  show ?case
  proof (cases "\<exists>ms. r = Inl (DeltaPending ms)")
    case True
    with r Cons.prems Cons.IH [of x p "st @ [d]"] show ?thesis by auto
  next
    case False
    with r Cons.prems have "merge_pass E ds x True st = (doc', p', st')" by (auto split: sum.splits error.splits)
    with Cons.IH [of x True st] show ?thesis by simp
  qed
qed auto

function merge_retry :: "externs \<Rightarrow> signed_delta list \<Rightarrow> document \<Rightarrow> document" where
  "merge_retry E batch doc =
     (case merge_pass E batch doc False [] of
        (doc', progressed, still) \<Rightarrow>
          if still = [] \<or> \<not> progressed then doc' else merge_retry E still doc')"
  by pat_completeness auto
termination
proof (relation "measure (\<lambda>(E, batch, doc). length batch)", goal_cases)
  case (2 E batch doc doc' y progressed still)
  then have "merge_pass E batch doc False [] = (doc', progressed, still)" "progressed" by auto
  from merge_pass_length [OF this(1)] this(2) show ?case by auto
qed simp

declare merge_retry.simps [simp del]

text \<open>The path for an identifier that the store holds.\<close>

definition merge_known :: "externs \<Rightarrow> doc_store \<Rightarrow> did \<Rightarrow> signed_delta list \<Rightarrow> doc_store" where
  "merge_known E docs i deltas =
     (case fmlookup docs i of
        None \<Rightarrow> docs
      | Some doc \<Rightarrow> fmupd i (merge_retry E deltas doc) docs)"

section \<open>Genesis bootstrap\<close>

definition genesis_bootstrap ::
    "externs \<Rightarrow> doc_store \<Rightarrow> did \<Rightarrow> signed_delta list \<Rightarrow> (bootstrap_error + unit) \<times> doc_store" where
  "genesis_bootstrap E docs i deltas =
     (case filter (\<lambda>d. sd_parents d = []) deltas of
        [] \<Rightarrow> (Inl PartialHistory, docs)
      | [genesis] \<Rightarrow>
          (case sd_op genesis of
             AddVerificationMethod _ pk _ _ \<Rightarrow>
               (case doc_new E pk of
                  Inl e \<Rightarrow> (Inl (BootstrapFailed (NewFailed e)), docs)
                | Inr (reconstructed, computed) \<Rightarrow>
                    if doc_did reconstructed \<noteq> i
                    then (Inl (BootstrapFailed (ReconstructedDid (doc_did reconstructed) i)), docs)
                    else (case content_hash E genesis of
                      Inl e \<Rightarrow> (Inl (BootstrapFailed (HashFailed e)), docs)
                    | Inr received \<Rightarrow>
                        (case content_hash E computed of
                           Inl e \<Rightarrow> (Inl (BootstrapFailed (HashFailed e)), docs)
                         | Inr expected \<Rightarrow>
                             if received \<noteq> expected
                             then (Inl (BootstrapFailed GenesisHashMismatch), docs)
                             else (Inr (),
                               merge_known E (fmupd i reconstructed docs) i
                                 (filter (\<lambda>d. sd_parents d \<noteq> []) deltas)))))
           | _ \<Rightarrow> (Inl (BootstrapFailed GenesisOpNotAdd), docs))
      | _ \<Rightarrow> (Inl (BootstrapFailed MultipleGenesis), docs))"

definition merge_inbound ::
    "externs \<Rightarrow> doc_store \<Rightarrow> sync_message \<Rightarrow> bootstrap_policy \<Rightarrow> merge_outcome \<times> doc_store" where
  "merge_inbound E docs msg policy =
     (case msg of
        Deltas i deltas \<Rightarrow>
          if fmlookup docs i = None then
            if \<not> wants policy i then (IgnoredUnsolicited, docs)
            else (case genesis_bootstrap E docs i deltas of
                    (Inr _, docs') \<Rightarrow> (Bootstrapped i, docs')
                  | (Inl _, docs') \<Rightarrow> (BootstrapError, docs'))
          else (Merged, merge_known E docs i deltas)
      | _ \<Rightarrow> (Noop, docs))"

section \<open>Routing\<close>

record gossip_state =
  gossip_seen :: "(did \<times> blake3_hash) fset"

definition gossip_new :: gossip_state where
  "gossip_new = \<lparr>gossip_seen = {||}\<rparr>"

definition mark_seen :: "gossip_state \<Rightarrow> did \<Rightarrow> blake3_hash \<Rightarrow> bool \<times> gossip_state" where
  "mark_seen st i h = ((i, h) |\<notin>| gossip_seen st, st\<lparr>gossip_seen := finsert (i, h) (gossip_seen st)\<rparr>)"

definition handle ::
    "externs \<Rightarrow> gossip_state \<Rightarrow> sync_message \<Rightarrow> doc_store \<Rightarrow> bootstrap_policy
     \<Rightarrow> sync_message list \<times> sync_message option \<times> gossip_state" where
  "handle E st msg docs policy =
     (case msg of
        Announce i h _ \<Rightarrow>
          (case mark_seen st i h of
             (False, st') \<Rightarrow> ([], None, st')
           | (True, st') \<Rightarrow>
               (case fmlookup docs i of
                  Some doc \<Rightarrow> ([Request i (doc_frontier doc)], None, st')
                | None \<Rightarrow> if wants policy i then ([Request i []], None, st') else ([], None, st')))
      | Request i frontier \<Rightarrow>
          (case fmlookup docs i of
             None \<Rightarrow> ([], None, st)
           | Some doc \<Rightarrow>
               (case doc_deltas_for_peer E doc frontier of
                  Inr ds \<Rightarrow> if ds \<noteq> [] then ([Deltas i ds], None, st) else ([], None, st)
                | Inl _ \<Rightarrow> ([], None, st)))
      | Deltas i ds \<Rightarrow> ([], Some (Deltas i ds), st))"

text \<open>An announcement of the current state: the messages to broadcast and the routing state.\<close>

definition announce ::
    "externs \<Rightarrow> gossip_state \<Rightarrow> document \<Rightarrow> hlc_timestamp \<Rightarrow> (error + sync_message list) \<times> gossip_state" where
  "announce E st doc clock =
     (case doc_content_hash E doc of
        Inl e \<Rightarrow> (Inl e, st)
      | Inr h \<Rightarrow>
          (case mark_seen st (doc_did doc) h of
             (False, st') \<Rightarrow> (Inr [], st')
           | (True, st') \<Rightarrow> (Inr [Announce (doc_did doc) h clock], st')))"

section \<open>The message loop\<close>

text \<open>
  One turn of the loop of a live node on a received payload.  The decoder of the payload is a
  parameter; the effects are the broadcasts, the snapshot that is saved when the node has a
  durable store, and the identifier that is published when it has a DHT node.
\<close>

datatype live_effect = Broadcast sync_message | SaveSnapshot document | PublishDht did

record live_node =
  ln_docs :: doc_store
  ln_gossip :: gossip_state
  ln_policy :: bootstrap_policy
  ln_persistent :: bool
  ln_dht :: bool

definition run_loop_step ::
    "(bytes \<Rightarrow> sync_message option) \<Rightarrow> externs \<Rightarrow> live_node \<Rightarrow> bytes \<Rightarrow> live_effect list \<times> live_node" where
  "run_loop_step decode E n raw =
     (case decode raw of
        None \<Rightarrow> ([], n)
      | Some msg \<Rightarrow>
          (case handle E (ln_gossip n) msg (ln_docs n) (ln_policy n) of
             (outgoing, None, st) \<Rightarrow> (map Broadcast outgoing, n\<lparr>ln_gossip := st\<rparr>)
           | (outgoing, Some inbound, st) \<Rightarrow>
               let touched = (case inbound of Deltas i _ \<Rightarrow> Some i | _ \<Rightarrow> None);
                   (outcome, docs) = merge_inbound E (ln_docs n) inbound (ln_policy n);
                   changed = (case outcome of Merged \<Rightarrow> True | Bootstrapped _ \<Rightarrow> True | _ \<Rightarrow> False);
                   saves = (if changed \<and> ln_persistent n
                            then (case Option.bind touched (fmlookup docs) of None \<Rightarrow> [] | Some doc \<Rightarrow> [SaveSnapshot doc])
                            else []);
                   publishes = (case outcome of Bootstrapped i \<Rightarrow> if ln_dht n then [PublishDht i] else [] | _ \<Rightarrow> [])
               in (map Broadcast outgoing @ saves @ publishes, n\<lparr>ln_gossip := st, ln_docs := docs\<rparr>)))"

section \<open>What the retry loop achieves\<close>

lemma chain_trans: "verified_chain E D a b \<Longrightarrow> verified_chain E D b c \<Longrightarrow> verified_chain E D a c"
  by (induction rule: verified_chain.induct) (auto intro: verified_chain.intros)

lemma chain_mono: "verified_chain E D a b \<Longrightarrow> D \<subseteq> D' \<Longrightarrow> verified_chain E D' a b"
  by (induction rule: verified_chain.induct) (auto intro: verified_chain.intros)

lemma merge_verified_error: "merge_verified_delta E doc d = (Inl e, x) \<Longrightarrow> x = doc"
  by (cases rule: merge_verified_delta_cases [of E doc d]; cases rule: merge_cases [of E doc d]) auto

lemma merge_verified_chain:
  assumes "merge_verified_delta E doc d = (r, x)" "d \<in> D"
  shows "verified_chain E D doc x"
proof (cases rule: merge_verified_delta_cases [of E doc d])
  case 1
  show ?thesis
  proof (cases rule: merge_cases [of E doc d])
    case applied
    with 1 assms show ?thesis by (auto intro: verified_chain.intros)
  qed (use 1 assms in \<open>auto intro: chain_done\<close>)
qed (use assms in \<open>auto intro: chain_done\<close>)

text \<open>
  A delta of a batch is settled between two documents when, at some document on the way, its
  verified merge gave an answer other than that ancestors are missing.
\<close>

definition pending_at :: "externs \<Rightarrow> document \<Rightarrow> signed_delta \<Rightarrow> bool" where
  "pending_at E doc d \<longleftrightarrow> (\<exists>ms. fst (merge_verified_delta E doc d) = Inl (DeltaPending ms))"

definition settled :: "externs \<Rightarrow> signed_delta set \<Rightarrow> document \<Rightarrow> document \<Rightarrow> signed_delta \<Rightarrow> bool" where
  "settled E D doc doc' d \<longleftrightarrow> (\<exists>x. verified_chain E D doc x \<and> \<not> pending_at E x d \<and>
     verified_chain E D (snd (merge_verified_delta E x d)) doc')"

lemma settled_extend:
  "settled E D b c d \<Longrightarrow> verified_chain E D a b \<Longrightarrow> settled E D a c d"
  "settled E D a b d \<Longrightarrow> verified_chain E D b c \<Longrightarrow> settled E D a c d"
  unfolding settled_def by (blast intro: chain_trans)+

lemma merge_pass_Cons:
  "merge_pass E (d # ds) doc p st =
     (if pending_at E doc d then merge_pass E ds doc p (st @ [d])
      else merge_pass E ds (snd (merge_verified_delta E doc d)) True st)"
proof -
  obtain r x where r: "merge_verified_delta E doc d = (r, x)" by fastforce
  show ?thesis
  proof (cases "pending_at E doc d")
    case True
    then obtain ms where "r = Inl (DeltaPending ms)" using r by (auto simp: pending_at_def)
    with True r merge_verified_error [of E doc d _ x] show ?thesis by simp
  next
    case False
    with r show ?thesis by (auto simp: pending_at_def split: sum.splits error.splits)
  qed
qed

lemma merge_pass_progress: "merge_pass E ds doc True st = (doc', p', st') \<Longrightarrow> p'"
  by (induction ds arbitrary: doc st) (auto simp: merge_pass_Cons simp del: merge_pass.simps(2) split: if_splits)

lemma merge_pass_spec:
  assumes "merge_pass E ds doc p st = (doc', p', st')" "set ds \<subseteq> D"
  shows "\<exists>kept. st' = st @ kept \<and> set kept \<subseteq> set ds \<and> verified_chain E D doc doc' \<and>
     (\<forall>d\<in>set ds. d \<in> set kept \<or> settled E D doc doc' d) \<and>
     (\<not> p' \<longrightarrow> doc' = doc \<and> kept = ds \<and> (\<forall>d\<in>set ds. pending_at E doc d))"
  using assms
proof (induction ds arbitrary: doc p st)
  case Nil
  then show ?case by (auto intro: chain_done)
next
  case (Cons d ds)
  show ?case
  proof (cases "pending_at E doc d")
    case True
    then have "merge_pass E ds doc p (st @ [d]) = (doc', p', st')" using Cons.prems(1) by (simp only: merge_pass_Cons if_True)
    from Cons.IH [OF this] Cons.prems(2) obtain kept where
      "st' = (st @ [d]) @ kept" "set kept \<subseteq> set ds" "verified_chain E D doc doc'"
      "\<forall>d\<in>set ds. d \<in> set kept \<or> settled E D doc doc' d"
      "\<not> p' \<longrightarrow> doc' = doc \<and> kept = ds \<and> (\<forall>d\<in>set ds. pending_at E doc d)" by auto
    then show ?thesis using True by (intro exI [of _ "d # kept"]) auto
  next
    case False
    let ?x = "snd (merge_verified_delta E doc d)"
    have pass: "merge_pass E ds ?x True st = (doc', p', st')" using False Cons.prems(1) by (simp only: merge_pass_Cons if_False)
    from Cons.IH [OF this] Cons.prems(2) obtain kept where IH:
      "st' = st @ kept" "set kept \<subseteq> set ds" "verified_chain E D ?x doc'"
      "\<forall>d\<in>set ds. d \<in> set kept \<or> settled E D ?x doc' d" by auto
    have step: "verified_chain E D doc ?x"
      by (rule merge_verified_chain [of E doc d "fst (merge_verified_delta E doc d)"]) (use Cons.prems(2) in auto)
    have "settled E D doc doc' d" unfolding settled_def using False IH(3) chain_done by blast
    moreover have "\<forall>d\<in>set ds. d \<in> set kept \<or> settled E D doc doc' d" using IH(4) settled_extend(1) [OF _ step] by blast
    ultimately show ?thesis using IH chain_trans [OF step IH(3)] merge_pass_progress [OF pass]
      by (intro exI [of _ kept]) auto
  qed
qed

lemma merge_retry_spec:
  assumes "set ds \<subseteq> D"
  shows "verified_chain E D doc (merge_retry E ds doc) \<and>
    (\<forall>d\<in>set ds. settled E D doc (merge_retry E ds doc) d \<or> pending_at E (merge_retry E ds doc) d)"
  using assms
proof (induction E ds doc rule: merge_retry.induct)
  case (1 E batch doc)
  obtain doc' p still where pass: "merge_pass E batch doc False [] = (doc', p, still)" by (metis prod_cases3)
  from merge_pass_spec [OF pass 1(2)] have spec: "set still \<subseteq> set batch" "verified_chain E D doc doc'"
    "\<forall>d\<in>set batch. d \<in> set still \<or> settled E D doc doc' d"
    "\<not> p \<longrightarrow> doc' = doc \<and> still = batch \<and> (\<forall>d\<in>set batch. pending_at E doc d)" by auto
  show ?case
  proof (cases "still = [] \<or> \<not> p")
    case True
    then have "merge_retry E batch doc = doc'" using pass by (simp add: merge_retry.simps)
    with True spec show ?thesis by auto
  next
    case False
    then have next_pass: "merge_retry E batch doc = merge_retry E still doc'"
      by (subst merge_retry.simps) (simp add: pass)
    have IH: "verified_chain E D doc' (merge_retry E still doc')"
      "\<forall>d\<in>set still. settled E D doc' (merge_retry E still doc') d \<or> pending_at E (merge_retry E still doc') d"
      using "1.IH" [OF pass [symmetric] refl False] spec(1) 1(2) by auto
    show ?thesis unfolding next_pass
      using chain_trans [OF spec(2) IH(1)] IH(2) spec(3) settled_extend(1) [OF _ spec(2)] settled_extend(2) [OF _ IH(1)]
      by blast
  qed
qed

section \<open>A round of gossip\<close>

lemma op_reach_acyclic:
  assumes "op_reach E doc"
  shows "acyclic (dag_edges (dag_by_hash (doc_dag doc)))"
proof -
  have ok: "doc_ok E doc" using assms by (rule op_reach_ok)
  let ?ids = "map (delta_id E) (doc_delta_log doc)"
  let ?pos = "\<lambda>h. LEAST i. i < length ?ids \<and> ?ids ! i = h"
  have pos: "?pos (?ids ! i) = i" if i: "i < length ?ids" for i
    using i nth_eq_iff_index_eq [OF doc_okD(2) [OF ok]] by (intro Least_equality) auto
  have "(dag_edges (dag_by_hash (doc_dag doc)))\<inverse> \<subseteq> measure ?pos"
  proof (rule subrelI)
    fix p h
    assume "(p, h) \<in> (dag_edges (dag_by_hash (doc_dag doc)))\<inverse>"
    then obtain x where x: "dag_get (doc_dag doc) h = Some x" "p \<in> set (sd_parents x)"
      by (auto simp: dag_edges_def dag_get_def)
    then have "x \<in> set (doc_delta_log doc)" "delta_id E x = h" by (simp_all add: doc_get_iff [OF ok])
    then obtain i where i: "i < length (doc_delta_log doc)" "x = doc_delta_log doc ! i" "?ids ! i = h"
      by (auto simp: in_set_conv_nth)
    have "p \<in> delta_id E ` set (take i (doc_delta_log doc))"
      using op_reach_causal_order [OF assms id_take_nth_drop [OF i(1)]] x(2) i(2) by blast
    then obtain j where "j < i" "?ids ! j = p" using i(1) by (auto simp: in_set_conv_nth)
    with i pos [of i] pos [of j] show "(p, h) \<in> measure ?pos" by auto
  qed
  then show ?thesis by (metis acyclic_converse acyclic_subset wf_acyclic wf_measure)
qed

lemma op_reach_added_key:
  assumes "op_reach E doc" "crdts_laws E" "x \<in> set (doc_delta_log doc)" "adds_key k (sd_op x)"
  shows "vm_contains_id E (doc_verification_methods doc) k"
proof -
  note effect = apply_delta_gsets(1) [OF assms(2)]
  have new: "\<exists>e. e |\<in>| op_vms (sd_op d) \<and> vme_id e = k" if "adds_key k (sd_op d)" for d
    using that by (cases "sd_op d") (auto simp: op_vms_def)
  have "\<exists>e. e |\<in>| doc_verification_methods doc \<and> vme_id e = k" using assms(1,3,4)
  proof (induction rule: op_reach.induct)
    case (op_new pk doc creation)
    from doc_new_effect [OF this(1)] obtain i where doc: "doc = apply_delta E (genesis_blank i) creation" by blast
    have "doc_delta_log doc = [creation]" unfolding doc by (simp add: apply_delta_history doc_blank_def)
    with op_new(2,3) new [of x] show ?case unfolding doc effect by auto
  next
    case (op_step doc d)
    then show ?case using new [of d] by (auto simp: effect apply_delta_history)
  qed
  then show ?thesis by (simp add: vm_contains_id_def list_ex_iff vm_entries_def crdts_simps [OF assms(2)]) blast
qed

lemma verified_chain_reach: "verified_chain E D doc doc' \<Longrightarrow> op_reach E doc \<Longrightarrow> op_reach E doc'"
  by (rule op_reach_chain)

lemma resolved_elsewhere_valid:
  assumes "verify_causal d g = Valid" "sd_parents d \<noteq> []" "dag_agree g g'" "is_resolved (verify_causal d g')"
  shows "verify_causal d g' = Valid"
proof -
  let ?k = "pr_verification_method (sd_proof d)" and ?ps = "sd_parents d"
  have valid: "\<not> past_has g ?ps (revokes_key ?k)" "\<not> past_has g ?ps (\<lambda>op. op = Deactivate)" "past_missing g ?ps = {}"
    using assms(1,2) by (auto simp: verify_causal_eq Let_def split: if_splits)
  note fro = past_has_agree [OF dag_agree_sym [OF assms(3)] valid(3)]
  have "past_missing g' ?ps = {}"
    using assms(2,4) valid fro [of "revokes_key ?k"] fro [of "\<lambda>op. op = Deactivate"]
    by (auto simp: verify_causal_eq Let_def split: if_splits)
  with assms show ?thesis by (blast intro: verify_causal_transfer)
qed

text \<open>
  Two replicas of one identity with authentic histories, on whose deltas hashes and key ids are unique.
\<close>

definition sync_pair :: "externs \<Rightarrow> document \<Rightarrow> document \<Rightarrow> bool" where
  "sync_pair E a b \<longleftrightarrow> crdts_laws E \<and> authentic E a \<and> authentic E b \<and> payload (genesis_of a) = payload (genesis_of b) \<and>
     collision_free E (set (doc_delta_log a) \<union> set (doc_delta_log b)) \<and>
     one_key_per_id (set (doc_delta_log a) \<union> set (doc_delta_log b))"

lemma sync_pair_reach: "sync_pair E a b \<Longrightarrow> crdts_laws E \<and> op_reach E a \<and> op_reach E b"
  by (simp add: sync_pair_def authentic_reach)

lemma sync_pairD:
  assumes "sync_pair E a b" "verified_chain E (set (doc_delta_log b)) a x"
  shows "op_reach E x" "doc_ok E x" "doc_did x = doc_did b" "set (doc_delta_log a) \<subseteq> set (doc_delta_log x)"
    "collision_free E (set (doc_delta_log b) \<union> set (doc_delta_log x))"
    "dag_contains (doc_dag x) (delta_id E (genesis_of b))"
proof -
  have a: "op_reach E a" and b: "op_reach E b" using sync_pair_reach [OF assms(1)] by blast+
  have gen: "payload (genesis_of a) = payload (genesis_of b)"
    and free: "collision_free E (set (doc_delta_log a) \<union> set (doc_delta_log b))"
    using assms(1) unfolding sync_pair_def by blast+
  show x: "op_reach E x" using assms(2) a by (rule verified_chain_reach)
  then show ok: "doc_ok E x" by (rule op_reach_ok)
  obtain new where new: "doc_delta_log x = doc_delta_log a @ new" "set new \<subseteq> set (doc_delta_log b)"
    using verified_chain_log [OF assms(2)] by blast
  then show sub: "set (doc_delta_log a) \<subseteq> set (doc_delta_log x)" by simp
  show "collision_free E (set (doc_delta_log b) \<union> set (doc_delta_log x))"
    by (rule collision_free_subset [OF _ free]) (use new in auto)
  have "genesis_of a \<in> set (doc_delta_log a)" and gb: "genesis_of b \<in> set (doc_delta_log b)"
    using op_reach_fold [OF a] op_reach_fold [OF b] by (simp_all add: genesis_of_def)
  with sub have ga: "genesis_of a \<in> set (doc_delta_log x)" by blast
  with gb show "doc_did x = doc_did b"
    using doc_okD(3) [OF ok] doc_okD(3) [OF op_reach_ok [OF b]] payload_eqD(1) [OF gen] by metis
  show "dag_contains (doc_dag x) (delta_id E (genesis_of b))"
    using ga delta_id_payload [OF gen] unfolding doc_held_iff [OF ok] by (metis image_eqI)
qed

lemma logged_cases:
  assumes "op_reach E b" "d \<in> set (doc_delta_log b)"
  obtains "d = genesis_of b" | "d \<in> set (tl (doc_delta_log b))"
  using assms op_reach_fold [OF assms(1)] by (cases "doc_delta_log b") (auto simp: genesis_of_def)

text \<open>At such a document a valid delta of the responder is merged.\<close>

lemma sync_valid_merges:
  assumes "sync_pair E a b" "verified_chain E (set (doc_delta_log b)) a x" "d \<in> set (tl (doc_delta_log b))"
    "verify_causal d (doc_dag x) = Valid" "\<not> dag_contains (doc_dag x) (delta_id E d)"
  shows "merge_verified_delta E x d = (Inr (), apply_delta E x d)"
proof -
  note x = sync_pairD [OF assms(1,2)]
  have E: "crdts_laws E" and b: "op_reach E b" using sync_pair_reach [OF assms(1)] by blast+
  let ?k = "pr_verification_method (sd_proof d)"
  have "doc_delta_log x \<noteq> []" using op_reach_fold [OF x(1)] by simp
  from valid_has_authorising(2) [OF x(2) this assms(4)]
  obtain y where "y \<in> set (doc_delta_log x)" "adds_key ?k (sd_op y)"
    by (auto simp: has_authorising_delta_def list_ex_iff dag_values_log [OF x(2)])
  then have held: "vm_contains_id E (doc_verification_methods x) ?k" by (rule op_reach_added_key [OF x(1) E])
  have "set (doc_delta_log x) \<subseteq> set (doc_delta_log a) \<union> set (doc_delta_log b)"
    using verified_chain_log [OF assms(2)] by auto
  with assms(1) have "authentic E b" "one_key_per_id (set (doc_delta_log b) \<union> set (doc_delta_log x))"
    unfolding sync_pair_def by (auto intro: one_key_per_id_subset [rotated])
  from authentic_signatures [OF this(1) x(1) E this(2) assms(3) held]
  have sig: "verify_signature E d x = Inr ()" .
  have "well_shaped E (doc_did x) d" using op_reach_log [OF b E] assms(3) x(3) by auto
  with assms(4) have "admissible E x d" unfolding admissible_iff [OF x(1) E] by blast
  with sig merge_applied [OF assms(5)] assms(4,5) show ?thesis by (simp add: merge_verified_delta_def)
qed

lemma sync_settled_held:
  assumes "sync_pair E a b" "verified_chain E (set (doc_delta_log b)) a x" "d \<in> set (doc_delta_log b)" "\<not> pending_at E x d"
  shows "dag_contains (doc_dag (snd (merge_verified_delta E x d))) (delta_id E d)"
proof (cases "dag_contains (doc_dag x) (delta_id E d)")
  case True
  then show ?thesis by (simp add: merge_verified_delta_def)
next
  case False
  note x = sync_pairD [OF assms(1,2)]
  have E: "crdts_laws E" and b: "op_reach E b" using sync_pair_reach [OF assms(1)] by blast+
  from b assms(3) False x(6) have d: "d \<in> set (tl (doc_delta_log b))" by (cases rule: logged_cases) auto
  have src: "sd_parents d \<noteq> []" "verify_causal d (doc_dag b) = Valid" using op_reach_log [OF b E] d by auto
  have "is_resolved (verify_causal d (doc_dag x))"
    using assms(4) False by (cases "verify_causal d (doc_dag x)") (auto simp: pending_at_def merge_verified_delta_def)
  with src docs_agree [OF op_reach_ok [OF b] x(2,5)] have "verify_causal d (doc_dag x) = Valid"
    by (blast intro: resolved_elsewhere_valid)
  from sync_valid_merges [OF assms(1,2) d this False] show ?thesis
    by (simp add: apply_delta_history dag_contains_get dag.get_put)
qed

lemma sync_parents_not_pending:
  assumes "sync_pair E a b" "verified_chain E (set (doc_delta_log b)) a x" "d \<in> set (doc_delta_log b)"
    "\<forall>p\<in>set (sd_parents d). dag_contains (doc_dag x) p"
  shows "\<not> pending_at E x d"
proof (cases "dag_contains (doc_dag x) (delta_id E d)")
  case True
  then show ?thesis by (simp add: pending_at_def merge_verified_delta_def)
next
  case False
  note x = sync_pairD [OF assms(1,2)]
  have E: "crdts_laws E" and b: "op_reach E b" using sync_pair_reach [OF assms(1)] by blast+
  from b assms(3) False x(6) have d: "d \<in> set (tl (doc_delta_log b))" by (cases rule: logged_cases) auto
  have "admissible E x d"
    using logged_admissible(1) [OF E b x(1,3,5) d] assms(4) doc_held_iff [OF x(2)] by blast
  then have "verify_causal d (doc_dag x) = Valid" unfolding admissible_iff [OF x(1) E] by blast
  from sync_valid_merges [OF assms(1,2) d this False] show ?thesis by (simp add: pending_at_def)
qed

lemma chain_keeps: "verified_chain E D a b \<Longrightarrow> dag_contains (doc_dag a) h \<Longrightarrow> dag_contains (doc_dag b) h"
  by (induction rule: verified_chain.induct) (auto simp: apply_delta_history dag_contains_get dag.get_put)

lemma retry_merges_all:
  assumes "sync_pair E a b" "set ds \<subseteq> set (doc_delta_log b)"
    "\<forall>d\<in>set ds. \<forall>p\<in>set (sd_parents d). dag_contains (doc_dag a) p \<or> p \<in> delta_id E ` set ds"
    "d \<in> set ds"
  shows "dag_contains (doc_dag (merge_retry E ds a)) (delta_id E d)"
proof (rule ccontr)
  let ?a = "merge_retry E ds a" and ?log = "doc_delta_log b"
  have b: "op_reach E b" using sync_pair_reach [OF assms(1)] by blast
  have chain: "verified_chain E (set ?log) a ?a"
    and settle: "\<And>d. d \<in> set ds \<Longrightarrow> settled E (set ?log) a ?a d \<or> pending_at E ?a d"
    using merge_retry_spec [OF assms(2), of E a] by blast+
  let ?bad = "\<lambda>i. i < length ?log \<and> ?log ! i \<in> set ds \<and> \<not> dag_contains (doc_dag ?a) (delta_id E (?log ! i))"
  assume "\<not> dag_contains (doc_dag ?a) (delta_id E d)"
  then have "\<exists>i. ?bad i" using assms(2,4) by (metis in_set_conv_nth subsetD)
  then obtain i where i: "?bad i" and least: "\<And>j. j < i \<Longrightarrow> \<not> ?bad j" using exists_least_iff [of ?bad] by blast
  let ?d = "?log ! i"
  have d: "?d \<in> set ?log" using i by simp
  have "\<not> settled E (set ?log) a ?a ?d"
    using sync_settled_held [OF assms(1) _ d] chain_keeps i unfolding settled_def by blast
  with settle i have pend: "pending_at E ?a ?d" by blast
  have "dag_contains (doc_dag ?a) p" if p: "p \<in> set (sd_parents ?d)" for p
  proof (cases "dag_contains (doc_dag a) p")
    case True
    with chain show ?thesis by (rule chain_keeps)
  next
    case False
    with assms(3) i p obtain e where e: "e \<in> set ds" "p = delta_id E e" by blast
    have "p \<in> delta_id E ` set (take i ?log)"
      using op_reach_causal_order [OF b id_take_nth_drop] i p by blast
    then obtain j where j: "j < i" "delta_id E (?log ! j) = p" using i by (auto simp: in_set_conv_nth)
    have "?log ! j = e"
      using doc_okD(2) [OF op_reach_ok [OF b]] e j i assms(2) nth_mem [of j ?log]
      by (auto simp: distinct_map inj_on_def)
    with least [OF j(1)] e j i show ?thesis by auto
  qed
  with sync_parents_not_pending [OF assms(1) chain d] pend show False by blast
qed

text \<open>
  An answer may have been asked for earlier: merged into a document that has grown since, it still
  completes it.
\<close>

lemma deltas_for_peer_round:
  assumes "sync_pair E a0 b" "sync_pair E a b" "{h. dag_contains (doc_dag a0) h} \<subseteq> {h. dag_contains (doc_dag a) h}"
  shows "\<exists>ds. doc_deltas_for_peer E b (doc_frontier a0) = Inr ds \<and> set ds \<subseteq> set (doc_delta_log b) \<and>
    {h. dag_contains (doc_dag (merge_retry E ds a)) h} = {h. dag_contains (doc_dag a) h} \<union> {h. dag_contains (doc_dag b) h}"
proof -
  have a0: "op_reach E a0" and b: "op_reach E b" using sync_pair_reach [OF assms(1)] by blast+
  have a: "op_reach E a" using sync_pair_reach [OF assms(2)] by blast
  have free: "collision_free E (set (doc_delta_log b) \<union> set (doc_delta_log a0))"
    using assms(1) unfolding sync_pair_def by (simp add: Un_commute)
  note ok = op_reach_ok [OF a0] op_reach_ok [OF b] op_reach_ok [OF a]
  obtain ds where ds: "doc_deltas_for_peer E b (doc_frontier a0) = Inr ds"
    "set ds \<subseteq> {d. \<exists>h. dag_get (doc_dag b) h = Some d}"
    "{h. dag_contains (doc_dag b) h} \<subseteq> {h. dag_contains (doc_dag a0) h} \<union> delta_id E ` set ds"
    using deltas_for_peer_covers [OF doc_okD(5) [OF ok(2)] doc_okD(5) [OF ok(1)] docs_agree [OF ok(2,1) free]
        doc_okD(4) [OF ok(2)] doc_okD(4) [OF ok(1)] op_reach_acyclic [OF b]]
    unfolding doc_deltas_for_peer_def doc_frontier_def by blast
  have sub: "set ds \<subseteq> set (doc_delta_log b)" using ds(2) unfolding doc_get_iff [OF ok(2)] by blast
  have cover: "dag_contains (doc_dag a) h \<or> h \<in> delta_id E ` set ds" if "dag_contains (doc_dag b) h" for h
    using that ds(3) assms(3) by blast
  let ?a = "merge_retry E ds a"
  have chain: "verified_chain E (set (doc_delta_log b)) a ?a" using merge_retry_spec [OF sub] by blast
  have "\<forall>d\<in>set ds. \<forall>p\<in>set (sd_parents d). dag_contains (doc_dag a) p \<or> p \<in> delta_id E ` set ds"
    using doc_parents_held [OF ok(2)] sub cover by blast
  note all = retry_merges_all [OF assms(2) sub this]
  have "dag_contains (doc_dag ?a) h \<longleftrightarrow> dag_contains (doc_dag a) h \<or> dag_contains (doc_dag b) h" for h
  proof
    assume "dag_contains (doc_dag ?a) h"
    then obtain x where x: "x \<in> set (doc_delta_log ?a)" "h = delta_id E x"
      using doc_held_iff [OF sync_pairD(2) [OF assms(2) chain]] by blast
    with verified_chain_log [OF chain] have "x \<in> set (doc_delta_log a) \<union> set (doc_delta_log b)" by auto
    with x(2) show "dag_contains (doc_dag a) h \<or> dag_contains (doc_dag b) h"
      unfolding doc_held_iff [OF ok(3)] doc_held_iff [OF ok(2)] by blast
  next
    assume "dag_contains (doc_dag a) h \<or> dag_contains (doc_dag b) h"
    then show "dag_contains (doc_dag ?a) h" using chain_keeps [OF chain] cover all by blast
  qed
  with ds(1) sub show ?thesis by blast
qed

section \<open>Properties\<close>

text \<open>
  The retry loop over an inbound batch always ends and loses nothing.  The document it leaves
  is reached by applying deltas of the batch, each admissible and with a signature that verified;
  and for every delta of the batch either its verified merge was answered, by acceptance, as a
  duplicate or by a definite refusal, at some document on the way, or it still waits for missing
  ancestors at the document that the loop leaves.
\<close>

theorem inbound_batch_settles:
  "verified_chain E (set ds) doc (merge_retry E ds doc) \<and>
   list_all (\<lambda>d. settled E (set ds) doc (merge_retry E ds doc) d \<or> pending_at E (merge_retry E ds doc) d) ds"
  using merge_retry_spec [OF subset_refl] by (simp add: list_all_iff)

lemma merge_inbound_effect:
  "case merge_inbound E docs msg policy of (outcome, docs') \<Rightarrow>
     (case outcome of
        Merged \<Rightarrow> (\<exists>i ds doc doc'. msg = Deltas i ds \<and> fmlookup docs i = Some doc \<and>
          verified_chain E (set ds) doc doc' \<and> docs' = fmupd i doc' docs)
      | Bootstrapped i \<Rightarrow> (\<exists>ds genesis pk doc creation doc'. msg = Deltas i ds \<and> fmlookup docs i = None \<and>
          wants policy i \<and> filter (\<lambda>d. sd_parents d = []) ds = [genesis] \<and>
          doc_new E pk = Inr (doc, creation) \<and> derive_did E pk = Inr i \<and> doc_did doc = i \<and>
          delta_id E genesis = delta_id E creation \<and>
          verified_chain E (set ds) doc doc' \<and> docs' = fmupd i doc' docs)
      | _ \<Rightarrow> docs' = docs)"
proof (cases msg)
  case (Deltas i ds)
  show ?thesis
  proof (cases "fmlookup docs i")
    case (Some doc)
    then have "merge_inbound E docs msg policy = (Merged, fmupd i (merge_retry E ds doc) docs)"
      using Deltas by (simp add: merge_inbound_def merge_known_def)
    with Deltas Some merge_retry_spec [OF subset_refl, where ds = ds and E = E and doc = doc] show ?thesis by auto
  next
    case None
    show ?thesis
    proof (cases "wants policy i \<and> fst (genesis_bootstrap E docs i ds) = Inr ()")
      case True
      then obtain genesis k pk s rs doc creation where g: "filter (\<lambda>d. sd_parents d = []) ds = [genesis]"
        "sd_op genesis = AddVerificationMethod k pk s rs" "doc_new E pk = Inr (doc, creation)" "doc_did doc = i"
        "delta_id E genesis = delta_id E creation"
        by (auto simp: genesis_bootstrap_def split: list.splits delta_op.splits sum.splits prod.splits if_splits)
      let ?doc = "merge_retry E (filter (\<lambda>d. sd_parents d \<noteq> []) ds) doc"
      have res: "merge_inbound E docs msg policy = (Bootstrapped i, fmupd i ?doc docs)"
        using Deltas None True g by (simp add: merge_inbound_def genesis_bootstrap_def merge_known_def)
      have "derive_did E pk = Inr i"
      proof -
        obtain j where "derive_did E pk = Inr j" "doc = apply_delta E (genesis_blank j) creation"
          using doc_new_effect [OF g(3)] by blast
        then show ?thesis using g(4) by (simp add: apply_delta_history doc_blank_def)
      qed
      moreover have "verified_chain E (set ds) doc ?doc" by (rule merge_retry_spec [THEN conjunct1]) auto
      ultimately show ?thesis using res Deltas None True g by auto
    next
      case False
      have "fst (genesis_bootstrap E docs i ds) = Inl e \<Longrightarrow> snd (genesis_bootstrap E docs i ds) = docs" for e
        by (auto simp: genesis_bootstrap_def split: list.splits delta_op.splits sum.splits prod.splits if_splits)
      with False Deltas None show ?thesis
        by (auto simp: merge_inbound_def split: prod.splits sum.splits)
    qed
  qed
qed (simp_all add: merge_inbound_def)

text \<open>
  C6: What an inbound message can do to the document store.  Messages other than deltas, deltas
  for an unknown identifier that was not solicited, and a failed bootstrap leave the store as it
  is.  Deltas for a held identifier change only its document, by verified merges.  A bootstrap
  needs the policy's consent and a batch with exactly one rootless delta, whose key derives the
  identifier and whose hash is that of the locally reconstructed creation delta; the new document
  grows from that reconstruction by verified merges.
\<close>

theorem merge_inbound_admission:
  "case merge_inbound E docs msg policy of (outcome, docs') \<Rightarrow>
     (case outcome of
        Merged \<Rightarrow> (\<exists>i ds doc doc'. msg = Deltas i ds \<and> fmlookup docs i = Some doc \<and>
          verified_chain E (set ds) doc doc' \<and> docs' = fmupd i doc' docs)
      | Bootstrapped i \<Rightarrow> (\<exists>ds genesis pk doc creation doc'. msg = Deltas i ds \<and> fmlookup docs i = None \<and>
          wants policy i \<and> filter (\<lambda>d. sd_parents d = []) ds = [genesis] \<and>
          doc_new E pk = Inr (doc, creation) \<and> derive_did E pk = Inr i \<and> doc_did doc = i \<and>
          delta_id E genesis = delta_id E creation \<and>
          verified_chain E (set ds) doc doc' \<and> docs' = fmupd i doc' docs)
      | _ \<Rightarrow> docs' = docs)"
  by (rule merge_inbound_effect)

text \<open>The documents of a store: each under its own identifier and with an authentic history.\<close>

definition store_ok :: "externs \<Rightarrow> doc_store \<Rightarrow> bool" where
  "store_ok E docs = fmpred (\<lambda>i doc. authentic E doc \<and> doc_did doc = i) docs"

lemma merge_inbound_store_ok:
  assumes "store_ok E docs"
  shows "store_ok E (snd (merge_inbound E docs msg policy))"
proof -
  have upd: "store_ok E (fmupd i doc' docs)"
    if "authentic E doc" "doc_did doc = i" "verified_chain E D doc doc'" for i doc doc' D
    using assms authentic_chain [OF that(3,1)] verified_chain_log [OF that(3)] that(2) unfolding store_ok_def
    by (intro fmpred_upd) auto
  obtain outcome docs' where res: "merge_inbound E docs msg policy = (outcome, docs')" by fastforce
  note effect = merge_inbound_effect [where E = E and docs = docs and msg = msg and policy = policy, unfolded res prod.case]
  show ?thesis
  proof (cases outcome)
    case Merged
    with effect obtain i ds doc doc' where "fmlookup docs i = Some doc" "verified_chain E (set ds) doc doc'" "docs' = fmupd i doc' docs"
      by auto
    moreover from this(1) assms have "authentic E doc" "doc_did doc = i" unfolding store_ok_def by (auto dest: fmpredD)
    ultimately show ?thesis using upd res by simp
  next
    case (Bootstrapped i)
    with effect obtain ds pk doc creation doc' where "doc_new E pk = Inr (doc, creation)" "doc_did doc = i"
      "verified_chain E (set ds) doc doc'" "docs' = fmupd i doc' docs" by auto
    with upd [OF auth_new] res show ?thesis by simp
  qed (use effect res assms in auto)
qed

lemma run_loop_step_store_ok: "store_ok E (ln_docs n) \<Longrightarrow> store_ok E (ln_docs (snd (run_loop_step decode E n raw)))"
  using merge_inbound_store_ok [of E "ln_docs n"]
  by (auto simp: run_loop_step_def Let_def split: option.splits prod.splits) (metis snd_conv)

text \<open>
  The invariant of a running node.  Whatever payloads a node receives from the network, in any
  number and order, and whatever its policy, every document it holds is filed under its own
  identifier and was built from a locally reconstructed creation by admitted deltas whose signatures
  verified.
\<close>

theorem live_node_invariant:
  "fmpred (\<lambda>i doc. authentic E doc \<and> doc_did doc = i)
     (ln_docs (fold (\<lambda>raw n. snd (run_loop_step decode E n raw)) raws
        \<lparr>ln_docs = fmempty, ln_gossip = gossip_new, ln_policy = policy, ln_persistent = p, ln_dht = d\<rparr>))"
proof -
  have "store_ok E (ln_docs n) \<Longrightarrow> store_ok E (ln_docs (fold (\<lambda>raw n. snd (run_loop_step decode E n raw)) raws n))" for n
    by (induction raws arbitrary: n) (auto intro: run_loop_step_store_ok)
  then show ?thesis unfolding store_ok_def by simp
qed

text \<open>
  A gossip round brings the requester up to date.  A node that holds an identity and hears an
  announcement it has not seen asks with its frontier; the peer that holds the identity answers
  with deltas, or stays silent; after the inbound merge of the answer the node's document, still
  one with an authentic history, holds exactly the deltas that either side held.
\<close>

theorem gossip_round_converges:
  assumes "sync_pair E a b" "fmlookup docs_a i = Some a" "fmlookup docs_b i = Some b" "(i, h) |\<notin>| gossip_seen st_a"
  shows "\<exists>st_a' answer a'.
    handle E st_a (Announce i h clock) docs_a policy_a = ([Request i (doc_frontier a)], None, st_a') \<and>
    handle E st_b (Request i (doc_frontier a)) docs_b policy_b = (answer, None, st_b) \<and>
    fmlookup (fold (\<lambda>msg docs. snd (merge_inbound E docs msg policy_a)) answer docs_a) i = Some a' \<and>
    authentic E a' \<and>
    {h. dag_contains (doc_dag a') h} = {h. dag_contains (doc_dag a) h} \<union> {h. dag_contains (doc_dag b) h}"
proof -
  obtain ds where ds: "doc_deltas_for_peer E b (doc_frontier a) = Inr ds" "set ds \<subseteq> set (doc_delta_log b)"
    "{h. dag_contains (doc_dag (merge_retry E ds a)) h} = {h. dag_contains (doc_dag a) h} \<union> {h. dag_contains (doc_dag b) h}"
    using deltas_for_peer_round [OF assms(1,1) subset_refl] by blast
  have reach: "authentic E (merge_retry E ds a)"
    using assms(1) merge_retry_spec [OF ds(2)] authentic_chain unfolding sync_pair_def by blast
  have empty: "merge_retry E [] a = a" by (simp add: merge_retry.simps)
  let ?answer = "if ds = [] then [] else [Deltas i ds]"
  have "handle E st_b (Request i (doc_frontier a)) docs_b policy_b = (?answer, None, st_b)"
    using assms(3) ds(1) by (simp add: handle_def)
  moreover have "\<exists>st. handle E st_a (Announce i h clock) docs_a policy_a = ([Request i (doc_frontier a)], None, st)"
    using assms(2,4) by (simp add: handle_def mark_seen_def)
  moreover have "fmlookup (fold (\<lambda>msg docs. snd (merge_inbound E docs msg policy_a)) ?answer docs_a) i = Some (merge_retry E ds a)"
    using assms(2) empty by (simp add: merge_inbound_def merge_known_def)
  ultimately show ?thesis using reach ds(3) by blast
qed

section \<open>Examples\<close>

lemma ex_service_verify: "verify_signature ex_externs ex_service ex_doc = Inr ()"
  by (simp add: verify_signature_def ex_service_def signing_input_Inr ex_doc_vms vm_entries_def
      crdts_simps [OF ex_crdts_laws] sorted_list_of_fset.rep_eq node_id_from_pubkey_def str_bytes_def
      word_rcat_def ex_suite)

lemma ex_service_fresh: "\<not> dag_contains (doc_dag ex_doc) (delta_id ex_externs ex_service)"
  by (simp add: ex_doc_dag dag_contains_def ex_service_def)

lemma ex_authentic: "authentic ex_externs ex_a" "authentic ex_externs ex_b"
proof -
  have doc: "authentic ex_externs ex_doc" by (rule auth_new [OF ex_new])
  show "authentic ex_externs ex_a" by (rule auth_step [OF doc ex_fresh ex_verify ex_admissible])
  show "authentic ex_externs ex_b"
    by (rule auth_step [OF doc ex_service_fresh ex_service_verify ex_service_admissible])
qed

lemma ex_sync_pair: "sync_pair ex_externs ex_a ex_b"
proof -
  have "set (doc_delta_log ex_a) \<union> set (doc_delta_log ex_b) = {ex_creation, ex_update, ex_service}"
    by (auto simp: ex_logs)
  moreover have "one_key_per_id {ex_creation, ex_update, ex_service}"
    by (auto simp: one_key_per_id_def op_vms_def ex_update_def ex_service_def)
  ultimately show ?thesis
    unfolding sync_pair_def using ex_authentic ex_pair_free by (simp add: genesis_of_def ex_logs)
qed

theorem gossip_round_converges_witness:
  "\<exists>answer a'. handle ex_externs gossip_new (Request ex_did (doc_frontier ex_a)) (fmupd ex_did ex_b fmempty) solicited_only
       = (answer, None, gossip_new) \<and>
     fmlookup (fold (\<lambda>msg docs. snd (merge_inbound ex_externs docs msg solicited_only)) answer (fmupd ex_did ex_a fmempty)) ex_did = Some a' \<and>
     dag_contains (doc_dag a') (delta_id ex_externs ex_service) \<and> dag_contains (doc_dag a') (delta_id ex_externs ex_update)"
proof -
  have held: "dag_contains (doc_dag ex_a) (delta_id ex_externs ex_update)" "dag_contains (doc_dag ex_b) (delta_id ex_externs ex_service)"
    by (simp_all add: apply_delta_history dag_contains_get dag.get_put)
  have unseen: "(ex_did, []) |\<notin>| gossip_seen gossip_new" by (simp add: gossip_new_def)
  obtain answer a' where r: "handle ex_externs gossip_new (Request ex_did (doc_frontier ex_a)) (fmupd ex_did ex_b fmempty) solicited_only
      = (answer, None, gossip_new)"
    "fmlookup (fold (\<lambda>msg docs. snd (merge_inbound ex_externs docs msg solicited_only)) answer (fmupd ex_did ex_a fmempty)) ex_did = Some a'"
    "{h. dag_contains (doc_dag a') h} = {h. dag_contains (doc_dag ex_a) h} \<union> {h. dag_contains (doc_dag ex_b) h}"
    using gossip_round_converges [OF ex_sync_pair _ _ unseen, of "fmupd ex_did ex_a fmempty" "fmupd ex_did ex_b fmempty"]
    by (metis fmupd_lookup)
  with held show ?thesis by blast
qed

end
