(* ===== verification/Live.thy ===== *)
theory Live
  imports Gossip
begin

text \<open>
  The transport side of a live node: the gossip engine with its broadcasts
  (\<open>GossipEngine\<close> of \<open>src/sync/gossip.rs\<close>), a turn of the message loop over it, and the cold start
  of an unknown identifier against a clock (\<open>src/sync/live.rs\<close>).  The JSON codec of messages and the
  gossip transport are parameters; a broadcast can fail.  In a cold start the network is an
  environment that says how long lookups, connections and broadcasts take, what they return, and
  which payloads the message loop handles in an interval of time; time is counted in milliseconds.
\<close>

section \<open>The gossip engine\<close>

text \<open>\<open>serde_json\<close> on messages and \<open>Gossip::broadcast\<close>, with \<open>'t\<close> for the state of the transport.\<close>

record 't transport =
  msg_to_vec :: "sync_message \<Rightarrow> bytes option"
  msg_from_slice :: "bytes \<Rightarrow> sync_message option"
  net_broadcast :: "'t \<Rightarrow> bytes \<Rightarrow> (unit + unit) \<times> 't"

datatype gossip_error = GossipJson | GossipBroadcast | GossipHash error

record gossip_engine =
  ge_state :: gossip_state
  ge_policy :: bootstrap_policy

definition engine_new :: "bootstrap_policy \<Rightarrow> gossip_engine" where
  "engine_new policy = \<lparr>ge_state = gossip_new, ge_policy = policy\<rparr>"

definition do_broadcast :: "'t transport \<Rightarrow> sync_message \<Rightarrow> 't \<Rightarrow> (gossip_error + unit) \<times> 't" where
  "do_broadcast T msg net =
     (case msg_to_vec T msg of
        None \<Rightarrow> (Inl GossipJson, net)
      | Some b \<Rightarrow>
          (case net_broadcast T net b of
             (Inl _, net') \<Rightarrow> (Inl GossipBroadcast, net')
           | (Inr _, net') \<Rightarrow> (Inr (), net')))"

definition engine_announce ::
    "'t transport \<Rightarrow> externs \<Rightarrow> gossip_engine \<Rightarrow> document \<Rightarrow> hlc_timestamp \<Rightarrow> 't
     \<Rightarrow> (gossip_error + unit) \<times> gossip_engine \<times> 't" where
  "engine_announce T E g doc clock net =
     (case doc_content_hash E doc of
        Inl e \<Rightarrow> (Inl (GossipHash e), g, net)
      | Inr h \<Rightarrow>
          (case mark_seen (ge_state g) (doc_did doc) h of
             (False, st) \<Rightarrow> (Inr (), g\<lparr>ge_state := st\<rparr>, net)
           | (True, st) \<Rightarrow>
               (case do_broadcast T (Announce (doc_did doc) h clock) net of
                  (r, net') \<Rightarrow> (r, g\<lparr>ge_state := st\<rparr>, net'))))"

text \<open>The loop over the outgoing messages, left at the first failure.\<close>

fun broadcast_each :: "'t transport \<Rightarrow> sync_message list \<Rightarrow> 't \<Rightarrow> (gossip_error + unit) \<times> 't" where
  "broadcast_each T [] net = (Inr (), net)"
| "broadcast_each T (m # ms) net =
     (case do_broadcast T m net of
        (Inl e, net') \<Rightarrow> (Inl e, net')
      | (Inr _, net') \<Rightarrow> broadcast_each T ms net')"

definition handle_message ::
    "'t transport \<Rightarrow> externs \<Rightarrow> gossip_engine \<Rightarrow> sync_message \<Rightarrow> doc_store \<Rightarrow> 't
     \<Rightarrow> (gossip_error + sync_message option) \<times> gossip_engine \<times> 't" where
  "handle_message T E g msg docs net =
     (case handle E (ge_state g) msg docs (ge_policy g) of
        (outgoing, inbound, st) \<Rightarrow>
          (case broadcast_each T outgoing net of
             (Inl e, net') \<Rightarrow> (Inl e, g\<lparr>ge_state := st\<rparr>, net')
           | (Inr _, net') \<Rightarrow> (Inr inbound, g\<lparr>ge_state := st\<rparr>, net')))"

definition handle_bytes ::
    "'t transport \<Rightarrow> externs \<Rightarrow> gossip_engine \<Rightarrow> bytes \<Rightarrow> doc_store \<Rightarrow> 't
     \<Rightarrow> (gossip_error + sync_message option) \<times> gossip_engine \<times> 't" where
  "handle_bytes T E g raw docs net =
     (case msg_from_slice T raw of
        None \<Rightarrow> (Inr None, g, net)
      | Some msg \<Rightarrow> handle_message T E g msg docs net)"

section \<open>A turn of the loop over the engine\<close>

text \<open>
  The engine of the loop shares the admission policy of the node and keeps the routing state.  The
  routing works on a clone of the store; the inbound message is merged into the store itself.
\<close>

definition node_engine :: "live_node \<Rightarrow> gossip_engine" where
  "node_engine n = \<lparr>ge_state = ln_gossip n, ge_policy = ln_policy n\<rparr>"

text \<open>A bound node: the routing state is new and the policy comes from the configuration.\<close>

definition live_bind :: "doc_store \<Rightarrow> bool \<Rightarrow> bool \<Rightarrow> bool \<Rightarrow> live_node" where
  "live_bind docs dht full_replica persistence =
     \<lparr>ln_docs = docs, ln_gossip = gossip_new,
      ln_policy = (if full_replica then replicate_all else solicited_only),
      ln_persistent = persistence, ln_dht = dht\<rparr>"

lemma live_bind_simps [simp]:
  "ln_docs (live_bind docs dht r p) = docs" "ln_persistent (live_bind docs dht r p) = p"
  "ln_dht (live_bind docs dht r p) = dht"
  "node_engine (live_bind docs dht r p) = engine_new (ln_policy (live_bind docs dht r p))"
  by (simp_all add: live_bind_def node_engine_def engine_new_def)

text \<open>A node that is not a full replica wants no identifier before it is asked for one.\<close>

lemma live_bind_wants: "wants (ln_policy (live_bind docs dht full_replica p)) i = full_replica"
  by (simp add: live_bind_def wants_def replicate_all_def solicited_only_def)

text \<open>Joining the mesh: as its first node, or through a peer, which is done when the swarm is joined.\<close>

record ('p, 'n) mesh =
  me_add_node_addr :: "'p \<Rightarrow> bool"
  me_join :: "'n list \<Rightarrow> bool"
  me_joined :: "'n list \<Rightarrow> bool"

definition node_seed :: "('p, 'n) mesh \<Rightarrow> unit + unit" where
  "node_seed M = (if me_join M [] then Inr () else Inl ())"

definition node_connect :: "('p, 'n) mesh \<Rightarrow> ('p \<Rightarrow> 'n) \<Rightarrow> 'p \<Rightarrow> unit + unit" where
  "node_connect M id_of peer =
     (if \<not> me_add_node_addr M peer then Inl ()
      else if \<not> me_join M [id_of peer] then Inl ()
      else if \<not> me_joined M [id_of peer] then Inl () else Inr ())"

definition topic_for :: "externs \<Rightarrow> bytes \<Rightarrow> bytes" where
  "topic_for E s = blake3 E s"

definition loop_turn ::
    "'t transport \<Rightarrow> externs \<Rightarrow> live_node \<Rightarrow> bytes \<Rightarrow> 't \<Rightarrow> live_effect list \<times> live_node \<times> 't" where
  "loop_turn T E n raw net =
     (case handle_bytes T E (node_engine n) raw (ln_docs n) net of
        (Inr (Some inbound), g, net') \<Rightarrow>
          let touched = (case inbound of Deltas i _ \<Rightarrow> Some i | _ \<Rightarrow> None);
              (outcome, docs) = merge_inbound E (ln_docs n) inbound (ln_policy n);
              changed = (case outcome of Merged \<Rightarrow> True | Bootstrapped _ \<Rightarrow> True | _ \<Rightarrow> False);
              saves = (if changed \<and> ln_persistent n
                       then (case Option.bind touched (fmlookup docs) of None \<Rightarrow> [] | Some doc \<Rightarrow> [SaveSnapshot doc])
                       else []);
              publishes = (case outcome of Bootstrapped i \<Rightarrow> if ln_dht n then [PublishDht i] else [] | _ \<Rightarrow> [])
          in (saves @ publishes, n\<lparr>ln_gossip := ge_state g, ln_docs := docs\<rparr>, net')
      | (_, g, net') \<Rightarrow> ([], n\<lparr>ln_gossip := ge_state g\<rparr>, net'))"

definition not_broadcast :: "live_effect \<Rightarrow> bool" where
  "not_broadcast e \<longleftrightarrow> (case e of Broadcast _ \<Rightarrow> False | _ \<Rightarrow> True)"

definition broadcasts :: "live_effect list \<Rightarrow> sync_message list" where
  "broadcasts es = List.map_filter (\<lambda>e. case e of Broadcast m \<Rightarrow> Some m | _ \<Rightarrow> None) es"

lemma broadcasts_simps [simp]:
  "broadcasts [] = []" "broadcasts (es @ es') = broadcasts es @ broadcasts es'"
  "broadcasts (Broadcast m # es) = m # broadcasts es" "broadcasts (SaveSnapshot doc # es) = broadcasts es"
  "broadcasts (PublishDht i # es) = broadcasts es" "broadcasts (map Broadcast ms) = ms"
proof -
  show "broadcasts (map Broadcast ms) = ms" by (induction ms) (simp_all add: broadcasts_def List.map_filter_def)
qed (simp_all add: broadcasts_def List.map_filter_def)

lemma filter_not_broadcast [simp]:
  "filter not_broadcast (map Broadcast ms) = []"
  "not_broadcast (SaveSnapshot doc)" "not_broadcast (PublishDht i)"
  by (induction ms) (simp_all add: not_broadcast_def)

text \<open>The router never both answers and delivers: what is delivered comes with no broadcast.\<close>

lemma handle_deliver:
  "fst (snd (handle E st msg docs policy)) = (case msg of Deltas i ds \<Rightarrow> Some (Deltas i ds) | _ \<Rightarrow> None)"
  by (cases msg) (auto simp: handle_def mark_seen_def split: option.splits sum.splits bool.splits)

lemma handle_routes:
  obtains (answers) out st where "handle E g msg docs policy = (out, None, st)"
  | (delivers) i ds where "msg = Deltas i ds" "handle E g msg docs policy = ([], Some (Deltas i ds), g)"
proof (cases "\<exists>i ds. msg = Deltas i ds")
  case True
  then show ?thesis using delivers by (auto simp: handle_def)
next
  case False
  then have "fst (snd (handle E g msg docs policy)) = None"
    by (simp add: handle_deliver split: sync_message.splits)
  then show ?thesis using answers by (metis prod.collapse)
qed

lemma loop_turn_run_loop_step:
  assumes "loop_turn T E n raw net = (es, n', net')" "run_loop_step (msg_from_slice T) E n raw = (es', n'')"
  shows "n' = n''" "es = filter not_broadcast es'" "net' = snd (broadcast_each T (broadcasts es') net)"
proof -
  have "n' = n'' \<and> es = filter not_broadcast es' \<and> net' = snd (broadcast_each T (broadcasts es') net)"
  proof (cases "msg_from_slice T raw")
    case None
    with assms show ?thesis by (simp add: loop_turn_def handle_bytes_def run_loop_step_def node_engine_def)
  next
    case (Some msg)
    show ?thesis
    proof (cases rule: handle_routes [of E "ln_gossip n" msg "ln_docs n" "ln_policy n"])
      case (answers out st)
      obtain r net1 where b: "broadcast_each T out net = (r, net1)" by fastforce
      have "handle_bytes T E (node_engine n) raw (ln_docs n) net =
          (map_sum id (\<lambda>_. None) r, \<lparr>ge_state = st, ge_policy = ln_policy n\<rparr>, net1)"
        by (cases r) (simp_all add: handle_bytes_def Some handle_message_def answers b node_engine_def)
      with assms Some answers b show ?thesis
        by (cases r) (auto simp: loop_turn_def run_loop_step_def)
    next
      case (delivers i ds)
      obtain outcome docs where "merge_inbound E (ln_docs n) (Deltas i ds) (ln_policy n) = (outcome, docs)" by fastforce
      note m = this
      have "handle_bytes T E (node_engine n) raw (ln_docs n) net = (Inr (Some (Deltas i ds)), node_engine n, net)"
        using delivers by (simp add: handle_bytes_def Some handle_message_def node_engine_def)
      with assms Some delivers m show ?thesis
        by (simp add: loop_turn_def run_loop_step_def Let_def node_engine_def
            split: option.splits if_splits merge_outcome.splits) auto
    qed
  qed
  then show "n' = n''" "es = filter not_broadcast es'" "net' = snd (broadcast_each T (broadcasts es') net)" by blast+
qed

section \<open>Cold start\<close>

text \<open>
  What the outside does during a cold start, with \<open>'p\<close> for a peer: a lookup begun at a time takes
  some time and fails or returns peers; a connection takes some time and succeeds or fails; a
  broadcast takes some time; a sleep may be late; and the message loop handles payloads meanwhile.
  The last field is the serialiser of the request.
\<close>

record 'p cold_env =
  ce_lookup :: "nat \<Rightarrow> nat \<times> (unit + 'p list)"
  ce_connect :: "'p \<Rightarrow> nat \<Rightarrow> nat \<times> bool"
  ce_broadcast :: "nat \<Rightarrow> nat"
  ce_late :: "nat \<Rightarrow> nat"
  ce_inbound :: "nat \<Rightarrow> nat \<Rightarrow> bytes list"
  ce_to_vec :: "sync_message \<Rightarrow> bytes option"

datatype 'p cold_failure =
    DhtDisabled
  | NoLookupAttempted
  | NoPeersFound
  | LookupFailed
  | PeerFailed 'p
  | PeerTimedOut 'p

datatype attempt_result = AttemptOk | AttemptError | AttemptElapsed

text \<open>The clock, the node, and the effects so far.\<close>

record cold_world =
  cw_now :: nat
  cw_node :: live_node
  cw_effects :: "live_effect list"

definition COLD_START_PER_PEER :: nat where "COLD_START_PER_PEER = 4000"
definition COLD_START_REBROADCAST :: nat where "COLD_START_REBROADCAST = 1000"

fun loop_payloads ::
    "(bytes \<Rightarrow> sync_message option) \<Rightarrow> externs \<Rightarrow> bytes list \<Rightarrow> live_node \<Rightarrow> live_effect list \<times> live_node" where
  "loop_payloads decode E [] n = ([], n)"
| "loop_payloads decode E (raw # raws) n =
     (case run_loop_step decode E n raw of (es, n1) \<Rightarrow>
        (case loop_payloads decode E raws n1 of (es', n2) \<Rightarrow> (es @ es', n2)))"

text \<open>Time passes until \<open>t\<close>; the message loop runs meanwhile.\<close>

definition until ::
    "(bytes \<Rightarrow> sync_message option) \<Rightarrow> externs \<Rightarrow> 'p cold_env \<Rightarrow> nat \<Rightarrow> cold_world \<Rightarrow> cold_world" where
  "until decode E V t w =
     (case loop_payloads decode E (ce_inbound V (cw_now w) t) (cw_node w) of
        (es, n) \<Rightarrow> \<lparr>cw_now = t, cw_node = n, cw_effects = cw_effects w @ es\<rparr>)"

lemma until_now [simp]: "cw_now (until decode E V t w) = t"
  by (simp add: until_def split: prod.splits)

text \<open>
  The polling of an attempt: while the poll deadline is ahead, look for the document and sleep 20
  milliseconds, otherwise broadcast the request again.  \<open>limit\<close> is where \<open>tokio::time::timeout\<close>
  drops the attempt.
\<close>

function poll_wait ::
    "(bytes \<Rightarrow> sync_message option) \<Rightarrow> externs \<Rightarrow> 'p cold_env \<Rightarrow> did \<Rightarrow> nat \<Rightarrow> nat \<Rightarrow> cold_world
     \<Rightarrow> attempt_result \<times> cold_world" where
  "poll_wait decode E V i limit poll_deadline w =
     (if cw_now w < poll_deadline then
        if fmlookup (ln_docs (cw_node w)) i \<noteq> None then (AttemptOk, w)
        else let t = cw_now w + 20 + ce_late V (cw_now w)
             in if limit < t then (AttemptElapsed, until decode E V limit w)
                else poll_wait decode E V i limit poll_deadline (until decode E V t w)
      else let t = cw_now w + ce_broadcast V (cw_now w);
               w1 = w\<lparr>cw_effects := cw_effects w @ [Broadcast (Request i [])]\<rparr>
           in if limit < t then (AttemptElapsed, until decode E V limit w1)
              else poll_wait decode E V i limit (t + COLD_START_REBROADCAST) (until decode E V t w1))"
  by pat_completeness auto
termination
  by (relation "measures [\<lambda>(decode, E, V, i, limit, d, w). limit - cw_now w,
        \<lambda>(decode, E, V, i, limit, d, w). if cw_now w < d then 0 else 1]")
    (auto simp: COLD_START_REBROADCAST_def)

declare poll_wait.simps [simp del]

definition attempt ::
    "(bytes \<Rightarrow> sync_message option) \<Rightarrow> externs \<Rightarrow> 'p cold_env \<Rightarrow> did \<Rightarrow> 'p
     \<Rightarrow> nat \<Rightarrow> cold_world \<Rightarrow> attempt_result \<times> cold_world" where
  "attempt decode E V i peer limit w =
     (case ce_connect V peer (cw_now w) of (d, ok) \<Rightarrow>
        let t = cw_now w + d
        in if limit < t then (AttemptElapsed, until decode E V limit w)
           else let w1 = until decode E V t w
                in if \<not> ok then (AttemptError, w1)
                   else if ce_to_vec V (Request i []) = None then (AttemptError, w1)
                   else poll_wait decode E V i limit (cw_now w1) w1)"

fun try_peers ::
    "(bytes \<Rightarrow> sync_message option) \<Rightarrow> externs \<Rightarrow> 'p cold_env \<Rightarrow> did \<Rightarrow> nat
     \<Rightarrow> 'p list \<Rightarrow> 'p cold_failure \<Rightarrow> cold_world \<Rightarrow> bool \<times> 'p cold_failure \<times> cold_world" where
  "try_peers decode E V i deadline [] failure w = (False, failure, w)"
| "try_peers decode E V i deadline (peer # peers) failure w =
     (let remaining = deadline - cw_now w
      in if remaining = 0 then (False, failure, w)
         else case attempt decode E V i peer (cw_now w + min COLD_START_PER_PEER remaining) w of
                (AttemptOk, w1) \<Rightarrow> (True, failure, w1)
              | (AttemptError, w1) \<Rightarrow> try_peers decode E V i deadline peers (PeerFailed peer) w1
              | (AttemptElapsed, w1) \<Rightarrow> try_peers decode E V i deadline peers (PeerTimedOut peer) w1)"

text \<open>The clock of an attempt stays between its begin and its limit.\<close>

lemma poll_wait_now:
  assumes "poll_wait decode E V i limit d w = (r, w')" "cw_now w \<le> limit"
  shows "cw_now w \<le> cw_now w'" "cw_now w' \<le> limit"
proof -
  have "cw_now w \<le> cw_now w' \<and> cw_now w' \<le> limit"
    using assms
  proof (induction decode E V i limit d w rule: poll_wait.induct)
    case (1 decode E V i limit d w)
    then show ?case
      by (subst (asm) (3) poll_wait.simps) (fastforce simp: Let_def split: if_splits)
  qed
  then show "cw_now w \<le> cw_now w'" "cw_now w' \<le> limit" by blast+
qed

lemma attempt_now:
  assumes "attempt decode E V i peer limit w = (r, w')" "cw_now w \<le> limit"
  shows "cw_now w \<le> cw_now w'" "cw_now w' \<le> limit"
  using assms poll_wait_now [of decode E V i limit _ "until decode E V _ w" r w']
  by (fastforce simp: attempt_def Let_def split: prod.splits if_splits)+

lemma try_peers_now:
  "try_peers decode E V i deadline peers failure w = (ok, failure', w') \<Longrightarrow>
     cw_now w \<le> cw_now w' \<and> cw_now w' \<le> max deadline (cw_now w)"
proof (induction peers arbitrary: failure w)
  case (Cons peer peers)
  let ?limit = "cw_now w + min COLD_START_PER_PEER (deadline - cw_now w)"
  obtain r w1 where a: "attempt decode E V i peer ?limit w = (r, w1)" by fastforce
  from attempt_now [OF this] have "cw_now w \<le> cw_now w1" "cw_now w1 \<le> ?limit" by simp_all
  with a Cons.prems Cons.IH [of _ w1] show ?case
    by (cases r; cases "deadline - cw_now w = 0") (fastforce simp: Let_def)+
qed simp

text \<open>
  One round: a lookup, the attempts at the peers it found, and a pause.  \<open>Some\<close> result leaves the
  loop, \<open>None\<close> goes on with the next round.
\<close>

definition cold_round ::
    "(bytes \<Rightarrow> sync_message option) \<Rightarrow> externs \<Rightarrow> 'p cold_env \<Rightarrow> did \<Rightarrow> nat
     \<Rightarrow> 'p cold_failure \<Rightarrow> cold_world \<Rightarrow> ('p cold_failure + unit) option \<times> 'p cold_failure \<times> cold_world" where
  "cold_round decode E V i deadline failure w =
     (if deadline - cw_now w = 0 then (Some (Inl failure), failure, w)
      else case ce_lookup V (cw_now w) of (d, found) \<Rightarrow>
        (case (case found of
                 Inl _ \<Rightarrow> (LookupFailed, [])
               | Inr [] \<Rightarrow> (NoPeersFound, [])
               | Inr peers \<Rightarrow> (failure, peers)) of (failure1, peers) \<Rightarrow>
          (case try_peers decode E V i deadline peers failure1 (until decode E V (cw_now w + d) w) of
             (True, failure2, w2) \<Rightarrow> (Some (Inr ()), failure2, w2)
           | (False, failure2, w2) \<Rightarrow>
               if deadline - cw_now w2 = 0 then (Some (Inl failure2), failure2, w2)
               else (None, failure2,
                 until decode E V (cw_now w2 + min 500 (deadline - cw_now w2) + ce_late V (cw_now w2)) w2))))"

lemma cold_round_cases:
  assumes "cold_round decode E V i deadline failure w = (r, failure', w')"
  obtains (spent) "deadline \<le> cw_now w" "r = Some (Inl failure)" "w' = w"
  | (round) d found peers failure1 ok w2 where "cw_now w < deadline" "ce_lookup V (cw_now w) = (d, found)"
      "try_peers decode E V i deadline peers failure1 (until decode E V (cw_now w + d) w) = (ok, failure', w2)"
      "ok \<and> r = Some (Inr ()) \<and> w' = w2 \<or> \<not> ok \<and> deadline \<le> cw_now w2 \<and> r = Some (Inl failure') \<and> w' = w2 \<or>
       \<not> ok \<and> cw_now w2 < deadline \<and> r = None \<and>
         w' = until decode E V (cw_now w2 + min 500 (deadline - cw_now w2) + ce_late V (cw_now w2)) w2"
proof (cases "deadline \<le> cw_now w")
  case True
  with assms show ?thesis by (intro spent) (auto simp: cold_round_def)
next
  case False
  obtain d found where l: "ce_lookup V (cw_now w) = (d, found)" by fastforce
  obtain failure1 peers where f: "(case found of Inl _ \<Rightarrow> (LookupFailed, []) | Inr [] \<Rightarrow> (NoPeersFound, [])
      | Inr peers \<Rightarrow> (failure, peers)) = (failure1, peers)" by (rule prod.exhaust)
  obtain ok failure2 w2 where t:
    "try_peers decode E V i deadline peers failure1 (until decode E V (cw_now w + d) w) = (ok, failure2, w2)"
    by (metis prod_cases3)
  from assms False have "failure2 = failure' \<and>
      (ok \<and> r = Some (Inr ()) \<and> w' = w2 \<or> \<not> ok \<and> deadline \<le> cw_now w2 \<and> r = Some (Inl failure') \<and> w' = w2 \<or>
       \<not> ok \<and> cw_now w2 < deadline \<and> r = None \<and>
         w' = until decode E V (cw_now w2 + min 500 (deadline - cw_now w2) + ce_late V (cw_now w2)) w2)"
    unfolding cold_round_def l prod.case f t by (auto split: bool.splits if_splits)
  with t show ?thesis using False l round by auto
qed

lemma cold_round_now:
  assumes "cold_round decode E V i deadline failure w = (None, failure', w')"
  shows "cw_now w < cw_now w'" "cw_now w < deadline"
  using assms by (cases rule: cold_round_cases; auto dest: try_peers_now)+

function cold_rounds ::
    "(bytes \<Rightarrow> sync_message option) \<Rightarrow> externs \<Rightarrow> 'p cold_env \<Rightarrow> did \<Rightarrow> nat
     \<Rightarrow> 'p cold_failure \<Rightarrow> cold_world \<Rightarrow> ('p cold_failure + unit) \<times> cold_world" where
  "cold_rounds decode E V i deadline failure w =
     (case cold_round decode E V i deadline failure w of
        (Some r, _, w') \<Rightarrow> (r, w')
      | (None, failure', w') \<Rightarrow> cold_rounds decode E V i deadline failure' w')"
  by pat_completeness auto
termination
  by (relation "measure (\<lambda>(decode, E, V, i, deadline, failure, w). deadline - cw_now w)")
    (auto dest!: sym [of "(_, _)" "cold_round _ _ _ _ _ _ _"] intro: diff_less_mono2 cold_round_now)

declare cold_rounds.simps [simp del]

definition cold_start_inner ::
    "(bytes \<Rightarrow> sync_message option) \<Rightarrow> externs \<Rightarrow> 'p cold_env \<Rightarrow> did \<Rightarrow> nat
     \<Rightarrow> cold_world \<Rightarrow> ('p cold_failure + unit) \<times> cold_world" where
  "cold_start_inner decode E V i budget w =
     (if \<not> ln_dht (cw_node w) then (Inl DhtDisabled, w)
      else cold_rounds decode E V i (cw_now w + budget) NoLookupAttempted w)"

definition map_policy :: "(bootstrap_policy \<Rightarrow> bootstrap_policy) \<Rightarrow> cold_world \<Rightarrow> cold_world" where
  "map_policy f w = w\<lparr>cw_node := (cw_node w)\<lparr>ln_policy := f (ln_policy (cw_node w))\<rparr>\<rparr>"

definition cold_start_bootstrap ::
    "(bytes \<Rightarrow> sync_message option) \<Rightarrow> externs \<Rightarrow> 'p cold_env \<Rightarrow> did \<Rightarrow> nat
     \<Rightarrow> cold_world \<Rightarrow> ('p cold_failure + unit) \<times> cold_world" where
  "cold_start_bootstrap decode E V i budget w =
     (case cold_start_inner decode E V i budget (map_policy (\<lambda>p. add_wanted p i) w) of
        (r, w') \<Rightarrow> (r, map_policy (\<lambda>p. remove_wanted p i) w'))"

section \<open>What a cold start does to the node\<close>

text \<open>A property of the world that payloads and the broadcast of a request keep.\<close>

definition world_inv ::
    "(bytes \<Rightarrow> sync_message option) \<Rightarrow> externs \<Rightarrow> 'p cold_env \<Rightarrow> did \<Rightarrow> (cold_world \<Rightarrow> bool) \<Rightarrow> bool" where
  "world_inv decode E V i P \<longleftrightarrow>
     (\<forall>w t. P w \<longrightarrow> P (until decode E V t w)) \<and>
     (\<forall>w. P w \<longrightarrow> P (w\<lparr>cw_effects := cw_effects w @ [Broadcast (Request i [])]\<rparr>))"

lemma world_invD:
  assumes "world_inv decode E V i P" "P w"
  shows "P (until decode E V t w)" "P (w\<lparr>cw_effects := cw_effects w @ [Broadcast (Request i [])]\<rparr>)"
  using assms by (auto simp: world_inv_def)

lemma poll_wait_inv:
  "poll_wait decode E V i limit d w = (r, w') \<Longrightarrow> world_inv decode E V i P \<Longrightarrow> P w \<Longrightarrow> P w'"
proof (induction decode E V i limit d w rule: poll_wait.induct)
  case (1 decode E V i limit d w)
  note inv = world_invD [OF 1(4)]
  show ?case
  proof (cases "cw_now w < d")
    case True
    then show ?thesis
      using 1 inv(1) [OF 1(5)] by (subst (asm) (3) poll_wait.simps) (auto simp: Let_def split: if_splits)
  next
    case False
    then show ?thesis
      using 1 inv(1) [OF inv(2) [OF 1(5)]]
      by (subst (asm) (3) poll_wait.simps) (auto simp: Let_def split: if_splits)
  qed
qed

lemma attempt_inv:
  assumes "attempt decode E V i peer limit w = (r, w')" "world_inv decode E V i P" "P w"
  shows "P w'"
  using assms poll_wait_inv [OF _ assms(2), of limit _ "until decode E V _ w" r w'] world_invD(1) [OF assms(2,3)]
  by (auto simp: attempt_def Let_def split: prod.splits if_splits)

lemma try_peers_inv:
  "try_peers decode E V i deadline peers failure w = (ok, failure', w') \<Longrightarrow> world_inv decode E V i P \<Longrightarrow>
    P w \<Longrightarrow> P w'"
proof (induction peers arbitrary: failure w)
  case (Cons peer peers)
  obtain r w1 where a: "attempt decode E V i peer (cw_now w + min COLD_START_PER_PEER (deadline - cw_now w)) w = (r, w1)"
    by fastforce
  from attempt_inv [OF a Cons.prems(2,3)] a Cons show ?case
    by (cases r; cases "deadline - cw_now w = 0") (auto simp: Let_def)
qed simp

lemma cold_round_inv:
  assumes "cold_round decode E V i deadline failure w = (r, failure', w')" "world_inv decode E V i P" "P w"
  shows "P w'"
  using assms(1)
proof (cases rule: cold_round_cases)
  case (round d found peers failure1 ok w2)
  have "P w2" by (rule try_peers_inv [OF round(3) assms(2) world_invD(1) [OF assms(2,3)]])
  with round(4) world_invD(1) [OF assms(2)] show ?thesis by blast
qed (use assms(3) in simp)

lemma cold_rounds_inv:
  "cold_rounds decode E V i deadline failure w = (r, w') \<Longrightarrow> world_inv decode E V i P \<Longrightarrow> P w \<Longrightarrow> P w'"
proof (induction decode E V i deadline failure w rule: cold_rounds.induct)
  case (1 decode E V i deadline failure w)
  obtain o1 failure1 w1 where c: "cold_round decode E V i deadline failure w = (o1, failure1, w1)"
    by (metis prod_cases3)
  from cold_round_inv [OF c 1(3,4)] c 1 show ?case
    by (cases o1) (simp_all add: cold_rounds.simps [of decode E V i deadline failure w])
qed

abbreviation holds :: "did \<Rightarrow> cold_world \<Rightarrow> bool" where
  "holds i w \<equiv> fmlookup (ln_docs (cw_node w)) i \<noteq> None"

lemma poll_wait_Ok: "poll_wait decode E V i limit d w = (AttemptOk, w') \<Longrightarrow> holds i w'"
proof (induction decode E V i limit d w rule: poll_wait.induct)
  case (1 decode E V i limit d w)
  then show ?case by (subst (asm) (3) poll_wait.simps) (auto simp: Let_def split: if_splits)
qed

lemma attempt_Ok: "attempt decode E V i peer limit w = (AttemptOk, w') \<Longrightarrow> holds i w'"
  by (auto simp: attempt_def Let_def split: prod.splits if_splits dest: poll_wait_Ok)

lemma try_peers_Ok: "try_peers decode E V i deadline peers failure w = (True, failure', w') \<Longrightarrow> holds i w'"
proof (induction peers arbitrary: failure w)
  case (Cons peer peers)
  then show ?case by (auto simp: Let_def split: if_splits prod.splits attempt_result.splits dest: attempt_Ok)
qed simp

lemma cold_rounds_result:
  "cold_rounds decode E V i deadline failure w = (r, w') \<Longrightarrow>
     (case r of Inr _ \<Rightarrow> holds i w' | Inl _ \<Rightarrow> deadline \<le> cw_now w')"
proof (induction decode E V i deadline failure w rule: cold_rounds.induct)
  case (1 decode E V i deadline failure w)
  obtain o1 failure1 w1 where c: "cold_round decode E V i deadline failure w = (o1, failure1, w1)"
    by (metis prod_cases3)
  show ?case
  proof (cases o1)
    case None
    with 1 c show ?thesis by (simp add: cold_rounds.simps [of decode E V i deadline failure w])
  next
    case (Some s)
    then have "s = r" "w1 = w'"
      using 1(2) c by (simp_all add: cold_rounds.simps [of decode E V i deadline failure w])
    with c Some show ?thesis by (cases rule: cold_round_cases [OF c]) (auto dest: try_peers_Ok)
  qed
qed

text \<open>Lookups are the only wait that the deadline does not cut off; sleeps may be late.\<close>

definition timely :: "'p cold_env \<Rightarrow> nat \<Rightarrow> nat \<Rightarrow> bool" where
  "timely V lookup_timeout lateness \<longleftrightarrow> (\<forall>t. fst (ce_lookup V t) \<le> lookup_timeout \<and> ce_late V t \<le> lateness)"

lemma cold_round_time:
  assumes "cold_round decode E V i deadline failure w = (r, failure', w')" "timely V l j"
    "cw_now w \<le> deadline + max l j"
  shows "cw_now w' \<le> deadline + max l j"
  using assms(1)
proof (cases rule: cold_round_cases)
  case (round d found peers failure1 ok w2)
  have "d \<le> l" "ce_late V (cw_now w2) \<le> j"
    using assms(2) round(2) unfolding timely_def by (metis fst_conv, blast)
  moreover have "cw_now w2 \<le> max deadline (cw_now w + d)" using try_peers_now [OF round(3)] by simp
  ultimately show ?thesis using round(1,4) by auto
qed (use assms(3) in simp)

lemma cold_rounds_time:
  "cold_rounds decode E V i deadline failure w = (r, w') \<Longrightarrow> timely V l j \<Longrightarrow>
    cw_now w \<le> deadline + max l j \<Longrightarrow> cw_now w' \<le> deadline + max l j"
proof (induction decode E V i deadline failure w rule: cold_rounds.induct)
  case (1 decode E V i deadline failure w)
  obtain o1 failure1 w1 where c: "cold_round decode E V i deadline failure w = (o1, failure1, w1)"
    by (metis prod_cases3)
  from cold_round_time [OF c 1(3,4)] c 1 show ?case
    by (cases o1) (simp_all add: cold_rounds.simps [of decode E V i deadline failure w])
qed

lemma run_loop_step_policy:
  assumes "run_loop_step decode E n raw = (es, n')"
  shows "ln_policy n' = ln_policy n" "ln_dht n' = ln_dht n" "ln_persistent n' = ln_persistent n"
  using assms by (auto simp: run_loop_step_def Let_def split: option.splits prod.splits)

lemma loop_payloads_policy:
  "loop_payloads decode E raws n = (es, n') \<Longrightarrow>
    ln_policy n' = ln_policy n \<and> ln_dht n' = ln_dht n \<and> ln_persistent n' = ln_persistent n"
  by (induction raws arbitrary: n es) (auto split: prod.splits simp: run_loop_step_policy)

lemma cold_start_inner_policy:
  assumes "cold_start_inner decode E V i budget w = (r, w')"
  shows "ln_policy (cw_node w') = ln_policy (cw_node w)"
proof -
  have "world_inv decode E V i (\<lambda>x. ln_policy (cw_node x) = ln_policy (cw_node w))"
    by (auto simp: world_inv_def until_def loop_payloads_policy split: prod.splits)
  from cold_rounds_inv [OF _ this] assms show ?thesis
    by (auto simp: cold_start_inner_def split: if_splits)
qed

lemma map_policy_simps [simp]:
  "cw_now (map_policy f w) = cw_now w" "ln_docs (cw_node (map_policy f w)) = ln_docs (cw_node w)"
  "ln_dht (cw_node (map_policy f w)) = ln_dht (cw_node w)" "cw_effects (map_policy f w) = cw_effects w"
  "ln_policy (cw_node (map_policy f w)) = f (ln_policy (cw_node w))"
  by (simp_all add: map_policy_def)

fun loop_turns ::
    "'t transport \<Rightarrow> externs \<Rightarrow> bytes list \<Rightarrow> live_node \<Rightarrow> 't \<Rightarrow> live_effect list \<times> live_node \<times> 't" where
  "loop_turns T E [] n net = ([], n, net)"
| "loop_turns T E (raw # raws) n net =
     (case loop_turn T E n raw net of (es, n1, net1) \<Rightarrow>
        (case loop_turns T E raws n1 net1 of (es', n2, net2) \<Rightarrow> (es @ es', n2, net2)))"

section \<open>Properties\<close>

text \<open>
  C14: A failing transport loses no inbound delta.  Whatever broadcasts fail, the message loop over
  the gossip engine takes the node through the same documents, routing states, snapshots and DHT
  publications as the routing function does on the same payloads; only broadcasts are missing.
\<close>

theorem transport_failures_harmless:
  "case loop_payloads (msg_from_slice T) E raws n of (es, n') \<Rightarrow>
     (case loop_turns T E raws n net of (es', n'', _) \<Rightarrow> n'' = n' \<and> es' = filter not_broadcast es)"
proof (induction raws arbitrary: n net)
  case (Cons raw raws)
  obtain es1 n1 net1 where t: "loop_turn T E n raw net = (es1, n1, net1)" by (metis prod_cases3)
  obtain es2 n2 where s: "run_loop_step (msg_from_slice T) E n raw = (es2, n2)" by fastforce
  from loop_turn_run_loop_step [OF t s] Cons.IH [of n1 net1] show ?case
    by (auto simp: t s split: prod.splits)
qed simp

text \<open>
  C38: A failed request is never repeated.  When the request that answers an announcement fails to be
  sent, the announced state stays marked as seen: every later announcement of it is dropped without
  a request, and when the node itself comes to that state its own announcement is skipped as well.
\<close>

theorem failed_request_sticks:
  assumes "handle_message T E g (Announce i h c) docs net = (Inl e, g', net')"
    "doc_content_hash E doc = Inr h" "doc_did doc = i"
  shows "handle_message T E g' (Announce i h c') docs' net'' = (Inr None, g', net'') \<and>
    engine_announce T E g' doc clock net'' = (Inr (), g', net'')"
proof -
  obtain out inbound st where hd: "handle E (ge_state g) (Announce i h c) docs (ge_policy g) = (out, inbound, st)"
    by (metis prod_cases3)
  then have "(i, h) |\<in>| gossip_seen st"
    by (auto simp: handle_def mark_seen_def split: option.splits bool.splits if_splits)
  moreover have "g' = g\<lparr>ge_state := st\<rparr>"
    using assms(1) hd by (auto simp: handle_message_def split: prod.splits sum.splits)
  ultimately have "mark_seen (ge_state g') i h = (False, ge_state g')"
    by (simp add: mark_seen_def finsert_absorb)
  with assms(2,3) show ?thesis by (simp add: handle_message_def handle_def engine_announce_def)
qed

lemma map_policy_twice: "map_policy f (map_policy g w) = map_policy (\<lambda>p. f (g p)) w"
  by (simp add: map_policy_def)

text \<open>
  C15: A cold start succeeds only with the document, fails at once without a DHT, and otherwise fails
  only when its time is spent.  With a DHT it answers with success only when the store holds the
  document, and with a failure not before the budget has elapsed.  Without a DHT the failure is
  immediate: no time passes, no payload is handled, nothing is sent, and the world is the one before
  but for the admission policy.  In every case the identifier is no longer solicited while
  everything else of the policy is as before.
\<close>

theorem cold_start_exact:
  "case cold_start_bootstrap decode E V i budget w of (r, w') \<Rightarrow>
     (if ln_dht (cw_node w)
      then (case r of Inr _ \<Rightarrow> holds i w' | Inl _ \<Rightarrow> cw_now w + budget \<le> cw_now w')
      else r = Inl DhtDisabled \<and>
        w' = w\<lparr>cw_node := (cw_node w)\<lparr>ln_policy := remove_wanted (ln_policy (cw_node w)) i\<rparr>\<rparr>) \<and>
     ln_policy (cw_node w') = remove_wanted (ln_policy (cw_node w)) i"
proof -
  let ?w = "map_policy (\<lambda>p. add_wanted p i) w"
  obtain r w1 where c: "cold_start_inner decode E V i budget ?w = (r, w1)" by fastforce
  have off: "remove_wanted (add_wanted p i) i = remove_wanted p i" for p
    by (auto simp: remove_wanted_def add_wanted_def)
  with cold_start_inner_policy [OF c] have p: "remove_wanted (ln_policy (cw_node w1)) i = remove_wanted (ln_policy (cw_node w)) i"
    by simp
  show ?thesis
  proof (cases "ln_dht (cw_node w)")
    case True
    with c have "cold_rounds decode E V i (cw_now w + budget) NoLookupAttempted ?w = (r, w1)"
      by (simp add: cold_start_inner_def)
    from cold_rounds_result [OF this] p c True show ?thesis
      by (cases r) (simp_all add: cold_start_bootstrap_def)
  next
    case False
    with c have "r = Inl DhtDisabled" "w1 = ?w" by (simp_all add: cold_start_inner_def)
    with c False show ?thesis
      by (simp add: cold_start_bootstrap_def map_policy_twice off) (simp add: map_policy_def)
  qed
qed

text \<open>
  C16: A cold start overruns its budget by at most one DHT lookup or one late wake-up.  Attempts and
  pauses are cut off at the deadline, but a lookup that begins before it is waited for.
\<close>

theorem cold_start_bounded:
  assumes "timely V lookup_timeout lateness"
  shows "cw_now (snd (cold_start_bootstrap decode E V i budget w))
    \<le> cw_now w + budget + max lookup_timeout lateness"
proof -
  let ?w = "map_policy (\<lambda>p. add_wanted p i) w"
  obtain r w1 where c: "cold_start_inner decode E V i budget ?w = (r, w1)" by fastforce
  then have "cw_now w1 \<le> cw_now w + budget + max lookup_timeout lateness"
    using cold_rounds_time [OF _ assms, of decode E i "cw_now w + budget" NoLookupAttempted ?w r w1]
    by (auto simp: cold_start_inner_def split: if_splits)
  with c show ?thesis by (simp add: cold_start_bootstrap_def)
qed

text \<open>
  C39: One silent peer takes the whole budget.  When the budget is not longer than the share of a
  peer, as in the default configuration, and the connection to the first peer of a lookup does not
  complete in time, no other peer is tried, however many the lookup found.
\<close>

theorem silent_peer_takes_budget:
  assumes "budget \<le> COLD_START_PER_PEER" "ln_dht (cw_node w)" "ce_lookup V (cw_now w) = (d, Inr (peer # peers))"
    "d < budget" "budget < d + fst (ce_connect V peer (cw_now w + d))"
  shows "cold_start_inner decode E V i budget w =
    (Inl (PeerTimedOut peer), until decode E V (cw_now w + budget) (until decode E V (cw_now w + d) w))"
proof -
  obtain t ok where con: "ce_connect V peer (cw_now w + d) = (t, ok)" by fastforce
  let ?w1 = "until decode E V (cw_now w + d) w" and ?deadline = "cw_now w + budget"
  have "attempt decode E V i peer ?deadline ?w1 = (AttemptElapsed, until decode E V ?deadline ?w1)"
    using con assms(5) by (simp add: attempt_def)
  moreover have "cw_now ?w1 + min COLD_START_PER_PEER (?deadline - cw_now ?w1) = ?deadline"
    using assms(1,4) by (auto simp: min_def)
  moreover have "try_peers decode E V i ?deadline peers f (until decode E V ?deadline ?w1) =
      (False, f, until decode E V ?deadline ?w1)" for f
    by (cases peers) simp_all
  ultimately have "try_peers decode E V i ?deadline (peer # peers) NoLookupAttempted ?w1 =
      (False, PeerTimedOut peer, until decode E V ?deadline ?w1)"
    using assms(4) by (simp add: Let_def)
  then have "cold_round decode E V i ?deadline NoLookupAttempted w =
      (Some (Inl (PeerTimedOut peer)), PeerTimedOut peer, until decode E V ?deadline ?w1)"
    using assms(3,4) by (simp add: cold_round_def)
  then show ?thesis using assms(2) by (simp add: cold_start_inner_def cold_rounds.simps)
qed

section \<open>Examples\<close>

text \<open>A transport whose broadcasts fail, and a node that lacks the announced state.\<close>

definition ex_broken :: "unit transport" where
  "ex_broken = \<lparr>msg_to_vec = (\<lambda>_. Some []), msg_from_slice = (\<lambda>_. None), net_broadcast = (\<lambda>net b. (Inl (), net))\<rparr>"

theorem failed_request_sticks_witness:
  "\<exists>h g. handle_message ex_broken ex_externs (engine_new replicate_all) (Announce (doc_did ex_doc) h hlc_default) fmempty ()
       = (Inl GossipBroadcast, g, ()) \<and>
     handle_message ex_broken ex_externs g (Announce (doc_did ex_doc) h hlc_default) fmempty () = (Inr None, g, ())"
proof -
  obtain h where h: "doc_content_hash ex_externs ex_doc = Inr h"
    by (simp add: doc_content_hash_def ex_externs_def ref_externs_def)
  obtain g where g: "handle_message ex_broken ex_externs (engine_new replicate_all) (Announce (doc_did ex_doc) h hlc_default) fmempty ()
      = (Inl GossipBroadcast, g, ())"
    by (simp add: handle_message_def handle_def engine_new_def mark_seen_def gossip_new_def replicate_all_def wants_def
        do_broadcast_def ex_broken_def)
  with failed_request_sticks [OF g h refl] show ?thesis by blast
qed

text \<open>A network without traffic: lookups that take 999 milliseconds and find nobody, or at once find
  two peers that do not answer.\<close>

definition ex_empty_dht :: "nat cold_env" where
  "ex_empty_dht = \<lparr>ce_lookup = (\<lambda>_. (999, Inr [])), ce_connect = (\<lambda>_ _. (0, True)), ce_broadcast = (\<lambda>_. 0),
     ce_late = (\<lambda>_. 0), ce_inbound = (\<lambda>_ _. []),
     ce_to_vec = (\<lambda>_. Some [])\<rparr>"

definition ex_silent :: "nat cold_env" where
  "ex_silent = \<lparr>ce_lookup = (\<lambda>_. (100, Inr [1, 2])), ce_connect = (\<lambda>p _. (if p = 1 then 60000 else 10, True)),
     ce_broadcast = (\<lambda>_. 0), ce_late = (\<lambda>_. 0), ce_inbound = (\<lambda>_ _. []),
     ce_to_vec = (\<lambda>_. Some [])\<rparr>"

definition ex_cold :: cold_world where
  "ex_cold = \<lparr>cw_now = 0, cw_node = \<lparr>ln_docs = fmempty, ln_gossip = gossip_new, ln_policy = solicited_only,
     ln_persistent = False, ln_dht = True\<rparr>, cw_effects = []\<rparr>"

text \<open>With the default budget of 1500 milliseconds the first network keeps a resolution for 2498.\<close>

theorem cold_start_bounded_witness:
  "cw_now (snd (cold_start_bootstrap (\<lambda>_. None) ex_externs ex_empty_dht ex_did 1500 ex_cold)) = 2498 \<and>
   cw_now (snd (cold_start_bootstrap (\<lambda>_. None) ex_externs ex_empty_dht ex_did 1500 ex_cold)) \<le> 2500"
proof -
  have "timely ex_empty_dht 1000 0" by (simp add: timely_def ex_empty_dht_def)
  from cold_start_bounded [OF this, of "\<lambda>_. None" ex_externs ex_did 1500 ex_cold]
  have "cw_now (snd (cold_start_bootstrap (\<lambda>_. None) ex_externs ex_empty_dht ex_did 1500 ex_cold)) \<le> 2500"
    by (simp add: ex_cold_def)
  moreover have "cw_now (snd (cold_start_bootstrap (\<lambda>_. None) ex_externs ex_empty_dht ex_did 1500 ex_cold)) = 2498"
    by (simp add: cold_start_bootstrap_def cold_start_inner_def map_policy_def ex_cold_def cold_rounds.simps
        cold_round_def ex_empty_dht_def until_def)
  ultimately show ?thesis by blast
qed

theorem silent_peer_takes_budget_witness:
  "fst (cold_start_inner (\<lambda>_. None) ex_externs ex_silent ex_did 1500 ex_cold) = Inl (PeerTimedOut 1)"
  using silent_peer_takes_budget [of 1500 ex_cold ex_silent 100 1 "[2]" "\<lambda>_. None" ex_externs ex_did]
  by (simp add: COLD_START_PER_PEER_def ex_cold_def ex_silent_def)

end
