(* ===== verification/Projection.thy ===== *)
theory Projection
  imports Document
begin

text \<open>
  Resolution (\<open>Document::resolve\<close> and \<open>Document::jwk_from_multibase\<close> of \<open>src/core/document.rs\<close>):
  the projection of the CRDT state to a DID document with its metadata.  The lemmas read off what
  each array of the projected document holds.
\<close>

section \<open>The projection\<close>

text \<open>\<open>serde_json\<close> keeps the members of the key object sorted by name.\<close>

definition jwk_from_multibase :: "externs \<Rightarrow> string \<Rightarrow> json option" where
  "jwk_from_multibase E multibase =
     (case strip_prefix ''u'' multibase of
        None \<Rightarrow> None
      | Some rest \<Rightarrow>
          (case b64_decode E rest of
             None \<Rightarrow> None
           | Some raw \<Rightarrow>
               if length raw \<noteq> 32 then None
               else Some (JObject [(''crv'', JString ''Ed25519''), (''kty'', JString ''OKP''),
                                   (''x'', JString (b64_encode E raw))])))"

fun push_relationship :: "string \<Rightarrow> verification_relationship \<Rightarrow> did_document \<Rightarrow> did_document" where
  "push_relationship i Authentication dd = dd\<lparr>dd_authentication := dd_authentication dd @ [JString i]\<rparr>"
| "push_relationship i AssertionMethod dd = dd\<lparr>dd_assertion_method := dd_assertion_method dd @ [JString i]\<rparr>"
| "push_relationship i KeyAgreement dd = dd\<lparr>dd_key_agreement := dd_key_agreement dd @ [JString i]\<rparr>"
| "push_relationship i CapabilityInvocation dd =
     dd\<lparr>dd_capability_invocation := dd_capability_invocation dd @ [JString i]\<rparr>"
| "push_relationship i CapabilityDelegation dd =
     dd\<lparr>dd_capability_delegation := dd_capability_delegation dd @ [JString i]\<rparr>"

definition method_of :: "did \<Rightarrow> verification_method_entry \<Rightarrow> verification_method" where
  "method_of i e =
     \<lparr>vmt_id = vme_id e, vmt_type = verification_method_type (vme_suite_type e), vmt_controller = did_to_string i,
      vmt_public_key_multibase = Some (vme_public_key_multibase e), vmt_public_key_jwk = None\<rparr>"

definition project_entry :: "externs \<Rightarrow> document \<Rightarrow> verification_method_entry \<Rightarrow> did_document \<Rightarrow> did_document" where
  "project_entry E doc e dd =
     (if rvm_contains E (doc_revoked_verification_methods doc) (vme_id e) then dd
      else fold (push_relationship (vme_id e)) (vme_relationships e)
             (dd\<lparr>dd_verification_method := dd_verification_method dd @ [method_of (doc_did doc) e]\<rparr>))"

definition asserting :: "did_document \<Rightarrow> verification_method list" where
  "asserting dd =
     sort_key vmt_id
       (filter (\<lambda>m. list_ex (\<lambda>r. r = JString (vmt_id m)) (dd_assertion_method dd)) (dd_verification_method dd))"

definition twin_of :: "externs \<Rightarrow> did \<Rightarrow> nat \<times> verification_method \<Rightarrow> verification_method option" where
  "twin_of E i im =
     (case vmt_public_key_multibase (snd im) of
        None \<Rightarrow> None
      | Some mb \<Rightarrow>
          (case jwk_from_multibase E mb of
             None \<Rightarrow> None
           | Some jwk \<Rightarrow>
               Some \<lparr>vmt_id = did_to_string i @ JWK_FRAGMENT_PREFIX @ dec_string (fst im),
                     vmt_type = JSON_WEB_KEY_TYPE, vmt_controller = did_to_string i,
                     vmt_public_key_multibase = None, vmt_public_key_jwk = Some jwk\<rparr>))"

definition twins :: "externs \<Rightarrow> did \<Rightarrow> did_document \<Rightarrow> verification_method list" where
  "twins E i dd = List.map_filter (twin_of E i) (enumerate 0 (asserting dd))"

definition push_twin :: "verification_method \<Rightarrow> did_document \<Rightarrow> did_document" where
  "push_twin t dd =
     dd\<lparr>dd_assertion_method := dd_assertion_method dd @ [JString (vmt_id t)],
        dd_verification_method := dd_verification_method dd @ [t]\<rparr>"

definition project_service :: "service_entry \<Rightarrow> did_document \<Rightarrow> did_document" where
  "project_service e dd =
     dd\<lparr>dd_service := dd_service dd @
          [\<lparr>sep_id = se_id e, sep_type = se_service_type e, sep_endpoint = JString (se_endpoint e)\<rparr>]\<rparr>"

definition project_data :: "string \<times> json \<Rightarrow> did_document \<Rightarrow> did_document" where
  "project_data kv dd =
     (if is_reserved_document_property (fst kv) then dd
      else dd\<lparr>dd_extra := fmupd (fst kv) (snd kv) (dd_extra dd)\<rparr>)"

definition project_document :: "externs \<Rightarrow> document \<Rightarrow> did_document" where
  "project_document E doc =
     (let dd0 = did_document_empty (doc_did doc);
          dd1 = fold (project_entry E doc) (vm_entries E (doc_verification_methods doc)) dd0;
          dd2 = fold push_twin (twins E (doc_did doc) dd1) dd1;
          dd3 = fold project_service (svc_entries (doc_service_endpoints doc)) dd2;
          dd4 = dd3\<lparr>dd_also_known_as := aka_entries (doc_also_known_as doc)\<rparr>
      in fold project_data (data_iter (doc_document_data doc)) dd4)"

definition version_content_of :: "externs \<Rightarrow> document \<Rightarrow> version_content" where
  "version_content_of E doc =
     (did_to_string (doc_did doc), vm_entries E (doc_verification_methods doc),
      svc_entries (doc_service_endpoints doc), data_iter (doc_document_data doc),
      aka_entries (doc_also_known_as doc), rev_entries E (doc_revocations doc),
      rvm_entries E (doc_revoked_verification_methods doc), ak_current (doc_active_key doc),
      ak_seq (doc_active_key doc), deact_is_set (doc_deactivated doc))"

definition resolve :: "externs \<Rightarrow> document \<Rightarrow> resolution_result result" where
  "resolve E doc =
     (let deactivated = deact_is_set (doc_deactivated doc);
          dd = (if deactivated then None else Some (project_document E doc))
      in case version_to_vec E (version_content_of E doc) of
           None \<Rightarrow> Inl Serialisation
         | Some bytes \<Rightarrow>
             Inr \<lparr>rr_did_resolution_metadata = \<lparr>drm_content_type = ''application/did+ld+json''\<rparr>,
                  rr_did_document = dd,
                  rr_did_document_metadata =
                    \<lparr>ddm_deactivated = deactivated, ddm_version_id = to_hex E (blake3 E bytes),
                     ddm_created = map_option ms_to_iso8601 (doc_created_ms doc),
                     ddm_updated = map_option ms_to_iso8601 (doc_updated_ms doc),
                     ddm_genesis_public_key_multibase = genesis_public_key_multibase E doc,
                     ddm_signed_closure = None\<rparr>\<rparr>)"

section \<open>The projected arrays\<close>

definition refs :: "verification_relationship \<Rightarrow> verification_method_entry \<Rightarrow> json list" where
  "refs R e = map (\<lambda>_. JString (vme_id e)) (filter ((=) R) (vme_relationships e))"

lemma fold_push_relationship:
  "fold (push_relationship i) rs dd =
     dd\<lparr>dd_authentication := dd_authentication dd @ map (\<lambda>_. JString i) (filter ((=) Authentication) rs),
        dd_assertion_method := dd_assertion_method dd @ map (\<lambda>_. JString i) (filter ((=) AssertionMethod) rs),
        dd_key_agreement := dd_key_agreement dd @ map (\<lambda>_. JString i) (filter ((=) KeyAgreement) rs),
        dd_capability_invocation :=
          dd_capability_invocation dd @ map (\<lambda>_. JString i) (filter ((=) CapabilityInvocation) rs),
        dd_capability_delegation :=
          dd_capability_delegation dd @ map (\<lambda>_. JString i) (filter ((=) CapabilityDelegation) rs)\<rparr>"
proof (induction rs arbitrary: dd)
  case (Cons r rs)
  show ?case by (cases r) (simp_all add: Cons.IH)
qed simp

definition shown :: "externs \<Rightarrow> document \<Rightarrow> verification_method_entry list \<Rightarrow> verification_method_entry list" where
  "shown E doc es = filter (\<lambda>e. \<not> rvm_contains E (doc_revoked_verification_methods doc) (vme_id e)) es"

lemma shown_Cons: "shown E doc (e # es) =
    (if rvm_contains E (doc_revoked_verification_methods doc) (vme_id e) then shown E doc es else e # shown E doc es)"
  by (simp add: shown_def)

lemma fold_project_entry:
  "fold (project_entry E doc) es dd =
     dd\<lparr>dd_verification_method := dd_verification_method dd @ map (method_of (doc_did doc)) (shown E doc es),
        dd_authentication := dd_authentication dd @ concat (map (refs Authentication) (shown E doc es)),
        dd_assertion_method := dd_assertion_method dd @ concat (map (refs AssertionMethod) (shown E doc es)),
        dd_key_agreement := dd_key_agreement dd @ concat (map (refs KeyAgreement) (shown E doc es)),
        dd_capability_invocation :=
          dd_capability_invocation dd @ concat (map (refs CapabilityInvocation) (shown E doc es)),
        dd_capability_delegation :=
          dd_capability_delegation dd @ concat (map (refs CapabilityDelegation) (shown E doc es))\<rparr>"
proof (induction es arbitrary: dd)
  case (Cons e es)
  show ?case
    by (cases "rvm_contains E (doc_revoked_verification_methods doc) (vme_id e)")
      (simp_all add: Cons.IH project_entry_def [of E doc e] shown_Cons fold_push_relationship refs_def [of _ e])
qed (simp add: shown_def)

lemma fold_push_twin:
  "fold push_twin ts dd =
     dd\<lparr>dd_assertion_method := dd_assertion_method dd @ map (\<lambda>t. JString (vmt_id t)) ts,
        dd_verification_method := dd_verification_method dd @ ts\<rparr>"
  by (induction ts arbitrary: dd) (simp_all add: push_twin_def)

lemma fold_project_service:
  "fold project_service es dd =
     dd\<lparr>dd_service := dd_service dd @ map (\<lambda>e. \<lparr>sep_id = se_id e, sep_type = se_service_type e,
          sep_endpoint = JString (se_endpoint e)\<rparr>) es\<rparr>"
  by (induction es arbitrary: dd) (simp_all add: project_service_def)

definition extra_of :: "(string \<times> json) list \<Rightarrow> (string, json) fmap" where
  "extra_of kvs = fold (\<lambda>(k, v) m. fmupd k v m) (filter (\<lambda>kv. \<not> is_reserved_document_property (fst kv)) kvs) fmempty"

lemma fold_project_data:
  "fold project_data kvs dd =
     dd\<lparr>dd_extra := fold (\<lambda>(k, v) m. fmupd k v m)
          (filter (\<lambda>kv. \<not> is_reserved_document_property (fst kv)) kvs) (dd_extra dd)\<rparr>"
  by (induction kvs arbitrary: dd) (simp_all add: project_data_def split_def)

abbreviation shown_keys :: "externs \<Rightarrow> document \<Rightarrow> verification_method_entry list" where
  "shown_keys E doc \<equiv> shown E doc (vm_entries E (doc_verification_methods doc))"

definition key_part :: "externs \<Rightarrow> document \<Rightarrow> did_document" where
  "key_part E doc = fold (project_entry E doc) (vm_entries E (doc_verification_methods doc)) (did_document_empty (doc_did doc))"

lemmas key_part_eq = key_part_def [unfolded fold_project_entry]

lemma key_part_simps [simp]:
  "dd_verification_method (key_part E doc) = map (method_of (doc_did doc)) (shown_keys E doc)"
  "dd_assertion_method (key_part E doc) = concat (map (refs AssertionMethod) (shown_keys E doc))"
  by (simp_all add: key_part_eq did_document_empty_def)

text \<open>The whole document in closed form.\<close>

lemma project_document_simps:
  fixes E doc
  defines "ts \<equiv> twins E (doc_did doc) (key_part E doc)"
  shows "dd_id (project_document E doc) = did_to_string (doc_did doc)"
    "dd_verification_method (project_document E doc) = map (method_of (doc_did doc)) (shown_keys E doc) @ ts"
    "dd_authentication (project_document E doc) = concat (map (refs Authentication) (shown_keys E doc))"
    "dd_assertion_method (project_document E doc) =
       concat (map (refs AssertionMethod) (shown_keys E doc)) @ map (\<lambda>t. JString (vmt_id t)) ts"
    "dd_key_agreement (project_document E doc) = concat (map (refs KeyAgreement) (shown_keys E doc))"
    "dd_capability_invocation (project_document E doc) = concat (map (refs CapabilityInvocation) (shown_keys E doc))"
    "dd_capability_delegation (project_document E doc) = concat (map (refs CapabilityDelegation) (shown_keys E doc))"
    "dd_extra (project_document E doc) = extra_of (data_iter (doc_document_data doc))"
    "dd_also_known_as (project_document E doc) = aka_entries (doc_also_known_as doc)"
  unfolding project_document_def Let_def key_part_def [symmetric] fold_project_data fold_project_service fold_push_twin
  by (simp_all add: ts_def) (simp_all add: key_part_eq did_document_empty_def extra_of_def)

section \<open>Member names\<close>

lemma opt_field_simps [simp]:
  "n \<in> set (opt_field m xs) \<longleftrightarrow> xs \<noteq> [] \<and> n = m" "distinct (opt_field m xs)"
  by (simp_all add: opt_field_def)

lemma map_of_unreserved: "map_of (filter (\<lambda>kv. \<not> R (fst kv)) kvs) k = (if R k then None else map_of kvs k)"
  by (induction kvs) auto

lemma extra_lookup:
  "fmlookup (extra_of (data_iter m)) k = (if is_reserved_document_property k then None else data_get m k)"
proof -
  have keys: "map fst (data_iter m) = map fst (sorted_list_of_fmap m)" by (simp add: data_iter_def split_def)
  have "map_of (data_iter m) k = data_get m k"
    by (simp add: data_iter_def data_get_def map_of_map)
  moreover have "distinct (map fst (filter (\<lambda>kv. \<not> is_reserved_document_property (fst kv)) (data_iter m)))"
    by (rule distinct_map_filter) (simp add: keys)
  ultimately show ?thesis
    unfolding extra_of_def
    by (subst fold_slotwise_list [where h = "\<lambda>k v s. Some v"]) (auto simp: map_of_unreserved split: option.split)
qed

lemma members_distinct:
  assumes "\<And>k. is_reserved_document_property k \<Longrightarrow> fmlookup (dd_extra dd) k = None"
  shows "distinct (did_document_members dd)"
proof -
  let ?xs = "map fst (sorted_list_of_fmap (dd_extra dd))"
  have "n \<in> set ?xs \<longleftrightarrow> fmlookup (dd_extra dd) n \<noteq> None" for n
    by (metis map_of_eq_None_iff map_of_sorted_list set_map)
  then have free: "is_reserved_document_property n \<Longrightarrow> n \<notin> set ?xs" for n using assms by blast
  have "''@context'' \<notin> set ?xs" "''id'' \<notin> set ?xs" "''alsoKnownAs'' \<notin> set ?xs" "''verificationMethod'' \<notin> set ?xs"
    "''authentication'' \<notin> set ?xs" "''assertionMethod'' \<notin> set ?xs" "''keyAgreement'' \<notin> set ?xs"
    "''capabilityInvocation'' \<notin> set ?xs" "''capabilityDelegation'' \<notin> set ?xs" "''service'' \<notin> set ?xs"
    by (rule free, simp add: is_reserved_document_property_def RESERVED_DOCUMENT_PROPERTIES_def)+
  then show ?thesis
    unfolding did_document_members_def
    by (simp add: distinct_append Int_Un_distrib disjoint_iff del: set_map)
qed

section \<open>What resolution publishes\<close>

lemma set_refs: "set (concat (map (refs R) es)) = {JString (vme_id e) |e. e \<in> set es \<and> R \<in> set (vme_relationships e)}"
  by (auto simp: refs_def)

lemma set_shown: "e \<in> set (shown E doc es) \<longleftrightarrow>
    e \<in> set es \<and> \<not> rvm_contains E (doc_revoked_verification_methods doc) (vme_id e)"
  by (simp add: shown_def)

lemma method_of_simps [simp]:
  "vmt_id (method_of i e) = vme_id e" "vmt_public_key_multibase (method_of i e) = Some (vme_public_key_multibase e)"
  "vmt_public_key_jwk (method_of i e) = None"
  by (simp_all add: method_of_def)

lemma asserting_mem: "m \<in> set (asserting (key_part E doc)) \<longleftrightarrow>
    (\<exists>e e'. e \<in> set (shown_keys E doc) \<and> e' \<in> set (shown_keys E doc) \<and> m = method_of (doc_did doc) e \<and>
       vme_id e' = vme_id e \<and> AssertionMethod \<in> set (vme_relationships e'))"
proof -
  have "m \<in> set (asserting (key_part E doc)) \<longleftrightarrow>
      m \<in> method_of (doc_did doc) ` set (shown_keys E doc) \<and>
      JString (vmt_id m) \<in> set (concat (map (refs AssertionMethod) (shown_keys E doc)))"
    unfolding asserting_def set_sort set_filter key_part_simps list_ex_iff set_map mem_Collect_eq by blast
  then show ?thesis unfolding set_refs mem_Collect_eq image_iff Bex_def
    by (metis method_of_simps(1) json.inject(3))
qed

lemma twin_of_Some: "twin_of E i (n, m) = Some t \<longleftrightarrow>
    (\<exists>mb jwk. vmt_public_key_multibase m = Some mb \<and> jwk_from_multibase E mb = Some jwk \<and>
       t = \<lparr>vmt_id = did_to_string i @ JWK_FRAGMENT_PREFIX @ dec_string n, vmt_type = JSON_WEB_KEY_TYPE,
            vmt_controller = did_to_string i, vmt_public_key_multibase = None, vmt_public_key_jwk = Some jwk\<rparr>)"
  by (cases "vmt_public_key_multibase m"; simp add: twin_of_def)
    (cases "jwk_from_multibase E (the (vmt_public_key_multibase m))"; auto)

lemma twins_mem: "t \<in> set (twins E i dd) \<longleftrightarrow>
    (\<exists>n. n < length (asserting dd) \<and> twin_of E i (n, asserting dd ! n) = Some t)"
  unfolding twins_def set_map_filter by (force simp: in_set_conv_nth nth_enumerate_eq)

lemma twin_keys: "(\<exists>t\<in>set (twins E i dd). vmt_public_key_jwk t = Some j) \<longleftrightarrow>
    (\<exists>m\<in>set (asserting dd). \<exists>mb. vmt_public_key_multibase m = Some mb \<and> jwk_from_multibase E mb = Some j)"
proof
  assume "\<exists>t\<in>set (twins E i dd). vmt_public_key_jwk t = Some j"
  then show "\<exists>m\<in>set (asserting dd). \<exists>mb. vmt_public_key_multibase m = Some mb \<and> jwk_from_multibase E mb = Some j"
    unfolding Bex_def twins_mem twin_of_Some by (auto simp: in_set_conv_nth)
next
  assume "\<exists>m\<in>set (asserting dd). \<exists>mb. vmt_public_key_multibase m = Some mb \<and> jwk_from_multibase E mb = Some j"
  then obtain n mb where n: "n < length (asserting dd)" "vmt_public_key_multibase (asserting dd ! n) = Some mb"
    "jwk_from_multibase E mb = Some j" by (auto simp: in_set_conv_nth)
  then obtain t where "twin_of E i (n, asserting dd ! n) = Some t" "vmt_public_key_jwk t = Some j"
    by (simp add: twin_of_def)
  with n(1) show "\<exists>t\<in>set (twins E i dd). vmt_public_key_jwk t = Some j" unfolding Bex_def twins_mem by blast
qed

lemma twins_shape:
  "t \<in> set (twins E i dd) \<Longrightarrow> vmt_public_key_multibase t = None \<and> vmt_public_key_jwk t \<noteq> None"
  unfolding twins_mem twin_of_Some by auto

lemma resolve_document:
  assumes "resolve E doc = Inr r" "rr_did_document r = Some dd"
  shows "dd = project_document E doc" "\<not> deact_is_set (doc_deactivated doc)"
  using assms by (auto simp: resolve_def Let_def split: option.splits if_splits)

text \<open>The JWK twins of a resolution: which keys they restate, and the ids under \<open>assertionMethod\<close>.\<close>

lemma resolved_twins:
  assumes "resolve E doc = Inr r" "rr_did_document r = Some dd"
  defines "jwks \<equiv> {m \<in> set (dd_verification_method dd). vmt_public_key_jwk m \<noteq> None}"
  shows "{j. \<exists>m\<in>jwks. vmt_public_key_jwk m = Some j} = {j. \<exists>e e'. e \<in> set (shown_keys E doc) \<and>
      e' \<in> set (shown_keys E doc) \<and> vme_id e' = vme_id e \<and> AssertionMethod \<in> set (vme_relationships e') \<and>
      jwk_from_multibase E (vme_public_key_multibase e) = Some j}"
    "set (dd_assertion_method dd) = {JString (vme_id e) |e. e \<in> set (shown_keys E doc) \<and>
      AssertionMethod \<in> set (vme_relationships e)} \<union> (\<lambda>m. JString (vmt_id m)) ` jwks"
proof -
  let ?ts = "twins E (doc_did doc) (key_part E doc)"
  note dd = resolve_document(1) [OF assms(1,2)]
  have jwks: "jwks = set ?ts"
    unfolding jwks_def dd project_document_simps(2) set_append set_map
    by (auto dest: twins_shape)
  show "{j. \<exists>m\<in>jwks. vmt_public_key_jwk m = Some j} = {j. \<exists>e e'. e \<in> set (shown_keys E doc) \<and>
      e' \<in> set (shown_keys E doc) \<and> vme_id e' = vme_id e \<and> AssertionMethod \<in> set (vme_relationships e') \<and>
      jwk_from_multibase E (vme_public_key_multibase e) = Some j}"
    unfolding jwks twin_keys unfolding Bex_def asserting_mem by fastforce
  show "set (dd_assertion_method dd) = {JString (vme_id e) |e. e \<in> set (shown_keys E doc) \<and>
      AssertionMethod \<in> set (vme_relationships e)} \<union> (\<lambda>m. JString (vmt_id m)) ` jwks"
    unfolding jwks unfolding dd project_document_simps(4) set_append set_refs by (simp add: image_def)
qed

text \<open>
  C25: Resolution publishes exactly the authority the state carries.  The document is for this
  identifier and withheld when it is deactivated; its JSON object has no duplicate member, so
  document data cannot shadow a typed property; the multibase keys it lists are exactly those of
  the key entries whose id is not revoked.  Under authentication, key agreement and both capability
  relationships stand exactly the ids of such entries that carry the relationship.  Under
  \<open>assertionMethod\<close> stand exactly the ids of such entries that carry it and the ids of the JWK
  twins, and every twin restates the key of an unrevoked entry under an id that asserts.
\<close>

theorem resolve_publishes_authority:
  assumes "resolve E doc = Inr r" "rr_did_document r = Some dd"
  shows "let valid = (\<lambda>e. e \<in> set (vm_entries E (doc_verification_methods doc)) \<and> \<not> is_vm_revoked E doc (vme_id e));
             holders = (\<lambda>R. {JString (vme_id e) |e. valid e \<and> R \<in> set (vme_relationships e)});
             jwks = {m \<in> set (dd_verification_method dd). vmt_public_key_jwk m \<noteq> None}
    in \<not> is_deactivated doc \<and> dd_id dd = did_to_string (doc_did doc) \<and> distinct (did_document_members dd) \<and>
       {(vmt_id m, k) |m k. m \<in> set (dd_verification_method dd) \<and> vmt_public_key_multibase m = Some k}
         = {(vme_id e, vme_public_key_multibase e) |e. valid e} \<and>
       set (dd_authentication dd) = holders Authentication \<and> set (dd_key_agreement dd) = holders KeyAgreement \<and>
       set (dd_capability_invocation dd) = holders CapabilityInvocation \<and>
       set (dd_capability_delegation dd) = holders CapabilityDelegation \<and>
       set (dd_assertion_method dd) = holders AssertionMethod \<union> (\<lambda>m. JString (vmt_id m)) ` jwks \<and>
       {j. \<exists>m\<in>jwks. vmt_public_key_jwk m = Some j} \<subseteq> {j. \<exists>e e'. valid e \<and> valid e' \<and> vme_id e' = vme_id e \<and>
         AssertionMethod \<in> set (vme_relationships e') \<and> jwk_from_multibase E (vme_public_key_multibase e) = Some j}"
proof -
  note dd = resolve_document [OF assms]
  have members: "distinct (did_document_members dd)"
    by (rule members_distinct) (simp add: dd(1) project_document_simps(8) extra_lookup)
  have keys: "{(vmt_id m, k) |m k. m \<in> set (dd_verification_method dd) \<and> vmt_public_key_multibase m = Some k}
      = {(vme_id e, vme_public_key_multibase e) |e. e \<in> set (shown_keys E doc)}"
    unfolding dd(1) project_document_simps(2) set_append set_map
    by (auto dest: twins_shape) (metis image_eqI method_of_simps(1,2))
  have doc: "\<not> is_deactivated doc" "dd_id dd = did_to_string (doc_did doc)"
    using dd(2) by (simp_all add: dd(1) is_deactivated_def project_document_simps)
  have rels:
    "set (dd_authentication dd) = {JString (vme_id e) |e. e \<in> set (shown_keys E doc) \<and> Authentication \<in> set (vme_relationships e)}"
    "set (dd_key_agreement dd) = {JString (vme_id e) |e. e \<in> set (shown_keys E doc) \<and> KeyAgreement \<in> set (vme_relationships e)}"
    "set (dd_capability_invocation dd) = {JString (vme_id e) |e. e \<in> set (shown_keys E doc) \<and> CapabilityInvocation \<in> set (vme_relationships e)}"
    "set (dd_capability_delegation dd) = {JString (vme_id e) |e. e \<in> set (shown_keys E doc) \<and> CapabilityDelegation \<in> set (vme_relationships e)}"
    by (simp_all add: dd(1) project_document_simps set_refs del: set_concat)
  show ?thesis
    unfolding Let_def is_vm_revoked_def set_shown [symmetric]
    by (intro conjI doc members keys rels resolved_twins(2) [OF assms] equalityD1 [OF resolved_twins(1) [OF assms]])
qed

text \<open>
  C26: The JWK twins are exactly those of the asserting ids.  A key is restated as a JWK, and its
  twin listed under \<open>assertionMethod\<close>, exactly when its entry is not revoked, it is a 32-byte
  multibase key, and some unrevoked entry with the same id asserts, be it another entry with
  another key.
\<close>

theorem resolve_twins_exact:
  assumes "resolve E doc = Inr r" "rr_did_document r = Some dd"
  shows "let valid = (\<lambda>e. e \<in> set (vm_entries E (doc_verification_methods doc)) \<and> \<not> is_vm_revoked E doc (vme_id e));
             jwks = {m \<in> set (dd_verification_method dd). vmt_public_key_jwk m \<noteq> None}
    in {j. \<exists>m\<in>jwks. vmt_public_key_jwk m = Some j}
         = {j. \<exists>e e'. valid e \<and> valid e' \<and> vme_id e' = vme_id e \<and> AssertionMethod \<in> set (vme_relationships e') \<and>
              jwk_from_multibase E (vme_public_key_multibase e) = Some j} \<and>
       set (dd_assertion_method dd)
         = {JString (vme_id e) |e. valid e \<and> AssertionMethod \<in> set (vme_relationships e)} \<union> (\<lambda>m. JString (vmt_id m)) ` jwks"
  unfolding Let_def is_vm_revoked_def set_shown [symmetric]
  by (rule conjI [OF resolved_twins [OF assms]])

section \<open>Examples\<close>

text \<open>A document with two entries of one id: one only authenticates, the other asserts.\<close>

definition ex_auth :: verification_method_entry where
  "ex_auth = VerificationMethodEntry ''#k'' (CHR ''u'' # replicate 32 (CHR ''a'')) Ed25519Signature2020 [Authentication]"

definition ex_assert :: verification_method_entry where
  "ex_assert = VerificationMethodEntry ''#k'' ''ub'' Ed25519Signature2020 [AssertionMethod]"

definition ex_resolved :: resolution_result where
  "ex_resolved = projr (resolve ex_externs (ex_doc_with {|ex_auth, ex_assert|}))"

lemma ex_resolve:
  "resolve ex_externs (ex_doc_with {|ex_auth, ex_assert|}) = Inr ex_resolved"
  "rr_did_document ex_resolved = Some (project_document ex_externs (ex_doc_with {|ex_auth, ex_assert|}))"
  by (simp_all add: ex_resolved_def resolve_def Let_def ex_externs_def ref_externs_def ex_doc_with_def doc_blank_def
      deact_new_def deact_is_set_def)

lemma ex_vm_entries: "set (vm_entries ex_externs (doc_verification_methods (ex_doc_with S))) = fset S"
  by (simp add: vm_entries_def crdts_simps [OF ex_crdts_laws] ex_doc_with_def)

lemma ex_none_revoked: "\<not> is_vm_revoked ex_externs (ex_doc_with S) k"
  by (simp add: is_vm_revoked_def rvm_contains_def crdts_simps [OF ex_crdts_laws] ex_doc_with_def doc_blank_def rvm_new_def)

theorem resolve_publishes_authority_witness:
  "set (dd_authentication (project_document ex_externs (ex_doc_with {|ex_auth, ex_assert|}))) = {JString ''#k''}"
proof -
  have "set (dd_authentication (project_document ex_externs (ex_doc_with {|ex_auth, ex_assert|})))
      = {JString (vme_id e) |e. e \<in> fset {|ex_auth, ex_assert|} \<and> Authentication \<in> set (vme_relationships e)}"
    using resolve_publishes_authority [OF ex_resolve] unfolding Let_def ex_vm_entries by (simp add: ex_none_revoked)
  also have "\<dots> = {JString (vme_id ex_auth)}" 
  proof -
    have "Authentication \<in> set (vme_relationships ex_auth)" "Authentication \<notin> set (vme_relationships ex_assert)"
      by (simp_all add: ex_auth_def ex_assert_def)
    then show ?thesis by auto
  qed
  also have "\<dots> = {JString ''#k''}" by (simp add: ex_auth_def)
  finally show ?thesis .
qed

theorem resolve_twins_exact_witness:
  "\<exists>m\<in>set (dd_verification_method (project_document ex_externs (ex_doc_with {|ex_auth, ex_assert|}))).
     vmt_public_key_jwk m = jwk_from_multibase ex_externs (vme_public_key_multibase ex_auth) \<and>
     vmt_public_key_jwk m \<noteq> None \<and>
     JString (vmt_id m) \<in> set (dd_assertion_method (project_document ex_externs (ex_doc_with {|ex_auth, ex_assert|})))"
proof -
  let ?dd = "project_document ex_externs (ex_doc_with {|ex_auth, ex_assert|})"
  obtain j where j: "jwk_from_multibase ex_externs (vme_public_key_multibase ex_auth) = Some j"
    by (simp add: jwk_from_multibase_def ex_auth_def ex_externs_def ref_externs_def str_bytes_def)
  have rel: "AssertionMethod \<in> set (vme_relationships ex_assert)" "vme_id ex_assert = vme_id ex_auth"
    by (simp_all add: ex_assert_def ex_auth_def)
  note exact = resolve_twins_exact [OF ex_resolve, unfolded Let_def ex_vm_entries]
  have "j \<in> {j. \<exists>m\<in>{m \<in> set (dd_verification_method ?dd). vmt_public_key_jwk m \<noteq> None}. vmt_public_key_jwk m = Some j}"
    unfolding exact [THEN conjunct1] using j rel by (auto simp: ex_none_revoked)
  then obtain m where m: "m \<in> {m \<in> set (dd_verification_method ?dd). vmt_public_key_jwk m \<noteq> None}" "vmt_public_key_jwk m = Some j"
    by blast
  moreover from m(1) have "JString (vmt_id m) \<in> set (dd_assertion_method ?dd)"
    unfolding exact [THEN conjunct2] by blast
  ultimately show ?thesis using j by auto
qed

end
