(* ===== verification/Store.thy ===== *)
theory Store
  imports Replica "HOL-Library.AList"
begin

text \<open>
  The snapshot store (\<open>src/sync/store.rs\<close>) and the byte form of a document
  (\<open>Document::to_bytes\<close>, \<open>Document::from_bytes\<close>).  The iroh-blobs store and the serde
  serialiser of a snapshot are parameters; the laws below are what their documentation promises:
  an imported blob can be read back under the hash it was given, a tag listing shows every tag
  with its last value, and deserialisation inverts serialisation.  Every call of the store can
  fail with an I/O error.  Non-UTF-8 tag names are skipped before parsing, as in the source.
\<close>

section \<open>The store below\<close>

datatype blob_format = Raw | HashSeq

record hash_and_format =
  hf_hash :: bytes
  hf_format :: blob_format

text \<open>\<open>iroh_blobs::store::Store\<close>, with \<open>Inl ()\<close> for an I/O error: \<open>'s\<close> is the state of the store,
  \<open>'e\<close> an entry found by its hash and \<open>'r\<close> a reader of an entry.\<close>

record ('s, 'e, 'r) blobs =
  import_bytes :: "'s \<Rightarrow> bytes \<Rightarrow> blob_format \<Rightarrow> (unit + bytes) \<times> 's"
  set_tag :: "'s \<Rightarrow> bytes \<Rightarrow> hash_and_format option \<Rightarrow> (unit + unit) \<times> 's"
  get_entry :: "'s \<Rightarrow> bytes \<Rightarrow> unit + 'e option"
  data_reader :: "'e \<Rightarrow> unit + 'r"
  read_to_end :: "'r \<Rightarrow> unit + bytes"
  tags :: "'s \<Rightarrow> unit + (unit + (bytes \<times> hash_and_format)) list"

text \<open>\<open>serde_json\<close> on a document: \<open>None\<close> is a serialisation error.\<close>

record snapshots =
  doc_to_vec :: "document_repr \<Rightarrow> bytes option"
  doc_from_slice :: "bytes \<Rightarrow> document_repr option"

section \<open>Bytes of a document\<close>

definition to_bytes :: "snapshots \<Rightarrow> document \<Rightarrow> bytes result" where
  "to_bytes X doc = (case doc_to_vec X (to_repr doc) of None \<Rightarrow> Inl Serialisation | Some b \<Rightarrow> Inr b)"

definition from_bytes :: "externs \<Rightarrow> snapshots \<Rightarrow> bytes \<Rightarrow> document result" where
  "from_bytes E X b =
     (case doc_from_slice X b of
        None \<Rightarrow> Inl Serialisation
      | Some r \<Rightarrow> (case try_from E r of Inl _ \<Rightarrow> Inl Serialisation | Inr doc \<Rightarrow> Inr doc))"

section \<open>Operations\<close>

datatype store_error =
    StoreSerialisation
  | StoreIo
  | StoreCore error

definition did_tag :: "string \<Rightarrow> bytes" where
  "did_tag s = str_bytes s"

definition save ::
  "snapshots \<Rightarrow> ('s, 'e, 'r) blobs \<Rightarrow> 's \<Rightarrow> document \<Rightarrow> (store_error + bytes) \<times> 's" where
  "save X B s doc =
     (case to_bytes X doc of
        Inl e \<Rightarrow> (Inl (StoreCore e), s)
      | Inr b \<Rightarrow>
          (case import_bytes B s b Raw of
             (Inl _, s1) \<Rightarrow> (Inl StoreIo, s1)
           | (Inr hash, s1) \<Rightarrow>
               (case set_tag B s1 (did_tag (did_as_str (doc_did doc)))
                       (Some \<lparr>hf_hash = hash, hf_format = Raw\<rparr>) of
                  (Inl _, s2) \<Rightarrow> (Inl StoreIo, s2)
                | (Inr _, s2) \<Rightarrow> (Inr hash, s2))))"

definition load ::
  "externs \<Rightarrow> snapshots \<Rightarrow> ('s, 'e, 'r) blobs \<Rightarrow> 's \<Rightarrow> bytes \<Rightarrow> store_error + document option" where
  "load E X B s hash =
     (case get_entry B s hash of
        Inl _ \<Rightarrow> Inl StoreIo
      | Inr None \<Rightarrow> Inr None
      | Inr (Some entry) \<Rightarrow>
          (case data_reader B entry of
             Inl _ \<Rightarrow> Inl StoreIo
           | Inr reader \<Rightarrow>
               (case read_to_end B reader of
                  Inl _ \<Rightarrow> Inl StoreIo
                | Inr b \<Rightarrow>
                    (case from_bytes E X b of
                       Inl e \<Rightarrow> Inl (StoreCore e)
                     | Inr doc \<Rightarrow> Inr (Some doc)))))"

text \<open>The scan of \<open>str::from_utf8\<close>: well-formed UTF-8 without overlong forms and surrogates.\<close>

fun utf8_tail :: "nat \<Rightarrow> bool" where
  "utf8_tail b = (128 \<le> b \<and> b \<le> 191)"

fun utf8_second :: "nat \<Rightarrow> nat \<Rightarrow> bool" where
  "utf8_second a b =
     (if a = 224 then 160 \<le> b \<and> b \<le> 191
      else if a = 237 then 128 \<le> b \<and> b \<le> 159
      else if a = 240 then 144 \<le> b \<and> b \<le> 191
      else if a = 244 then 128 \<le> b \<and> b \<le> 143
      else utf8_tail b)"

fun utf8_valid :: "nat list \<Rightarrow> bool" where
  "utf8_valid [] = True"
| "utf8_valid (a # bs) =
     (if a < 128 then utf8_valid bs
      else if 194 \<le> a \<and> a \<le> 223 then
        (case bs of b # cs \<Rightarrow> utf8_tail b \<and> utf8_valid cs | _ \<Rightarrow> False)
      else if 224 \<le> a \<and> a \<le> 239 then
        (case bs of b # c # cs \<Rightarrow> utf8_second a b \<and> utf8_tail c \<and> utf8_valid cs | _ \<Rightarrow> False)
      else if 240 \<le> a \<and> a \<le> 244 then
        (case bs of
           b # c # d # cs \<Rightarrow> utf8_second a b \<and> utf8_tail c \<and> utf8_tail d \<and> utf8_valid cs
         | _ \<Rightarrow> False)
      else False)"

definition from_utf8 :: "bytes \<Rightarrow> string option" where
  "from_utf8 b = (if utf8_valid (map unat b) then Some (map (\<lambda>w. char_of (unat w)) b) else None)"

text \<open>The two loops of \<open>load_all\<close>: the pinned pairs, then the snapshots that can be read and
  whose own identifier is the one of the tag.\<close>

fun collect_pinned ::
  "(unit + (bytes \<times> hash_and_format)) list \<Rightarrow> (did \<times> bytes) list \<Rightarrow> store_error + (did \<times> bytes) list" where
  "collect_pinned [] pinned = Inr pinned"
| "collect_pinned (Inl _ # items) pinned = Inl StoreIo"
| "collect_pinned (Inr (tag, hf) # items) pinned =
     (case from_utf8 tag of
        None \<Rightarrow> collect_pinned items pinned
      | Some name \<Rightarrow>
          (case did_from_str name of
             Inl _ \<Rightarrow> collect_pinned items pinned
           | Inr i \<Rightarrow> collect_pinned items (pinned @ [(i, hf_hash hf)])))"

fun load_pinned ::
  "externs \<Rightarrow> snapshots \<Rightarrow> ('s, 'e, 'r) blobs \<Rightarrow> 's \<Rightarrow> (did \<times> bytes) list \<Rightarrow> document list \<Rightarrow> document list" where
  "load_pinned E X B s [] docs = docs"
| "load_pinned E X B s ((i, hash) # pinned) docs =
     (case load E X B s hash of
        Inr (Some doc) \<Rightarrow>
          if doc_did doc = i then load_pinned E X B s pinned (docs @ [doc])
          else load_pinned E X B s pinned docs
      | Inr None \<Rightarrow> load_pinned E X B s pinned docs
      | Inl _ \<Rightarrow> load_pinned E X B s pinned docs)"

definition load_all ::
  "externs \<Rightarrow> snapshots \<Rightarrow> ('s, 'e, 'r) blobs \<Rightarrow> 's \<Rightarrow> store_error + document list" where
  "load_all E X B s =
     (case tags B s of
        Inl _ \<Rightarrow> Inl StoreIo
      | Inr items \<Rightarrow>
          (case collect_pinned items [] of
             Inl e \<Rightarrow> Inl e
           | Inr pinned \<Rightarrow> Inr (load_pinned E X B s pinned [])))"

fun find_tag ::
  "bytes \<Rightarrow> (unit + (bytes \<times> hash_and_format)) list \<Rightarrow> store_error + bytes option" where
  "find_tag target [] = Inr None"
| "find_tag target (Inl _ # items) = Inl StoreIo"
| "find_tag target (Inr (tag, hf) # items) =
     (if tag = target then Inr (Some (hf_hash hf)) else find_tag target items)"

definition latest_hash :: "('s, 'e, 'r) blobs \<Rightarrow> 's \<Rightarrow> did \<Rightarrow> store_error + bytes option" where
  "latest_hash B s i =
     (case tags B s of
        Inl _ \<Rightarrow> Inl StoreIo
      | Inr items \<Rightarrow> find_tag (did_tag (did_as_str i)) items)"

section \<open>What the store below promises\<close>

text \<open>Content \<open>b\<close> can be read under \<open>h\<close>.\<close>

definition readable :: "('s, 'e, 'r) blobs \<Rightarrow> 's \<Rightarrow> bytes \<Rightarrow> bytes \<Rightarrow> bool" where
  "readable B s h b \<longleftrightarrow>
     (\<exists>entry reader. get_entry B s h = Inr (Some entry) \<and> data_reader B entry = Inr reader \<and>
        read_to_end B reader = Inr b)"

text \<open>The tags of the store are those of the map \<open>m\<close>, each listed once.\<close>

definition tags_are :: "('s, 'e, 'r) blobs \<Rightarrow> 's \<Rightarrow> (bytes \<rightharpoonup> hash_and_format) \<Rightarrow> bool" where
  "tags_are B s m \<longleftrightarrow>
     (\<exists>items. tags B s = Inr (map Inr items) \<and> distinct (map fst items) \<and> map_of items = m)"

definition blob_laws :: "('s, 'e, 'r) blobs \<Rightarrow> bool" where
  "blob_laws B \<longleftrightarrow>
     (\<forall>s b f h s'. import_bytes B s b f = (Inr h, s') \<longrightarrow>
        readable B s' h b \<and> (\<forall>k c. readable B s k c \<longrightarrow> readable B s' k c) \<and>
        (\<forall>m. tags_are B s m \<longrightarrow> tags_are B s' m)) \<and>
     (\<forall>s t v s'. set_tag B s t (Some v) = (Inr (), s') \<longrightarrow>
        (\<forall>k c. readable B s k c \<longrightarrow> readable B s' k c) \<and>
        (\<forall>m. tags_are B s m \<longrightarrow> tags_are B s' (m(t \<mapsto> v))))"

definition snapshot_laws :: "snapshots \<Rightarrow> bool" where
  "snapshot_laws X \<longleftrightarrow> (\<forall>r b. doc_to_vec X r = Some b \<longrightarrow> doc_from_slice X b = Some r)"

section \<open>The abstract store\<close>

text \<open>
  What a store is for: a map from identifiers to documents.  The store holds \<open>f\<close> when its tags
  that name an identifier are those of the domain of \<open>f\<close> and the blob under each tag reads back as
  the document; tags that are no identifiers are of no concern.
\<close>

definition pinned_as ::
  "externs \<Rightarrow> snapshots \<Rightarrow> ('s, 'e, 'r) blobs \<Rightarrow> 's \<Rightarrow> hash_and_format option \<Rightarrow> did \<Rightarrow> document option \<Rightarrow> bool" where
  "pinned_as E X B s v i r \<longleftrightarrow>
     (case r of
        None \<Rightarrow> v = None
      | Some doc \<Rightarrow> doc_did doc = i \<and>
          (\<exists>hf b. v = Some hf \<and> readable B s (hf_hash hf) b \<and> from_bytes E X b = Inr doc))"

definition store_holds ::
  "externs \<Rightarrow> snapshots \<Rightarrow> ('s, 'e, 'r) blobs \<Rightarrow> 's \<Rightarrow> (did \<rightharpoonup> document) \<Rightarrow> bool" where
  "store_holds E X B s f \<longleftrightarrow>
     (\<forall>i. f i \<noteq> None \<longrightarrow> did_wf i) \<and>
     (\<exists>m. tags_are B s m \<and> (\<forall>i. did_wf i \<longrightarrow> pinned_as E X B s (m (did_tag (did_as_str i))) i (f i)))"

text \<open>A document that deserialisation accepts: one with a history, or one without keys.\<close>

definition savable :: "externs \<Rightarrow> document \<Rightarrow> bool" where
  "savable E doc \<longleftrightarrow> doc_ok E doc \<and> did_wf (doc_did doc) \<and>
     (doc_delta_log doc = [] \<longrightarrow> vm_entries E (doc_verification_methods doc) = [])"

lemma bytes_of_char: "char_of (unat (word_of_nat (of_char c) :: u8)) = (c::char)"
proof -
  have "(of_char c :: nat) < 256" by simp
  then show ?thesis by (simp add: unat_of_nat)
qed

lemma str_bytes_chars [simp]: "map (\<lambda>w. char_of (unat w)) (str_bytes s) = s"
  by (simp add: str_bytes_def bytes_of_char comp_def)

lemma utf8_ascii: "list_all (\<lambda>a. a < 128) as \<Longrightarrow> utf8_valid as"
  by (induction as) auto

lemma hexdigit_ascii: "is_ascii_hexdigit c \<Longrightarrow> (of_char c :: nat) < 128"
  by (auto simp: is_ascii_hexdigit_def)

lemma did_wf_utf8:
  assumes "did_wf i"
  shows "from_utf8 (did_tag (did_as_str i)) = Some (did_str i)"
proof -
  obtain x where x: "did_str i = did_prefix @ x" "list_all is_ascii_hexdigit x"
    using assms by (auto simp: did_wf_def)
  have "list_all (\<lambda>c. (of_char c :: nat) < 128) (did_str i)"
    using x by (auto simp: did_prefix_def hexdigit_ascii list_all_iff)
  then have "list_all (\<lambda>a. a < 128) (map unat (str_bytes (did_str i)))"
    by (auto simp: list_all_iff str_bytes_def unat_of_nat)
  then show ?thesis
    by (simp add: from_utf8_def did_tag_def did_as_str_def utf8_ascii del: map_map)
qed

lemma did_tag_inject: "did_tag (did_as_str i) = did_tag (did_as_str j) \<longleftrightarrow> i = j"
  by (auto simp: did_tag_def did_as_str_def intro: did.expand)

text \<open>The identifier that a tag names, if it names one.\<close>

definition tag_did :: "bytes \<Rightarrow> did option" where
  "tag_did t =
     (case from_utf8 t of
        None \<Rightarrow> None
      | Some n \<Rightarrow> (case did_from_str n of Inl _ \<Rightarrow> None | Inr i \<Rightarrow> Some i))"

lemma from_utf8_Some:
  assumes "from_utf8 b = Some s"
  shows "b = str_bytes s"
proof -
  have "unat w mod 256 = unat w" for w :: u8 using unsigned_less [of w, where 'a = nat] by simp
  then have "str_bytes (map (\<lambda>w. char_of (unat w)) b) = b"
    by (simp add: str_bytes_def comp_def)
  then show ?thesis using assms by (simp add: from_utf8_def split: if_splits)
qed

lemma tag_did_Some: "tag_did t = Some i \<longleftrightarrow> did_wf i \<and> t = did_tag (did_as_str i)"
proof
  assume "tag_did t = Some i"
  then show "did_wf i \<and> t = did_tag (did_as_str i)"
    by (auto simp: tag_did_def did_from_str_Inr did_tag_def did_as_str_def
        split: option.splits sum.splits dest: from_utf8_Some)
next
  assume a: "did_wf i \<and> t = did_tag (did_as_str i)"
  then have "did_from_str (did_str i) = Inr i" by (cases i) (simp add: did_from_str_Inr)
  with a show "tag_did t = Some i" by (simp add: tag_did_def did_wf_utf8)
qed

lemma collect_pinned_spec:
  "collect_pinned (map Inr items) acc =
     Inr (acc @ List.map_filter (\<lambda>(t, hf). map_option (\<lambda>i. (i, hf_hash hf)) (tag_did t)) items)"
  by (induction items arbitrary: acc)
    (auto simp: tag_did_def List.map_filter_def split: option.splits sum.splits)

lemma find_tag_spec: "find_tag t (map Inr items) = Inr (map_option hf_hash (map_of items t))"
  by (induction items) auto

lemma load_readable:
  "readable B s h b \<Longrightarrow> from_bytes E X b = Inr doc \<Longrightarrow> load E X B s h = Inr (Some doc)"
  by (auto simp: readable_def load_def)

lemma load_pinned_spec:
  "load_pinned E X B s pinned docs =
     docs @ List.map_filter (\<lambda>(i, h). case load E X B s h of
       Inr (Some doc) \<Rightarrow> if doc_did doc = i then Some doc else None | _ \<Rightarrow> None) pinned"
  by (induction pinned arbitrary: docs)
    (auto simp: List.map_filter_def split: sum.splits option.splits)

text \<open>Saving: the blob is readable, the tag points at it, everything else is kept.\<close>

lemma save_Inr:
  assumes "blob_laws B" "save X B s doc = (Inr h, s')" "tags_are B s m"
  obtains b where "to_bytes X doc = Inr b" "readable B s' h b"
    "\<And>k c. readable B s k c \<Longrightarrow> readable B s' k c"
    "tags_are B s' (m(did_tag (did_as_str (doc_did doc)) \<mapsto> \<lparr>hf_hash = h, hf_format = Raw\<rparr>))"
proof -
  let ?t = "did_tag (did_as_str (doc_did doc))" and ?v = "\<lparr>hf_hash = h, hf_format = Raw\<rparr>"
  obtain b s1 where b: "to_bytes X doc = Inr b" "import_bytes B s b Raw = (Inr h, s1)"
    "set_tag B s1 ?t (Some ?v) = (Inr (), s')"
    using assms(2) by (auto simp: save_def split: sum.splits prod.splits)
  have i: "readable B s1 h b" "\<And>k c. readable B s k c \<Longrightarrow> readable B s1 k c" "tags_are B s1 m"
    using assms(1,3) b(2) unfolding blob_laws_def by blast+
  have t: "\<And>k c. readable B s1 k c \<Longrightarrow> readable B s' k c" "tags_are B s' (m(?t \<mapsto> ?v))"
    using assms(1) b(3) i(3) unfolding blob_laws_def by blast+
  show thesis using b(1) i t that by blast
qed

lemma savable_bytes:
  assumes "savable E doc" "snapshot_laws X" "to_bytes X doc = Inr b"
  shows "from_bytes E X b = Inr doc"
proof -
  have "doc_from_slice X b = Some (to_repr doc)"
    using assms(2,3) by (auto simp: snapshot_laws_def to_bytes_def split: option.splits)
  moreover have "\<exists>doc'. try_from E (to_repr doc) = Inr doc'"
    using assms(1) by (auto simp: savable_def try_from_def to_repr_def)
  ultimately show ?thesis
    using assms(1) try_from_repr [of E doc] by (auto simp: from_bytes_def savable_def)
qed

lemma pinned_as_mono:
  "pinned_as E X B s v i r \<Longrightarrow> (\<And>k c. readable B s k c \<Longrightarrow> readable B s' k c) \<Longrightarrow>
    pinned_as E X B s' v i r"
  by (auto simp: pinned_as_def split: option.splits)

text \<open>Moving a tag to a readable snapshot is the update of the map.\<close>

lemma store_holds_tag:
  assumes f: "store_holds E X B s f" and doc: "did_wf (doc_did doc)" "readable B s' h b" "from_bytes E X b = Inr doc"
    and mono: "\<And>k c. readable B s k c \<Longrightarrow> readable B s' k c"
    and tag: "\<And>m. tags_are B s m \<Longrightarrow> tags_are B s' (m(did_tag (did_as_str (doc_did doc)) \<mapsto> \<lparr>hf_hash = h, hf_format = Raw\<rparr>))"
  shows "store_holds E X B s' (f(doc_did doc \<mapsto> doc))"
proof -
  let ?t = "\<lambda>i. did_tag (did_as_str i)" and ?v = "\<lparr>hf_hash = h, hf_format = Raw\<rparr>"
  obtain m where m: "tags_are B s m" "\<And>i. did_wf i \<Longrightarrow> pinned_as E X B s (m (?t i)) i (f i)"
    "\<And>i. f i \<noteq> None \<Longrightarrow> did_wf i"
    using f by (auto simp: store_holds_def)
  have "pinned_as E X B s' ((m(?t (doc_did doc) \<mapsto> ?v)) (?t i)) i ((f(doc_did doc \<mapsto> doc)) i)"
    if "did_wf i" for i
  proof (cases "i = doc_did doc")
    case True
    then show ?thesis using doc(2,3) by (auto simp: pinned_as_def)
  next
    case False
    then show ?thesis using pinned_as_mono [OF m(2) [OF that] mono] by (simp add: did_tag_inject)
  qed
  moreover have "did_wf i" if "(f(doc_did doc \<mapsto> doc)) i \<noteq> None" for i
    using that m(3) [of i] doc(1) by (auto split: if_splits)
  ultimately show ?thesis using tag [OF m(1)] unfolding store_holds_def by blast
qed

lemma store_holds_keep:
  assumes "store_holds E X B s f" "\<And>k c. readable B s k c \<Longrightarrow> readable B s' k c" "\<And>m. tags_are B s m \<Longrightarrow> tags_are B s' m"
  shows "store_holds E X B s' f"
  using assms(1) pinned_as_mono [OF _ assms(2)] assms(3) unfolding store_holds_def by blast

lemma save_holds:
  assumes laws: "blob_laws B" "snapshot_laws X" and doc: "savable E doc"
    and f: "store_holds E X B s f" and saved: "save X B s doc = (Inr h, s')"
  shows "store_holds E X B s' (f(doc_did doc \<mapsto> doc))" "load E X B s' h = Inr (Some doc)"
    "latest_hash B s' (doc_did doc) = Inr (Some h)"
proof -
  let ?v = "\<lparr>hf_hash = h, hf_format = Raw\<rparr>"
  obtain m where m: "tags_are B s m" using f by (auto simp: store_holds_def)
  obtain b where b: "to_bytes X doc = Inr b" "readable B s' h b"
    "\<And>k c. readable B s k c \<Longrightarrow> readable B s' k c"
    by (rule save_Inr [OF laws(1) saved m]) blast
  have t: "tags_are B s' (m(did_tag (did_as_str (doc_did doc)) \<mapsto> ?v))" if "tags_are B s m" for m
    by (rule save_Inr [OF laws(1) saved that])
  have r: "from_bytes E X b = Inr doc" by (rule savable_bytes [OF doc laws(2) b(1)])
  show "load E X B s' h = Inr (Some doc)" by (rule load_readable [OF b(2) r])
  show "latest_hash B s' (doc_did doc) = Inr (Some h)"
    using t [OF m] by (auto simp: tags_are_def latest_hash_def find_tag_spec)
  show "store_holds E X B s' (f(doc_did doc \<mapsto> doc))"
    by (rule store_holds_tag [OF f _ b(2) r b(3) t]) (use doc in \<open>simp add: savable_def\<close>)
qed

lemma map_filter_eq: "List.map_filter f xs = map (\<lambda>x. the (f x)) (filter (\<lambda>x. f x \<noteq> None) xs)"
  by (induction xs) (auto simp: List.map_filter_def)

lemma map_filter_compose:
  "List.map_filter l (List.map_filter g xs) = List.map_filter (\<lambda>x. Option.bind (g x) l) xs"
  by (induction xs) (auto simp: List.map_filter_def split: option.splits)

text \<open>The document that \<open>load_all\<close> recovers from a tag.\<close>

definition recover ::
  "externs \<Rightarrow> snapshots \<Rightarrow> ('s, 'e, 'r) blobs \<Rightarrow> 's \<Rightarrow> bytes \<times> hash_and_format \<Rightarrow> document option" where
  "recover E X B s = (\<lambda>(t, hf).
     case tag_did t of
       None \<Rightarrow> None
     | Some i \<Rightarrow>
         (case load E X B s (hf_hash hf) of
            Inr (Some doc) \<Rightarrow> if doc_did doc = i then Some doc else None
          | _ \<Rightarrow> None))"

lemma load_all_recover:
  assumes "tags B s = Inr (map Inr items)"
  shows "load_all E X B s = Inr (List.map_filter (recover E X B s) items)"
proof -
  have "(\<lambda>x. Option.bind ((\<lambda>(t, hf). map_option (\<lambda>i. (i, hf_hash hf)) (tag_did t)) x)
          (\<lambda>(i, h). case load E X B s h of
             Inr (Some doc) \<Rightarrow> if doc_did doc = i then Some doc else None | _ \<Rightarrow> None))
        = recover E X B s"
    by (auto simp: recover_def fun_eq_iff split: option.splits)
  then show ?thesis
    by (simp add: load_all_def assms collect_pinned_spec load_pinned_spec map_filter_compose)
qed

lemma recover_Some:
  "recover E X B s p = Some doc \<Longrightarrow> fst p = did_tag (did_as_str (doc_did doc)) \<and> did_wf (doc_did doc)"
  by (cases p) (auto simp: recover_def tag_did_Some split: option.splits sum.splits if_splits)

lemma recover_distinct:
  assumes "distinct (map fst items)"
  shows "distinct (map doc_did (List.map_filter (recover E X B s) items))"
proof -
  let ?r = "recover E X B s"
  have "p = q" if "p \<in> set items" "q \<in> set items" "?r p = Some d" "?r q = Some e" "doc_did d = doc_did e"
    for p q d e
    using that recover_Some [of E X B s p d] recover_Some [of E X B s q e]
      eq_key_imp_eq_value [OF assms, of "fst p" "snd p" "snd q"]
    by (simp add: prod_eq_iff) (metis prod.collapse)
  then have "inj_on (\<lambda>p. doc_did (the (?r p))) (set (filter (\<lambda>p. ?r p \<noteq> None) items))"
    by (intro inj_onI) auto
  moreover have "distinct (filter (\<lambda>p. ?r p \<noteq> None) items)"
    using assms by (simp add: distinct_map)
  ultimately show ?thesis by (simp add: map_filter_eq distinct_map comp_def)
qed

lemma load_all_holds:
  assumes "store_holds E X B s f"
  shows "\<exists>docs. load_all E X B s = Inr docs \<and> set docs = ran f \<and> distinct (map doc_did docs)"
proof -
  let ?t = "\<lambda>i. did_tag (did_as_str i)"
  obtain items where items: "tags B s = Inr (map Inr items)" "distinct (map fst items)"
    and pin: "\<And>i. did_wf i \<Longrightarrow> pinned_as E X B s (map_of items (?t i)) i (f i)"
    and wf: "\<And>i. f i \<noteq> None \<Longrightarrow> did_wf i"
    using assms by (auto simp: store_holds_def tags_are_def)
  have held: "f i = recover E X B s (?t i, hf) \<and> f i \<noteq> None"
    if "(?t i, hf) \<in> set items" "did_wf i" for i hf
  proof -
    have "tag_did (?t i) = Some i" using that(2) by (simp add: tag_did_Some)
    moreover have "map_of items (?t i) = Some hf" using items(2) that(1) by simp
    ultimately show ?thesis
      using pin [OF that(2)] by (auto simp: pinned_as_def recover_def load_readable split: option.splits)
  qed
  have "doc \<in> ran f \<longleftrightarrow> (\<exists>p\<in>set items. recover E X B s p = Some doc)" for doc
  proof
    assume "doc \<in> ran f"
    then obtain i where i: "f i = Some doc" by (auto simp: ran_def)
    then have w: "did_wf i" using wf by blast
    obtain hf where "map_of items (?t i) = Some hf"
      using pin [OF w] i by (auto simp: pinned_as_def)
    then have m: "(?t i, hf) \<in> set items" by (rule map_of_SomeD)
    with held [OF m w] i show "\<exists>p\<in>set items. recover E X B s p = Some doc" by force
  next
    assume "\<exists>p\<in>set items. recover E X B s p = Some doc"
    then obtain t hf where p: "(t, hf) \<in> set items" "recover E X B s (t, hf) = Some doc" by auto
    then have "t = ?t (doc_did doc)" "did_wf (doc_did doc)" using recover_Some [OF p(2)] by auto
    with held [of "doc_did doc" hf] p show "doc \<in> ran f" by (auto simp: ran_def)
  qed
  moreover have "doc \<in> set (List.map_filter (recover E X B s) items) \<longleftrightarrow>
      (\<exists>p\<in>set items. recover E X B s p = Some doc)" for doc
    by (induction items) (auto simp: map_filter_simps split: option.splits)
  ultimately have "set (List.map_filter (recover E X B s) items) = ran f" by blast
  moreover note load_all_recover [OF items(1), of E X] recover_distinct [OF items(2), of E X B s]
  ultimately show ?thesis by simp
qed

section \<open>Properties\<close>

text \<open>
  C20: The snapshot store refines a map from identifiers to documents.  Over a blob store that
  keeps what it is given, a successful save is the map update: the returned hash loads the very
  document, the latest hash of its identifier is that hash, and every other document stays; and
  a restart recovers exactly the documents of the map, each once, whatever other tags there are.
\<close>

theorem store_refines_map:
  assumes "blob_laws B" "snapshot_laws X" "store_holds E X B s f"
  shows "(\<forall>doc h s'. savable E doc \<and> save X B s doc = (Inr h, s') \<longrightarrow>
       store_holds E X B s' (f(doc_did doc \<mapsto> doc)) \<and> load E X B s' h = Inr (Some doc) \<and>
       latest_hash B s' (doc_did doc) = Inr (Some h)) \<and>
     (\<exists>docs. load_all E X B s = Inr docs \<and> set docs = ran f \<and> distinct (map doc_did docs))"
  using save_holds [OF assms(1,2) _ assms(3)] load_all_holds [OF assms(3)] by blast

section \<open>Example\<close>

text \<open>A blob store that uses the content as its hash, and a serialiser of the documents that
  \<open>Document::new\<close> makes.\<close>

record ex_mem =
  mem_blobs :: "bytes list"
  mem_tags :: "(bytes \<times> hash_and_format) list"

definition ex_blobs :: "(ex_mem, bytes, bytes) blobs" where
  "ex_blobs = \<lparr>import_bytes = (\<lambda>s b f. (Inr b, s\<lparr>mem_blobs := b # mem_blobs s\<rparr>)),
     set_tag = (\<lambda>s t v. (Inr (), s\<lparr>mem_tags := (case v of
        None \<Rightarrow> AList.delete t (mem_tags s) | Some hf \<Rightarrow> AList.update t hf (mem_tags s))\<rparr>)),
     get_entry = (\<lambda>s h. Inr (if h \<in> set (mem_blobs s) then Some h else None)),
     data_reader = Inr, read_to_end = Inr, tags = (\<lambda>s. Inr (map Inr (mem_tags s)))\<rparr>"

lemma ex_blobs_simps:
  "readable ex_blobs s h b \<longleftrightarrow> h \<in> set (mem_blobs s) \<and> b = h"
  "tags_are ex_blobs s m \<longleftrightarrow> distinct (map fst (mem_tags s)) \<and> map_of (mem_tags s) = m"
proof -
  have "map Inr xs = (map Inr ys :: (unit + 'x) list) \<longleftrightarrow> xs = ys" for xs ys :: "'x list"
    by (simp add: inj_map_eq_map)
  then show "tags_are ex_blobs s m \<longleftrightarrow> distinct (map fst (mem_tags s)) \<and> map_of (mem_tags s) = m"
    by (auto simp: tags_are_def ex_blobs_def)
qed (auto simp: readable_def ex_blobs_def)

lemma ex_blob_laws: "blob_laws ex_blobs"
  unfolding blob_laws_def ex_blobs_simps
  by (auto simp: ex_blobs_def AList.distinct_update AList.update_conv')

definition ex_created :: "string \<Rightarrow> document" where
  "ex_created k = fst (projr (doc_new ref_externs k))"

definition ex_snapshots :: snapshots where
  "ex_snapshots = \<lparr>doc_to_vec = (\<lambda>r. case dr_delta_log r of
       [d] \<Rightarrow> (case sd_op d of
           AddVerificationMethod _ k _ _ \<Rightarrow> if r = to_repr (ex_created k) then Some (str_bytes k) else None
         | _ \<Rightarrow> None)
     | _ \<Rightarrow> None),
     doc_from_slice = (\<lambda>b. Some (to_repr (ex_created (map (\<lambda>w. char_of (unat w)) b))))\<rparr>"

lemma ex_snapshot_laws: "snapshot_laws ex_snapshots"
  by (auto simp: snapshot_laws_def ex_snapshots_def split: list.splits delta_op.splits if_splits)

lemma ex_created_new:
  obtains c v u r where "doc_new ref_externs k = Inr (ex_created k, c)"
    "derive_did ref_externs k = Inr (doc_did (ex_created k))"
    "doc_delta_log (ex_created k) = [c]" "sd_op c = AddVerificationMethod v k u r"
proof -
  obtain i where i: "derive_did ref_externs k = Inr i"
    by (simp add: derive_did_def ref_externs_def)
  define op where "op = AddVerificationMethod (did_to_string i @ ''#key-0'') k suite_default default_relationships"
  define doc where "doc = apply_op ref_externs (doc_blank i (Some (wall_ms hlc_default))) op hlc_default []"
  define c where "c = unsigned_delta i op hlc_default k"
  have new: "doc_new ref_externs k =
      Inr (doc\<lparr>doc_delta_log := doc_delta_log doc @ [c], doc_dag := dag_put ref_externs (doc_dag doc) c\<rparr>, c)"
    by (simp add: doc_new_def i Let_def dag_insert_put op_def [symmetric] doc_def [symmetric]
        c_def [symmetric])
  have "doc_did doc = i" "doc_delta_log doc = []"
    by (simp_all add: doc_def doc_simps) (simp_all add: doc_blank_def)
  with new i show thesis
    by (intro that [of c _ suite_default default_relationships])
      (simp_all add: ex_created_def c_def unsigned_delta_def op_def)
qed

lemma derive_did_wf:
  assumes "blake3_laws E" "derive_did E k = Inr i"
  shows "did_wf i"
proof -
  obtain b where "i = from_creation_hash E (blake3 E b)"
    using assms(2) by (auto simp: derive_did_def split: option.splits)
  then show ?thesis using assms(1) by (simp add: did_wf_def from_creation_hash_def blake3_laws_def)
qed

lemma ex_created_savable: "savable ref_externs (ex_created k)"
proof -
  obtain c where c: "doc_new ref_externs k = Inr (ex_created k, c)" "doc_delta_log (ex_created k) = [c]"
    "derive_did ref_externs k = Inr (doc_did (ex_created k))"
    by (rule ex_created_new)
  have "did_wf (doc_did (ex_created k))" by (rule derive_did_wf [OF ref_blake3_laws c(3)])
  with c(2) doc_new_ok [OF c(1)] show ?thesis by (simp add: savable_def)
qed

lemma ex_save: "\<exists>s'. save ex_snapshots ex_blobs s (ex_created k) = (Inr (str_bytes k), s')"
proof -
  obtain c v u r where "doc_delta_log (ex_created k) = [c]" "sd_op c = AddVerificationMethod v k u r"
    by (rule ex_created_new)
  then have "to_bytes ex_snapshots (ex_created k) = Inr (str_bytes k)"
    by (simp add: to_bytes_def ex_snapshots_def to_repr_def)
  then show ?thesis by (simp add: save_def ex_blobs_def)
qed

theorem store_refines_map_witness:
  "\<exists>s'. save ex_snapshots ex_blobs \<lparr>mem_blobs = [], mem_tags = []\<rparr> (ex_created ''k'') = (Inr (str_bytes ''k''), s') \<and>
     load ref_externs ex_snapshots ex_blobs s' (str_bytes ''k'') = Inr (Some (ex_created ''k''))"
proof -
  have "store_holds ref_externs ex_snapshots ex_blobs \<lparr>mem_blobs = [], mem_tags = []\<rparr> Map.empty"
    by (simp add: store_holds_def ex_blobs_simps pinned_as_def)
  from store_refines_map [OF ex_blob_laws ex_snapshot_laws this] ex_save ex_created_savable
  show ?thesis by blast
qed

end
