(* ===== verification/Service.thy ===== *)
theory Service
  imports Live Projection Store
begin

text \<open>
  The HTTP service (\<open>src/service/handlers.rs\<close>, the state and the recovery at startup of
  \<open>src/service/server.rs\<close>) and the announcements and the cold start of a live node
  (\<open>src/sync/live.rs\<close>).  A handler maps the application state to a response, the effects it
  triggers in order (metrics, snapshot, broadcast, DHT publication) and the new state.  The
  document store is locked during each change, so a handler is one step.
\<close>

section \<open>Responses and effects\<close>

datatype body =
    NoBody
  | TextBody string
  | ErrorBody error
  | TooLargeBody nat nat
  | PendingBody "delta_hash list"
  | CreatedBody string resolution_result
  | ResolutionBody resolution_result
  | HealthBody string nat string bool

record response =
  rs_status :: nat
  rs_body :: body

datatype service_effect =
    RecordAccepted string nat
  | RecordRejected string
  | ObserveResolution nat
  | Persist document
  | BroadcastAnnounce sync_message
  | PublishInBackground did

abbreviation respond :: "nat \<Rightarrow> body \<Rightarrow> response" where
  "respond s b \<equiv> \<lparr>rs_status = s, rs_body = b\<rparr>"

fun core_error_response :: "error \<Rightarrow> response" where
  "core_error_response (InvalidDid s) = respond 400 (ErrorBody (InvalidDid s))"
| "core_error_response Serialisation = respond 400 (ErrorBody Serialisation)"
| "core_error_response InvalidSignature = respond 403 (ErrorBody InvalidSignature)"
| "core_error_response (Unauthorised m) = respond 403 (ErrorBody (Unauthorised m))"
| "core_error_response (DeltaRejected m) = respond 409 (ErrorBody (DeltaRejected m))"
| "core_error_response (DeltaPending ms) = respond 409 (ErrorBody (DeltaPending ms))"
| "core_error_response (DeltaTooLarge n k) = respond 413 (ErrorBody (DeltaTooLarge n k))"

section \<open>State\<close>

text \<open>
  \<open>AppState\<close>: the document store, the DHT node and the durable store are those of the live node,
  which is present or not.  The budget of a cold start is in milliseconds.
\<close>

record app_state =
  as_node :: live_node
  as_live :: bool
  as_resolve_timeout :: nat

abbreviation as_docs :: "app_state \<Rightarrow> doc_store" where
  "as_docs st \<equiv> ln_docs (as_node st)"

definition put_docs :: "app_state \<Rightarrow> doc_store \<Rightarrow> app_state" where
  "put_docs st docs = st\<lparr>as_node := (as_node st)\<lparr>ln_docs := docs\<rparr>\<rparr>"

section \<open>Helpers\<close>

definition truncate_did :: "string \<Rightarrow> string" where
  "truncate_did s = take 16 (case strip_prefix ''did:crdt:'' s of Some i \<Rightarrow> i | None \<Rightarrow> s)"

definition state_bytes :: "snapshots \<Rightarrow> document \<Rightarrow> nat" where
  "state_bytes X doc = (case to_bytes X doc of Inl _ \<Rightarrow> 0 | Inr b \<Rightarrow> length b)"

text \<open>The snapshot that is handed to the durable store, if there is one.\<close>

definition persist :: "app_state \<Rightarrow> did \<Rightarrow> service_effect list" where
  "persist st i =
     (if ln_persistent (as_node st)
      then (case fmlookup (as_docs st) i of None \<Rightarrow> [] | Some doc \<Rightarrow> [Persist doc])
      else [])"

text \<open>\<open>LiveNode::announce\<close>: an untracked identifier and a failing hash are errors.\<close>

definition node_announce :: "externs \<Rightarrow> doc_store \<Rightarrow> did \<Rightarrow> sync_message option" where
  "node_announce E docs i =
     (case fmlookup docs i of
        None \<Rightarrow> None
      | Some doc \<Rightarrow>
          (case doc_content_hash E doc of
             Inl _ \<Rightarrow> None
           | Inr h \<Rightarrow> Some (Announce i h hlc_default)))"

definition announce_effects :: "externs \<Rightarrow> app_state \<Rightarrow> did \<Rightarrow> service_effect list" where
  "announce_effects E st i =
     (if as_live st
      then (case node_announce E (as_docs st) i of None \<Rightarrow> [] | Some m \<Rightarrow> [BroadcastAnnounce m])
      else [])"

section \<open>POST /dids\<close>

definition create_did ::
    "externs \<Rightarrow> snapshots \<Rightarrow> app_state \<Rightarrow> string \<Rightarrow> response \<times> service_effect list \<times> app_state" where
  "create_did E X st pk =
     (case doc_new E pk of
        Inl e \<Rightarrow> (respond 400 (ErrorBody e), [], st)
      | Inr (doc, _) \<Rightarrow>
          let i = doc_did doc; s = did_to_string i
          in case resolve E doc of
               Inl e \<Rightarrow> (core_error_response e, [], st)
             | Inr result \<Rightarrow>
                 let st' = put_docs st (fmupd i doc (as_docs st))
                 in (respond 201 (CreatedBody s result),
                     RecordAccepted (truncate_did s) (state_bytes X doc) #
                       persist st' i @ announce_effects E st' i @
                       (if ln_dht (as_node st') \<and> as_live st' then [PublishInBackground i] else []),
                     st'))"

section \<open>GET /:did\<close>

text \<open>The value of the query parameter: a bare flag and \<open>true\<close> are true.\<close>

definition flag :: "string option \<Rightarrow> bool" where
  "flag raw \<longleftrightarrow> raw = Some ''true'' \<or> raw = Some ''''"

definition field_count :: "resolution_result \<Rightarrow> nat" where
  "field_count r =
     (case rr_did_document r of
        None \<Rightarrow> 0
      | Some d \<Rightarrow> length (dd_verification_method d) + length (dd_service d) + fcard (fmdom (dd_extra d)))"

text \<open>The part under the lock: the projection and the requested closure.\<close>

definition resolve_held :: "externs \<Rightarrow> doc_store \<Rightarrow> did \<Rightarrow> bool \<Rightarrow> response \<times> service_effect list" where
  "resolve_held E docs i include_closure =
     (case fmlookup docs i of
        None \<Rightarrow> (respond 404 NoBody, [])
      | Some doc \<Rightarrow>
          (case resolve E doc of
             Inl e \<Rightarrow> (core_error_response e, [])
           | Inr r \<Rightarrow>
               (case (if include_closure
                      then (case document_closure_bundle E doc of
                              Inl e \<Rightarrow> Inl e
                            | Inr b \<Rightarrow> Inr (r\<lparr>rr_did_document_metadata :=
                                (rr_did_document_metadata r)\<lparr>ddm_signed_closure := Some b\<rparr>\<rparr>))
                      else Inr r) of
                  Inl e \<Rightarrow> (core_error_response e, [])
                | Inr r' \<Rightarrow>
                    (respond (if ddm_deactivated (rr_did_document_metadata r') then 410 else 200) (ResolutionBody r'),
                     [ObserveResolution (field_count r')]))))"

definition live_effects :: "live_effect list \<Rightarrow> service_effect list" where
  "live_effects es = List.map_filter (\<lambda>e. case e of
     Broadcast m \<Rightarrow> Some (BroadcastAnnounce m) | SaveSnapshot doc \<Rightarrow> Some (Persist doc)
   | PublishDht i \<Rightarrow> Some (PublishInBackground i)) es"

text \<open>The network during the cold start is an argument, with the time at which the request arrives.\<close>

definition cold_start ::
    "(bytes \<Rightarrow> sync_message option) \<Rightarrow> externs \<Rightarrow> app_state \<Rightarrow> did \<Rightarrow> 'p cold_env \<Rightarrow> nat
     \<Rightarrow> ('p cold_failure + unit) \<times> cold_world" where
  "cold_start decode E st i V now =
     cold_start_bootstrap decode E V i (as_resolve_timeout st)
       \<lparr>cw_now = now, cw_node = as_node st, cw_effects = []\<rparr>"

definition resolve_did ::
    "(bytes \<Rightarrow> sync_message option) \<Rightarrow> externs \<Rightarrow> app_state \<Rightarrow> string \<Rightarrow> string option \<Rightarrow> 'p cold_env \<Rightarrow> nat
     \<Rightarrow> response \<times> service_effect list \<times> app_state" where
  "resolve_did decode E st s query V now =
     (case did_from_str s of
        Inl _ \<Rightarrow> (respond 400 (TextBody ''invalid DID format''), [], st)
      | Inr i \<Rightarrow>
          if fmlookup (as_docs st) i = None then
            if as_live st \<and> ln_dht (as_node st) then
              (case cold_start decode E st i V now of
                 (Inl _, w) \<Rightarrow> (respond 404 NoBody, live_effects (cw_effects w), st\<lparr>as_node := cw_node w\<rparr>)
               | (Inr _, w) \<Rightarrow>
                   let (r, es) = resolve_held E (ln_docs (cw_node w)) i (flag query)
                   in (r, live_effects (cw_effects w) @ es, st\<lparr>as_node := cw_node w\<rparr>))
            else (respond 404 NoBody, [], st)
          else let (r, es) = resolve_held E (as_docs st) i (flag query) in (r, es, st))"

section \<open>POST /dids/:did/deltas\<close>

text \<open>\<open>str::contains\<close>.\<close>

fun str_contains :: "string \<Rightarrow> string \<Rightarrow> bool" where
  "str_contains needle [] = (needle = [])"
| "str_contains needle (c # cs) = (take (length needle) (c # cs) = needle \<or> str_contains needle cs)"

text \<open>
  The messages of rejections that a merge can return, with the debug format of a string as an
  argument; the label of the rejection counter looks for words in them.
\<close>

fun rejected_text :: "(string \<Rightarrow> string) \<Rightarrow> rejected_msg \<Rightarrow> string" where
  "rejected_text dbg (DidMismatchMsg i j) =
     ''delta DID '' @ did_to_string i @ '' does not match document DID '' @ did_to_string j"
| "rejected_text dbg (TooManyAliases n) = ''alsoKnownAs carries '' @ dec_string n @ '' entries, limit is 32''"
| "rejected_text dbg (AliasLength n) = ''alsoKnownAs entry length '' @ dec_string n @ '' is outside 1..=512''"
| "rejected_text dbg (AliasNoScheme u) = ''alsoKnownAs entry '' @ dbg u @ '' is not an absolute URI (no scheme)''"
| "rejected_text dbg (AliasBadScheme u) = ''alsoKnownAs entry '' @ dbg u @ '' has a malformed scheme''"
| "rejected_text dbg (AliasBadBody u) = ''alsoKnownAs entry '' @ dbg u @ '' has an empty or non-printable body''"
| "rejected_text dbg (ReservedProperty k) = ''documentData key '' @ dbg k @ '' is a reserved DID Core property''"
| "rejected_text dbg ParentsNotCanonical = ''delta parents are not sorted and deduplicated''"
| "rejected_text dbg DeactivatedImported =
     ''document is deactivated (state-imported); no further mutations accepted''"
| "rejected_text dbg DeactivatedDocument = ''document is deactivated; no further mutations are accepted''"
| "rejected_text dbg (MergeDifferentDids i j) =
     ''cannot merge documents with different DIDs: '' @ did_to_string i @ '' vs '' @ did_to_string j"
| "rejected_text dbg EmptyHistory = ''cannot export an empty history''"
| "rejected_text dbg NoClosureHistory = ''no delta history from which to extract a closure''"
| "rejected_text dbg (MissingTarget (DeltaHash h)) = ''bundle does not contain its target '' @ h"
| "rejected_text dbg (DanglingParent (DeltaHash h)) =
     ''bundle has a dangling parent '' @ h @ '': tampered or incomplete''"
| "rejected_text dbg ParentCycle = ''bundle has a parent cycle: tampered''"
| "rejected_text dbg (MissingDelta (DeltaHash h)) = ''cannot extract closure: missing delta '' @ h"

definition rejection_label :: "(string \<Rightarrow> string) \<Rightarrow> error \<Rightarrow> string" where
  "rejection_label dbg e =
     (case e of
        DeltaRejected m \<Rightarrow>
          if str_contains ''deactivated'' (rejected_text dbg m) then ''deactivated_did''
          else if str_contains ''seq'' (rejected_text dbg m) then ''stale_rotation''
          else ''rejected''
      | Unauthorised _ \<Rightarrow> ''unauthorised''
      | _ \<Rightarrow> ''rejected'')"

text \<open>The size gate: a delta that does not serialise passes it.\<close>

definition oversized :: "externs \<Rightarrow> signed_delta \<Rightarrow> nat option" where
  "oversized E d =
     (case delta_to_vec E d of
        None \<Rightarrow> None
      | Some b \<Rightarrow> if length b > MAX_DELTA_SIZE then Some (length b) else None)"

definition submit_delta ::
    "(string \<Rightarrow> string) \<Rightarrow> externs \<Rightarrow> snapshots \<Rightarrow> app_state \<Rightarrow> string \<Rightarrow> signed_delta
     \<Rightarrow> response \<times> service_effect list \<times> app_state" where
  "submit_delta dbg E X st s d =
     (case oversized E d of
        Some n \<Rightarrow> (respond 413 (TooLargeBody n MAX_DELTA_SIZE), [], st)
      | None \<Rightarrow>
          if did_to_string (sd_did d) \<noteq> s
          then (respond 400 (TextBody ''DID in path does not match DID in delta''), [], st)
          else case fmlookup (as_docs st) (sd_did d) of
            None \<Rightarrow> (respond 404 NoBody, [RecordRejected ''unknown_did''], st)
          | Some doc \<Rightarrow>
              if doc_missing_parents doc d \<noteq> []
              then (respond 409 (PendingBody (doc_missing_parents doc d)), [RecordRejected ''pending''], st)
              else (case verify_signature E d doc of
                Inl e \<Rightarrow> (respond 403 (ErrorBody e), [RecordRejected ''invalid_signature''], st)
              | Inr _ \<Rightarrow>
                  (case merge E doc d of (result, doc') \<Rightarrow>
                     let st' = put_docs st (fmupd (sd_did d) doc' (as_docs st))
                     in case result of
                          Inr _ \<Rightarrow>
                            (respond 202 NoBody,
                             RecordAccepted (truncate_did s) (state_bytes X doc') #
                               persist st' (sd_did d) @ announce_effects E st' (sd_did d),
                             st')
                        | Inl (DeltaPending ms) \<Rightarrow>
                            (respond 409 (PendingBody ms), [RecordRejected ''pending''], st')
                        | Inl e \<Rightarrow> (core_error_response e, [RecordRejected (rejection_label dbg e)], st'))))"

section \<open>GET /health\<close>

definition get_health :: "app_state \<Rightarrow> response" where
  "get_health st =
     respond 200 (HealthBody ''ok'' (fcard (fmdom (as_docs st)))
       (if ln_persistent (as_node st) then ''durable'' else ''ephemeral'') (as_live st))"

section \<open>The running service\<close>

text \<open>
  \<open>AppState::new\<close>, and the state after the start of the service: \<open>disk\<close> is the opened durable store
  when one is configured (a store that does not open stops the start), \<open>dht\<close> whether a DHT node
  was configured and built.
\<close>

definition app_new :: app_state where
  "app_new = \<lparr>as_node = \<lparr>ln_docs = fmempty, ln_gossip = gossip_new, ln_policy = solicited_only,
     ln_persistent = False, ln_dht = False\<rparr>, as_live = False, as_resolve_timeout = 1500\<rparr>"

definition insert_docs :: "document list \<Rightarrow> doc_store \<Rightarrow> doc_store" where
  "insert_docs ds docs = fold (\<lambda>doc m. fmupd (doc_did doc) doc m) ds docs"

definition start ::
    "externs \<Rightarrow> snapshots \<Rightarrow> ('s, 'e, 'r) blobs \<Rightarrow> 's option \<Rightarrow> bool \<Rightarrow> bool \<Rightarrow> nat \<Rightarrow> app_state" where
  "start E X B disk dht full_replica timeout =
     (let docs = (case disk of
            None \<Rightarrow> fmempty
          | Some s \<Rightarrow> (case load_all E X B s of Inl _ \<Rightarrow> fmempty | Inr ds \<Rightarrow> insert_docs ds fmempty))
      in \<lparr>as_node = live_bind docs dht full_replica (disk \<noteq> None), as_live = True, as_resolve_timeout = timeout\<rparr>)"

text \<open>What reaches the service: requests, and payloads from the gossip mesh.\<close>

datatype 'p event =
    PostDids string
  | GetDid string "string option" "'p cold_env" nat
  | PostDelta string signed_delta
  | GetHealth
  | Payload bytes

fun serve ::
    "(bytes \<Rightarrow> sync_message option) \<Rightarrow> (string \<Rightarrow> string) \<Rightarrow> externs \<Rightarrow> snapshots \<Rightarrow> 'p event \<Rightarrow> app_state
     \<Rightarrow> response option \<times> service_effect list \<times> app_state" where
  "serve decode dbg E X (PostDids pk) st = (case create_did E X st pk of (r, es, st') \<Rightarrow> (Some r, es, st'))"
| "serve decode dbg E X (GetDid s q V now) st =
     (case resolve_did decode E st s q V now of (r, es, st') \<Rightarrow> (Some r, es, st'))"
| "serve decode dbg E X (PostDelta s d) st = (case submit_delta dbg E X st s d of (r, es, st') \<Rightarrow> (Some r, es, st'))"
| "serve decode dbg E X GetHealth st = (Some (get_health st), [], st)"
| "serve decode dbg E X (Payload raw) st =
     (if as_live st
      then (case run_loop_step decode E (as_node st) raw of (es, n) \<Rightarrow> (None, live_effects es, st\<lparr>as_node := n\<rparr>))
      else (None, [], st))"

fun serve_all ::
    "(bytes \<Rightarrow> sync_message option) \<Rightarrow> (string \<Rightarrow> string) \<Rightarrow> externs \<Rightarrow> snapshots \<Rightarrow> 'p event list \<Rightarrow> app_state
     \<Rightarrow> service_effect list \<times> app_state" where
  "serve_all decode dbg E X [] st = ([], st)"
| "serve_all decode dbg E X (ev # evs) st =
     (case serve decode dbg E X ev st of (_, es, st') \<Rightarrow>
        (case serve_all decode dbg E X evs st' of (es', st'') \<Rightarrow> (es @ es', st'')))"

section \<open>Durability\<close>

text \<open>The snapshots handed to the durable store, and the map of documents after they are saved.\<close>

fun snapshot_of :: "service_effect \<Rightarrow> document option" where
  "snapshot_of (Persist doc) = Some doc"
| "snapshot_of _ = None"

definition persisted :: "service_effect list \<Rightarrow> document list" where
  "persisted es = List.map_filter snapshot_of es"

definition put_all :: "document list \<Rightarrow> (did \<rightharpoonup> document) \<Rightarrow> (did \<rightharpoonup> document)" where
  "put_all ds f = fold (\<lambda>doc f. f(doc_did doc \<mapsto> doc)) ds f"

lemma put_all_simps [simp]:
  "put_all [] f = f" "put_all (doc # ds) f = put_all ds (f(doc_did doc \<mapsto> doc))"
  "put_all (ds @ ds') f = put_all ds' (put_all ds f)"
  by (simp_all add: put_all_def)

lemma persisted_simps [simp]:
  "persisted [] = []" "persisted (Persist doc # es) = doc # persisted es"
  "persisted (RecordAccepted s n # es) = persisted es" "persisted (RecordRejected s # es) = persisted es"
  "persisted (ObserveResolution n # es) = persisted es" "persisted (BroadcastAnnounce m # es) = persisted es"
  "persisted (PublishInBackground i # es) = persisted es" "persisted (es @ es') = persisted es @ persisted es'"
  by (simp_all add: persisted_def List.map_filter_def)

lemma persisted_announce [simp]: "persisted (announce_effects E st i) = []"
  by (simp add: announce_effects_def split: option.splits)

lemma put_docs_simps [simp]:
  "as_docs (put_docs st docs) = docs" "as_live (put_docs st docs) = as_live st"
  "ln_persistent (as_node (put_docs st docs)) = ln_persistent (as_node st)"
  "ln_dht (as_node (put_docs st docs)) = ln_dht (as_node st)"
  by (simp_all add: put_docs_def)

lemma fmupd_same: "fmlookup m k = Some v \<Longrightarrow> fmupd k v m = m"
  by (rule fmap_ext) auto

text \<open>
  A step is durable when memory and disk move together: the snapshots it hands over turn the map
  of documents before the step into the map after it, and the documents stay sound.  No identifier
  is dropped from memory.
\<close>

definition durable :: "externs \<Rightarrow> app_state \<Rightarrow> service_effect list \<Rightarrow> app_state \<Rightarrow> bool" where
  "durable E st es st' \<longleftrightarrow>
     as_live st' = as_live st \<and> ln_persistent (as_node st') = ln_persistent (as_node st) \<and>
     fmdom (as_docs st) |\<subseteq>| fmdom (as_docs st') \<and>
     (store_ok E (as_docs st) \<longrightarrow> store_ok E (as_docs st')) \<and>
     (store_ok E (as_docs st) \<longrightarrow> ln_persistent (as_node st) \<longrightarrow>
        fmlookup (as_docs st') = put_all (persisted es) (fmlookup (as_docs st)) \<and>
        (\<forall>doc\<in>set (persisted es). authentic E doc))"

lemma durable_unchanged: "persisted es = [] \<Longrightarrow> durable E st es st"
  by (simp add: durable_def)

lemma durable_trans:
  "durable E st es st' \<Longrightarrow> durable E st' es' st'' \<Longrightarrow> durable E st (es @ es') st''"
  unfolding durable_def
  by (cases "store_ok E (as_docs st)"; cases "ln_persistent (as_node st)")
    (simp_all add: ball_Un, (elim conjE, erule (1) order_trans)+)

lemma durable_put:
  assumes "authentic E doc" "doc_did doc = i"
    "persisted es = (if ln_persistent (as_node st) then [doc] else [])"
  shows "durable E st es (put_docs st (fmupd i doc (as_docs st)))"
  using assms by (auto simp: durable_def store_ok_def)

lemma persist_put [simp]:
  "persist (put_docs st (fmupd i doc docs)) i = (if ln_persistent (as_node st) then [Persist doc] else [])"
  by (simp add: persist_def)

lemma create_did_durable:
  assumes "create_did E X st pk = (r, es, st')"
  shows "durable E st es st'"
proof (cases "doc_new E pk")
  case (Inr p)
  obtain doc c where p: "p = (doc, c)" by fastforce
  with Inr have new: "doc_new E pk = Inr (doc, c)" by simp
  show ?thesis
  proof (cases "resolve E doc")
    case (Inr rr)
    have "st' = put_docs st (fmupd (doc_did doc) doc (as_docs st))"
      and "persisted es = (if ln_persistent (as_node st) then [doc] else [])"
      using assms Inr by (auto simp: create_did_def new Let_def)
    with durable_put [OF auth_new [OF new]] show ?thesis by simp
  qed (use assms new in \<open>auto simp: create_did_def Let_def intro: durable_unchanged\<close>)
qed (use assms in \<open>auto simp: create_did_def intro: durable_unchanged\<close>)

lemma live_effects_simps [simp]:
  "live_effects [] = []" "live_effects (es @ es') = live_effects es @ live_effects es'"
  "persisted (live_effects (map Broadcast ms)) = []"
  by (simp add: live_effects_def List.map_filter_def, simp add: live_effects_def List.map_filter_def,
      induction ms, simp_all add: live_effects_def List.map_filter_def)

lemma persisted_saves:
  "persisted (live_effects (case x of None \<Rightarrow> [] | Some doc \<Rightarrow> [SaveSnapshot doc])) = (case x of None \<Rightarrow> [] | Some doc \<Rightarrow> [doc])"
  "live_effects (PublishDht i # es) = PublishInBackground i # live_effects es"
  "live_effects (SaveSnapshot doc # es) = Persist doc # live_effects es"
  by (simp_all add: live_effects_def List.map_filter_def split: option.splits)

lemma run_loop_step_cases:
  obtains (same) es st where "run_loop_step decode E n raw = (es, n\<lparr>ln_gossip := st\<rparr>)" "persisted (live_effects es) = []"
  | (merged) es st i ds doc doc' where
      "run_loop_step decode E n raw = (es, n\<lparr>ln_gossip := st, ln_docs := fmupd i doc' (ln_docs n)\<rparr>)"
      "persisted (live_effects es) = (if ln_persistent n then [doc'] else [])"
      "fmlookup (ln_docs n) i = Some doc \<or>
        fmlookup (ln_docs n) i = None \<and> (\<exists>pk c. doc_new E pk = Inr (doc, c) \<and> doc_did doc = i)"
      "verified_chain E (set ds) doc doc'"
proof (cases "decode raw")
  case None
  then have "run_loop_step decode E n raw = ([], n\<lparr>ln_gossip := ln_gossip n\<rparr>)" by (simp add: run_loop_step_def)
  then show ?thesis by (rule same) simp
next
  case (Some msg)
  show ?thesis
  proof (cases msg)
    case (Deltas i ds)
    obtain outcome docs' where mi: "merge_inbound E (ln_docs n) msg (ln_policy n) = (outcome, docs')" by fastforce
    note effect = merge_inbound_effect [where E = E and docs = "ln_docs n" and msg = msg and policy = "ln_policy n", unfolded mi prod.case]
    have hd: "handle E (ln_gossip n) msg (ln_docs n) (ln_policy n) = ([], Some (Deltas i ds), ln_gossip n)"
      by (simp add: handle_def Deltas)
    note step = run_loop_step_def [of decode E n raw] Some hd mi [unfolded Deltas]
    show ?thesis
    proof (cases outcome)
      case Merged
      have "\<exists>doc doc'. fmlookup (ln_docs n) i = Some doc \<and> verified_chain E (set ds) doc doc' \<and>
          docs' = fmupd i doc' (ln_docs n)"
        using effect unfolding Merged Deltas merge_outcome.case sync_message.inject by blast
      then obtain doc doc' where d: "fmlookup (ln_docs n) i = Some doc" "verified_chain E (set ds) doc doc'"
        "docs' = fmupd i doc' (ln_docs n)" by blast
      show ?thesis
        by (rule merged [where st = "ln_gossip n" and i = i and doc' = doc' and doc = doc and ds = ds])
          (use Merged d in \<open>simp add: step Let_def\<close>, use d in \<open>cases "ln_persistent n"; simp add: persisted_saves\<close>,
           use d in simp_all)
    next
      case (Bootstrapped j)
      have "\<exists>pk doc creation doc'. j = i \<and> fmlookup (ln_docs n) i = None \<and> doc_new E pk = Inr (doc, creation) \<and> doc_did doc = i \<and>
          verified_chain E (set ds) doc doc' \<and> docs' = fmupd i doc' (ln_docs n)"
        using effect unfolding Bootstrapped Deltas merge_outcome.case sync_message.inject by blast
      then obtain pk doc creation doc' where d: "j = i" "fmlookup (ln_docs n) i = None" "doc_new E pk = Inr (doc, creation)" "doc_did doc = i"
        "verified_chain E (set ds) doc doc'" "docs' = fmupd i doc' (ln_docs n)" by blast
      show ?thesis
        by (rule merged [where st = "ln_gossip n" and i = i and doc' = doc' and doc = doc and ds = ds])
          (use Bootstrapped d in \<open>simp add: step Let_def\<close>,
           use d in \<open>cases "ln_persistent n"; cases "ln_dht n"; simp add: persisted_saves\<close>, use d in auto)
    qed (use effect in \<open>auto intro!: same [of _ "ln_gossip n"] simp: step Let_def\<close>)
  next
    case (Announce i h c)
    then obtain out st where "handle E (ln_gossip n) msg (ln_docs n) (ln_policy n) = (out, None, st)"
      using handle_deliver [of E "ln_gossip n" msg "ln_docs n" "ln_policy n"] by (metis prod.collapse sync_message.simps(10))
    then show ?thesis using Some by (intro same) (simp add: run_loop_step_def, simp)
  next
    case (Request i fr)
    then obtain out st where "handle E (ln_gossip n) msg (ln_docs n) (ln_policy n) = (out, None, st)"
      using handle_deliver [of E "ln_gossip n" msg "ln_docs n" "ln_policy n"] by (metis prod.collapse sync_message.simps(11))
    then show ?thesis using Some by (intro same) (simp add: run_loop_step_def, simp)
  qed
qed

lemma run_loop_step_durable:
  assumes "run_loop_step decode E (as_node st) raw = (es, n)"
  shows "durable E st (live_effects es) (st\<lparr>as_node := n\<rparr>)"
proof (cases rule: run_loop_step_cases [of decode E "as_node st" raw])
  case (same es' g)
  with assms show ?thesis by (auto simp: durable_def)
next
  case (merged es' g i ds doc doc')
  have ok: "store_ok E (fmupd i doc' (as_docs st)) \<and> authentic E doc' \<and> doc_did doc' = i"
    if "store_ok E (as_docs st)"
  proof -
    have "authentic E doc \<and> doc_did doc = i"
      using merged(3) that auth_new by (auto simp: store_ok_def dest: fmpredD)
    then have "authentic E doc' \<and> doc_did doc' = i"
      using authentic_chain [OF merged(4)] verified_chain_log [OF merged(4)] by simp
    with that show ?thesis by (auto simp: store_ok_def)
  qed
  have "es = es'" "n = (as_node st)\<lparr>ln_gossip := g, ln_docs := fmupd i doc' (as_docs st)\<rparr>"
    using assms merged(1) by simp_all
  with merged(2) ok show ?thesis by (auto simp: durable_def)
qed

lemma loop_payloads_durable:
  "loop_payloads decode E raws (as_node st) = (es, n) \<Longrightarrow> durable E st (live_effects es) (st\<lparr>as_node := n\<rparr>)"
proof (induction raws arbitrary: st es)
  case (Cons raw raws)
  obtain es1 n1 where s: "run_loop_step decode E (as_node st) raw = (es1, n1)" by fastforce
  obtain es2 where l: "loop_payloads decode E raws n1 = (es2, n)" "es = es1 @ es2"
    using Cons.prems s by (auto split: prod.splits)
  have "durable E (st\<lparr>as_node := n1\<rparr>) (live_effects es2) (st\<lparr>as_node := n\<rparr>)"
    using Cons.IH [of "st\<lparr>as_node := n1\<rparr>" es2] l(1) by simp
  with durable_trans [OF run_loop_step_durable [OF s] this] l(2) show ?case by simp
qed (auto simp: durable_def)

lemma durable_policy:
  "durable E st es (st'\<lparr>as_node := n\<lparr>ln_policy := p\<rparr>\<rparr>) = durable E st es (st'\<lparr>as_node := n\<rparr>)"
  by (simp add: durable_def)

text \<open>A cold start is durable because payloads are, and its requests save nothing.\<close>

lemma durable_world_inv:
  "world_inv decode E V i (\<lambda>w. durable E st (live_effects (cw_effects w)) (st\<lparr>as_node := cw_node w\<rparr>))"
proof -
  have "durable E st (live_effects (cw_effects (until decode E V t w))) (st\<lparr>as_node := cw_node (until decode E V t w)\<rparr>)"
    if "durable E st (live_effects (cw_effects w)) (st\<lparr>as_node := cw_node w\<rparr>)" for w t
  proof -
    obtain es n where l: "loop_payloads decode E (ce_inbound V (cw_now w) t) (cw_node w) = (es, n)" by fastforce
    then have "durable E (st\<lparr>as_node := cw_node w\<rparr>) (live_effects es) (st\<lparr>as_node := n\<rparr>)"
      using loop_payloads_durable [of decode E _ "st\<lparr>as_node := cw_node w\<rparr>"] by simp
    with durable_trans [OF that this] l show ?thesis by (simp add: until_def)
  qed
  moreover have "durable E st (es @ live_effects [Broadcast m]) st' = durable E st es st'" for es m st'
    by (simp add: durable_def live_effects_def List.map_filter_def)
  ultimately show ?thesis by (simp add: world_inv_def)
qed

lemma cold_start_durable:
  assumes "cold_start decode E st i V now = (r, w)"
  shows "durable E st (live_effects (cw_effects w)) (st\<lparr>as_node := cw_node w\<rparr>)"
proof -
  let ?w = "map_policy (\<lambda>p. add_wanted p i) \<lparr>cw_now = now, cw_node = as_node st, cw_effects = []\<rparr>"
  have w: "durable E st (live_effects (cw_effects ?w)) (st\<lparr>as_node := cw_node ?w\<rparr>)"
    by (simp add: map_policy_def durable_def)
  obtain r' w' where c: "cold_start_inner decode E V i (as_resolve_timeout st) ?w = (r', w')" by fastforce
  have "durable E st (live_effects (cw_effects w')) (st\<lparr>as_node := cw_node w'\<rparr>)"
  proof (cases "ln_dht (as_node st)")
    case True
    with c have "cold_rounds decode E V i (now + as_resolve_timeout st) NoLookupAttempted ?w = (r', w')"
      by (simp add: cold_start_inner_def)
    from cold_rounds_inv [OF this durable_world_inv w] show ?thesis .
  next
    case False
    with c w show ?thesis by (simp add: cold_start_inner_def)
  qed
  moreover have "w = map_policy (\<lambda>p. remove_wanted p i) w'"
    using assms c by (simp add: cold_start_def cold_start_bootstrap_def)
  ultimately show ?thesis by (simp add: map_policy_def durable_policy)
qed

lemma resolve_held_persisted: "persisted (snd (resolve_held E docs i q)) = []"
  by (simp add: resolve_held_def split: option.splits sum.splits)

lemma resolve_did_durable:
  assumes "resolve_did decode E st s q V now = (r, es, st')"
  shows "durable E st es st'"
proof (cases "did_from_str s")
  case (Inr i)
  show ?thesis
  proof (cases "fmlookup (as_docs st) i = None \<and> as_live st \<and> ln_dht (as_node st)")
    case True
    obtain c w where c: "cold_start decode E st i V now = (c, w)" by fastforce
    note d = cold_start_durable [OF c]
    have t: "durable E st (live_effects (cw_effects w) @ snd (resolve_held E (ln_docs (cw_node w)) i (flag q))) (st\<lparr>as_node := cw_node w\<rparr>)"
      by (rule durable_trans [OF d]) (rule durable_unchanged [OF resolve_held_persisted])
    show ?thesis
      using assms Inr True c d t by (cases c) (auto simp: resolve_did_def Let_def split_def simp del: persisted_simps)
  next
    case False
    with assms Inr show ?thesis
      by (auto simp: resolve_did_def Let_def split_def durable_unchanged resolve_held_persisted split: if_splits)
  qed
qed (use assms in \<open>auto simp: resolve_did_def intro: durable_unchanged\<close>)

section \<open>Submitted deltas\<close>

text \<open>The gates a submitted delta has passed when it reaches the merge.\<close>

definition passed_gates :: "externs \<Rightarrow> app_state \<Rightarrow> string \<Rightarrow> signed_delta \<Rightarrow> document \<Rightarrow> bool" where
  "passed_gates E st s d doc \<longleftrightarrow>
     oversized E d = None \<and> did_to_string (sd_did d) = s \<and> fmlookup (as_docs st) (sd_did d) = Some doc \<and>
     doc_missing_parents doc d = [] \<and> verify_signature E d doc = Inr ()"

lemma core_error_status: "rs_status (core_error_response e) \<in> {400, 403, 409, 413}"
  by (cases e) simp_all

lemma submit_delta_cases:
  obtains (accepted) doc doc' es where "passed_gates E st s d doc" "merge E doc d = (Inr (), doc')"
      "submit_delta dbg E X st s d = (respond 202 NoBody, es, put_docs st (fmupd (sd_did d) doc' (as_docs st)))"
      "persisted es = (if ln_persistent (as_node st) then [doc'] else [])"
  | (refused) r es where "submit_delta dbg E X st s d = (r, es, st)" "rs_status r \<in> {400, 403, 404, 409, 413}"
      "persisted es = []"
proof (cases "\<exists>doc. passed_gates E st s d doc")
  case True
  then obtain doc where g: "passed_gates E st s d doc" by blast
  note gates = g [unfolded passed_gates_def]
  have same: "put_docs st (fmupd (sd_did d) doc (as_docs st)) = st"
    using gates by (simp add: fmupd_same put_docs_def)
  obtain res doc' where m: "merge E doc d = (res, doc')" by fastforce
  show ?thesis
  proof (cases res)
    case (Inr u)
    then show ?thesis
      using gates m by (intro accepted [OF g]) (auto simp: submit_delta_def Let_def)
  next
    case (Inl e)
    with m have "doc' = doc" by (cases rule: merge_cases [of E doc d]) auto
    then have "\<exists>r es. submit_delta dbg E X st s d = (r, es, st) \<and> rs_status r \<in> {400, 403, 404, 409, 413} \<and> persisted es = []"
      using gates m Inl same by (cases e) (simp_all add: submit_delta_def Let_def)
    then show ?thesis using refused by blast
  qed
next
  case False
  then have "\<exists>r es. submit_delta dbg E X st s d = (r, es, st) \<and> rs_status r \<in> {400, 403, 404, 409, 413} \<and> persisted es = []"
    by (auto simp: submit_delta_def passed_gates_def split: option.splits sum.splits)
  then show ?thesis using refused by blast
qed

lemma submit_delta_durable:
  assumes "submit_delta dbg E X st s d = (r, es, st')"
  shows "durable E st es st'"
proof (cases rule: submit_delta_cases [of E st s d dbg X])
  case (accepted doc doc' es')
  have "authentic E doc' \<and> doc_did doc' = sd_did d" if "store_ok E (as_docs st)"
  proof -
    have doc: "authentic E doc" "verify_signature E d doc = Inr ()" "doc_did doc = sd_did d"
      using that accepted(1) by (auto simp: store_ok_def passed_gates_def dest: fmpredD)
    with authentic_merge [OF doc(1,2)] show ?thesis
      using accepted(2) by (cases rule: merge_cases [of E doc d]) (auto simp: apply_delta_history)
  qed
  with accepted(3,4) assms show ?thesis by (auto simp: durable_def store_ok_def)
next
  case (refused r' es')
  with assms show ?thesis by (auto intro: durable_unchanged)
qed

lemma serve_durable:
  assumes "serve decode dbg E X ev st = (r, es, st')"
  shows "durable E st es st'"
proof (cases ev)
  case (Payload raw)
  with assms show ?thesis
    by (auto simp: durable_unchanged split: if_splits prod.splits dest: run_loop_step_durable)
qed (use assms in \<open>auto split: prod.splits dest: create_did_durable resolve_did_durable submit_delta_durable
      intro: durable_unchanged\<close>)

lemma serve_all_durable:
  assumes "serve_all decode dbg E X evs st = (es, st')"
  shows "durable E st es st'"
  using assms
proof (induction evs arbitrary: st es)
  case (Cons ev evs)
  obtain r es1 st1 where s: "serve decode dbg E X ev st = (r, es1, st1)" by (metis prod_cases3)
  obtain es2 where "serve_all decode dbg E X evs st1 = (es2, st')" "es = es1 @ es2"
    using Cons.prems s by (auto split: prod.splits)
  with durable_trans [OF serve_durable [OF s] Cons.IH] show ?case by simp
qed (simp add: durable_unchanged)

section \<open>Restart\<close>

text \<open>Saving the snapshots in the order they were handed over; a failing save gives \<open>None\<close>.\<close>

fun save_each :: "snapshots \<Rightarrow> ('s, 'e, 'r) blobs \<Rightarrow> document list \<Rightarrow> 's \<Rightarrow> 's option" where
  "save_each X B [] s = Some s"
| "save_each X B (doc # ds) s =
     (case save X B s doc of (Inl _, _) \<Rightarrow> None | (Inr _, s') \<Rightarrow> save_each X B ds s')"

lemma authentic_savable:
  assumes "authentic E doc" "blake3_laws E"
  shows "savable E doc"
proof -
  have "did_wf (doc_did doc) \<and> doc_delta_log doc \<noteq> []"
    using assms(1)
  proof (induction rule: authentic.induct)
    case (auth_new pk doc creation)
    from doc_new_effect [OF this] obtain i where "derive_did E pk = Inr i"
      "doc = apply_delta E (doc_blank i (Some (wall_ms hlc_default))) creation" by blast
    with derive_did_wf [OF assms(2)] show ?case by (simp add: apply_delta_history) (simp add: doc_blank_def)
  qed (simp add: apply_delta_history)
  with authentic_ok [OF assms(1)] show ?thesis by (simp add: savable_def)
qed

lemma save_each_holds:
  assumes laws: "blob_laws B" "snapshot_laws X" "blake3_laws E"
    and "store_holds E X B s f" "\<And>doc. doc \<in> set ds \<Longrightarrow> authentic E doc" "save_each X B ds s = Some s'"
  shows "store_holds E X B s' (put_all ds f)"
  using assms(4-)
proof (induction ds arbitrary: s f)
  case (Cons doc ds)
  obtain h s1 where s1: "save X B s doc = (Inr h, s1)" "save_each X B ds s1 = Some s'"
    using Cons.prems(3) by (auto split: prod.splits sum.splits)
  have "store_holds E X B s1 (f(doc_did doc \<mapsto> doc))"
    by (rule save_holds(1) [OF laws(1,2) authentic_savable Cons.prems(1) s1(1)]) (simp_all add: Cons.prems(2) laws(3))
  from this have "store_holds E X B s' (put_all ds (f(doc_did doc \<mapsto> doc)))"
    by (rule Cons.IH [OF _ _ s1(2)]) (simp add: Cons.prems(2))
  then show ?case by (simp only: put_all_simps)
qed simp

lemma store_holds_did: "store_holds E X B s f \<Longrightarrow> f i = Some doc \<Longrightarrow> doc_did doc = i"
  by (force simp: store_holds_def pinned_as_def)

lemma insert_docs_lookup:
  assumes "distinct (map doc_did ds)"
  shows "fmlookup (insert_docs ds m) i = Some doc \<longleftrightarrow>
    doc \<in> set ds \<and> doc_did doc = i \<or> i \<notin> doc_did ` set ds \<and> fmlookup m i = Some doc"
  using assms
  by (induction ds arbitrary: m) (auto simp: insert_docs_def)

lemma start_docs:
  assumes "store_holds E X B s f"
  shows "fmlookup (as_docs (start E X B (Some s) dht full_replica timeout)) = f"
proof
  fix i
  obtain ds where ds: "load_all E X B s = Inr ds" "set ds = ran f" "distinct (map doc_did ds)"
    using load_all_holds [OF assms] by blast
  have "fmlookup (insert_docs ds fmempty) i = Some doc \<longleftrightarrow> f i = Some doc" for doc
    using store_holds_did [OF assms] by (auto simp: insert_docs_lookup [OF ds(3)] ds(2) ran_def)
  then have "fmlookup (insert_docs ds fmempty) i = f i" by (metis not_Some_eq)
  then show "fmlookup (as_docs (start E X B (Some s) dht full_replica timeout)) i = f i" by (simp add: start_def ds(1))
qed

section \<open>Properties\<close>

text \<open>
  C7: A submitted delta is accepted only through every gate, and a refusal changes nothing.  With
  status 202 the delta was within the size limit, for the identifier of the path and a held
  document, had its ancestors, carried a signature that verified against that document, and was
  merged; the merged document replaces the held one and, with a durable store, its snapshot and no
  other is handed over.  Any other answer has one of the error statuses, leaves the state as it was
  and saves nothing.
\<close>

theorem submit_delta_safe:
  "case submit_delta dbg E X st s d of (r, es, st') \<Rightarrow>
     if rs_status r = 202
     then \<exists>doc doc'. passed_gates E st s d doc \<and> merge E doc d = (Inr (), doc') \<and>
       st' = put_docs st (fmupd (sd_did d) doc' (as_docs st)) \<and>
       persisted es = (if ln_persistent (as_node st) then [doc'] else [])
     else rs_status r \<in> {400, 403, 404, 409, 413} \<and> st' = st \<and> persisted es = []"
proof (cases rule: submit_delta_cases [of E st s d dbg X])
  case (accepted doc doc' es)
  then show ?thesis by auto
next
  case (refused r es)
  then have "rs_status r \<noteq> 202" by auto
  with refused show ?thesis by simp
qed

text \<open>
  The service keeps its documents sound.  Whatever requests and gossip payloads reach a
  started service, in any order, every document it holds stays filed under its own identifier and
  built from a locally made creation by admitted deltas whose signatures verified.
\<close>

theorem service_invariant:
  "fmpred (\<lambda>i doc. authentic E doc \<and> doc_did doc = i)
     (as_docs (snd (serve_all decode dbg E X evs (start E X B None dht full_replica timeout))))"
proof -
  obtain es st where "serve_all decode dbg E X evs (start E X B None dht full_replica timeout) = (es, st)" by fastforce
  with serve_all_durable [OF this] show ?thesis
    by (simp add: durable_def start_def store_ok_def)
qed

text \<open>
  C21: A restart loses nothing.  When a service with a durable store handles any sequence of
  requests and gossip payloads and every snapshot it hands over is saved, a service started on
  that store holds exactly the documents that the first one held in memory.
\<close>

theorem restart_recovers:
  assumes "blob_laws B" "snapshot_laws X" "blake3_laws E"
    "store_holds E X B s f" "\<forall>doc\<in>ran f. authentic E doc"
    "serve_all decode dbg E X evs (start E X B (Some s) dht full_replica timeout) = (es, st)"
    "save_each X B (persisted es) s = Some s'"
  shows "as_docs (start E X B (Some s') dht' full_replica' timeout') = as_docs st"
proof -
  let ?st0 = "start E X B (Some s) dht full_replica timeout"
  have docs: "fmlookup (as_docs ?st0) = f" by (rule start_docs [OF assms(4)])
  have "store_ok E (as_docs ?st0)"
    unfolding store_ok_def
    using assms(5) store_holds_did [OF assms(4)] by (intro fmpredI) (auto simp: docs ran_def)
  moreover have "ln_persistent (as_node ?st0)" by (simp add: start_def)
  ultimately have st: "fmlookup (as_docs st) = put_all (persisted es) f"
    and reach: "\<And>doc. doc \<in> set (persisted es) \<Longrightarrow> authentic E doc"
    using serve_all_durable [OF assms(6)] docs by (simp_all add: durable_def)
  have "store_holds E X B s' (put_all (persisted es) f)"
    by (rule save_each_holds [OF assms(1-4) reach assms(7)])
  from start_docs [OF this, of dht' full_replica' timeout'] st show ?thesis
    by (intro fmap_ext) simp
qed

text \<open>
  C36: Creating an identifier again discards what is held under it.  Whatever document the service
  holds under the identifier of a key, a creation request with that key is answered with success,
  and the held document, with its deactivation, revocations and every other delta, is replaced by
  the fresh one in memory and in the durable store.
\<close>

theorem create_did_discards_history:
  assumes "doc_new E pk = Inr (doc, creation)" "resolve E doc = Inr result"
  shows "case create_did E X st pk of (r, es, st') \<Rightarrow>
    rs_status r = 201 \<and> fmlookup (as_docs st') (doc_did doc) = Some doc \<and>
    persisted es = (if ln_persistent (as_node st) then [doc] else []) \<and>
    doc_delta_log doc = [creation] \<and> \<not> is_deactivated doc \<and>
    doc_revoked_verification_methods doc = rvm_new \<and> doc_revocations doc = rev_new"
proof -
  obtain i where doc: "doc = apply_delta E (doc_blank i (Some (wall_ms hlc_default))) creation"
    "sd_op creation = AddVerificationMethod (did_to_string i @ ''#key-0'') pk suite_default default_relationships"
    using doc_new_effect [OF assms(1)] by blast
  have "doc_delta_log doc = [creation]" unfolding doc(1) by (simp add: apply_delta_history) (simp add: doc_blank_def)
  moreover have "\<not> is_deactivated doc \<and> doc_revoked_verification_methods doc = rvm_new \<and> doc_revocations doc = rev_new"
    unfolding doc(1)
    by (simp add: apply_delta_def doc(2) apply_op_def is_deactivated_def Let_def)
      (simp add: doc_blank_def deact_new_def deact_is_set_def)
  ultimately show ?thesis
    using assms(1,2) by (simp add: create_did_def Let_def)
qed

section \<open>Examples\<close>

text \<open>A deactivation of the example document, which then loses it.\<close>

definition ex_deactivate :: signed_delta where
  "ex_deactivate = ex_update\<lparr>sd_op := Deactivate\<rparr>"

definition ex_deactivated :: document where
  "ex_deactivated = apply_delta ex_externs ex_doc ex_deactivate"

lemma ex_deactivated_reach: "authentic ex_externs ex_deactivated"
  unfolding ex_deactivated_def
proof (rule auth_step [OF auth_new [OF ex_new]])
  show "\<not> dag_contains (doc_dag ex_doc) (delta_id ex_externs ex_deactivate)"
    by (simp add: ex_doc_dag dag_contains_def ex_update_def ex_deactivate_def)
  show "verify_signature ex_externs ex_deactivate ex_doc = Inr ()"
    by (simp add: verify_signature_def ex_deactivate_def ex_update_def signing_input_Inr ex_doc_vms vm_entries_def
        crdts_simps [OF ex_crdts_laws] sorted_list_of_fset.rep_eq node_id_from_pubkey_def str_bytes_def
        word_rcat_def ex_suite)
  have "doc_did ex_doc = ex_did" by (simp add: ex_doc_def apply_delta_history doc_blank_def)
  moreover have "verify_causal ex_deactivate (doc_dag ex_doc) = Valid"
    by (simp add: ex_doc_dag verify_causal_def scan_closure_def ex_update_def ex_deactivate_def push_parents_def note_op_def)
  ultimately show "admissible ex_externs ex_doc ex_deactivate"
    unfolding admissible_iff [OF ex_op_reach ex_crdts_laws]
    by (simp add: well_shaped_def ex_update_def ex_deactivate_def str_bytes_def MAX_DELTA_SIZE_def recognise_op_def)
qed

lemma ex_resolves: "\<exists>r. resolve ex_externs doc = Inr r" "\<exists>r. resolve ref_externs doc = Inr r"
  by (simp_all add: resolve_def Let_def ex_externs_def ref_externs_def)

theorem create_did_discards_history_witness:
  "authentic ex_externs ex_deactivated \<and> is_deactivated ex_deactivated \<and> doc_did ex_deactivated = ex_did \<and>
   (case create_did ex_externs ex_snapshots (put_docs app_new (fmupd ex_did ex_deactivated fmempty)) ''ubbb'' of
      (r, es, st) \<Rightarrow> rs_status r = 201 \<and> fmlookup (as_docs st) ex_did = Some ex_doc \<and> \<not> is_deactivated ex_doc)"
proof -
  have i: "doc_did ex_doc = ex_did" by (simp add: ex_doc_def apply_delta_history doc_blank_def)
  have "is_deactivated ex_deactivated" "doc_did ex_deactivated = ex_did"
    by (simp_all add: ex_deactivated_def ex_deactivate_def apply_delta_def apply_op_def Let_def is_deactivated_def
        deact_set_def deact_is_set_def doc_simps i)
  moreover obtain r where "resolve ex_externs ex_doc = Inr r" using ex_resolves by blast
  from create_did_discards_history [OF ex_new this, where X = ex_snapshots and st = "put_docs app_new (fmupd ex_did ex_deactivated fmempty)"]
  have "case create_did ex_externs ex_snapshots (put_docs app_new (fmupd ex_did ex_deactivated fmempty)) ''ubbb'' of
      (r, es, st) \<Rightarrow> rs_status r = 201 \<and> fmlookup (as_docs st) ex_did = Some ex_doc \<and> \<not> is_deactivated ex_doc"
    unfolding i by (auto split: prod.splits)
  ultimately show ?thesis using ex_deactivated_reach by blast
qed

abbreviation ex_disk :: ex_mem where
  "ex_disk \<equiv> \<lparr>mem_blobs = [], mem_tags = []\<rparr>"

lemma ex_disk_holds: "store_holds ref_externs ex_snapshots ex_blobs ex_disk Map.empty"
  by (simp add: store_holds_def ex_blobs_simps pinned_as_def)

theorem restart_recovers_witness:
  "\<exists>es st s'. serve_all (\<lambda>_. None) id ref_externs ex_snapshots [PostDids ''k'']
       (start ref_externs ex_snapshots ex_blobs (Some ex_disk) True False 1500) = (es, st) \<and>
     save_each ex_snapshots ex_blobs (persisted es) ex_disk = Some s' \<and>
     fmlookup (as_docs (start ref_externs ex_snapshots ex_blobs (Some s') True False 1500)) (doc_did (ex_created ''k''))
       = Some (ex_created ''k'')"
proof -
  let ?st0 = "start ref_externs ex_snapshots ex_blobs (Some ex_disk) True False 1500"
  obtain c where new: "doc_new ref_externs ''k'' = Inr (ex_created ''k'', c)" by (rule ex_created_new)
  obtain rr where rr: "resolve ref_externs (ex_created ''k'') = Inr rr" using ex_resolves by blast
  obtain es st where run: "serve_all (\<lambda>_. None) id ref_externs ex_snapshots [PostDids ''k''] ?st0 = (es, st)" by fastforce
  have st: "fmlookup (as_docs st) (doc_did (ex_created ''k'')) = Some (ex_created ''k'')"
    and es: "persisted es = [ex_created ''k'']"
    using run by (auto simp: create_did_def new rr Let_def start_def)
  obtain s' where s': "save ex_snapshots ex_blobs ex_disk (ex_created ''k'') = (Inr (str_bytes ''k''), s')"
    using ex_save by blast
  then have saved: "save_each ex_snapshots ex_blobs (persisted es) ex_disk = Some s'" by (simp add: es)
  have "as_docs (start ref_externs ex_snapshots ex_blobs (Some s') True False 1500) = as_docs st"
    by (rule restart_recovers [OF ex_blob_laws ex_snapshot_laws ref_blake3_laws ex_disk_holds _ run saved]) simp
  with st run saved show ?thesis by auto
qed

end
