(* ===== verification/Tasks.thy ===== *)
theory Tasks
  imports Service "HOL-Library.Multiset" "HOL-Library.Sublist"
begin

text \<open>
  The tasks of a running service under every interleaving.  A handler changes the store of documents
  while it holds the lock; what follows is a task of its own: \<open>persist\<close> of
  \<open>src/service/handlers.rs\<close> and the end of a turn of \<open>run_loop\<close> in \<open>src/sync/live.rs\<close> lock the store
  again to clone the document, import the blob, and move the tag, and between any two of these steps
  other handlers and tasks may run.  Each call of the blob store can fail: both places log the
  failure, only the handlers count it.  The message loop waits for its own save before it takes the
  next payload.
\<close>

section \<open>Tasks\<close>

datatype origin = FromHandler | FromLoop

datatype task =
    TakeSnapshot origin did
  | WriteBlob origin document
  | SetTag origin document bytes

fun task_origin :: "task \<Rightarrow> origin" where
  "task_origin (TakeSnapshot og i) = og"
| "task_origin (WriteBlob og doc) = og"
| "task_origin (SetTag og doc h) = og"

text \<open>The shared state: the application, the blob store, the tasks in flight, the counter of failed
  writes in the metrics, and the number of failures in the log.\<close>

record 's system =
  sys_app :: app_state
  sys_disk :: 's
  sys_tasks :: "task multiset"
  sys_failures :: nat
  sys_log :: nat

abbreviation sys_docs :: "'s system \<Rightarrow> doc_store" where
  "sys_docs z \<equiv> as_docs (sys_app z)"

definition add_task :: "task \<Rightarrow> 's system \<Rightarrow> 's system" where
  "add_task t z = z\<lparr>sys_tasks := add_mset t (sys_tasks z)\<rparr>"

definition save_failed :: "origin \<Rightarrow> 's system \<Rightarrow> 's system" where
  "save_failed og z =
     z\<lparr>sys_log := sys_log z + 1, sys_failures := sys_failures z + (if og = FromHandler then 1 else 0)\<rparr>"

text \<open>A task that is no longer in flight makes its step, and is in flight again with what remains.\<close>

fun run_task :: "snapshots \<Rightarrow> ('s, 'e, 'r) blobs \<Rightarrow> task \<Rightarrow> 's system \<Rightarrow> 's system" where
  "run_task X B (TakeSnapshot og i) z =
     (case fmlookup (sys_docs z) i of None \<Rightarrow> z | Some doc \<Rightarrow> add_task (WriteBlob og doc) z)"
| "run_task X B (WriteBlob og doc) z =
     (case to_bytes X doc of
        Inl _ \<Rightarrow> save_failed og z
      | Inr b \<Rightarrow>
          (case import_bytes B (sys_disk z) b Raw of
             (Inl _, s) \<Rightarrow> save_failed og (z\<lparr>sys_disk := s\<rparr>)
           | (Inr h, s) \<Rightarrow> add_task (SetTag og doc h) (z\<lparr>sys_disk := s\<rparr>)))"
| "run_task X B (SetTag og doc h) z =
     (case set_tag B (sys_disk z) (did_tag (did_as_str (doc_did doc))) (Some \<lparr>hf_hash = h, hf_format = Raw\<rparr>) of
        (Inl _, s) \<Rightarrow> save_failed og (z\<lparr>sys_disk := s\<rparr>)
      | (Inr _, s) \<Rightarrow> z\<lparr>sys_disk := s\<rparr>)"

section \<open>Steps\<close>

fun event_origin :: "'p event \<Rightarrow> origin" where
  "event_origin (Payload raw) = FromLoop"
| "event_origin _ = FromHandler"

text \<open>A resolution waits and reads; what it changes is the set of solicited identifiers.\<close>

fun waits :: "'p event \<Rightarrow> bool" where
  "waits (GetDid s q V now) = True"
| "waits _ = False"

text \<open>The message loop handles a payload only when its previous turn has ended.\<close>

definition may_begin :: "'p event \<Rightarrow> 's system \<Rightarrow> bool" where
  "may_begin ev z \<longleftrightarrow> \<not> waits ev \<and>
     (event_origin ev = FromLoop \<longrightarrow> (\<forall>t\<in>#sys_tasks z. task_origin t \<noteq> FromLoop))"

definition begin_saves :: "'p event \<Rightarrow> document list \<Rightarrow> task multiset" where
  "begin_saves ev ds = mset (map (\<lambda>doc. TakeSnapshot (event_origin ev) (doc_did doc)) ds)"

definition with_policy :: "(bootstrap_policy \<Rightarrow> bootstrap_policy) \<Rightarrow> 's system \<Rightarrow> 's system" where
  "with_policy f z =
     z\<lparr>sys_app := (sys_app z)\<lparr>as_node := (as_node (sys_app z))\<lparr>ln_policy := f (ln_policy (as_node (sys_app z)))\<rparr>\<rparr>\<rparr>"

text \<open>
  One step of the whole: the locked part of a handler or of a turn of the message loop, the begin or
  the end of a cold start, or a step of a task.  \<open>guard\<close> and \<open>sched\<close> restrict which requests arrive
  and which tasks run; the code restricts neither.
\<close>

inductive sys_step ::
    "(app_state \<Rightarrow> 'p event \<Rightarrow> bool) \<Rightarrow> ('s system \<Rightarrow> task \<Rightarrow> bool) \<Rightarrow> (bytes \<Rightarrow> sync_message option) \<Rightarrow>
     (string \<Rightarrow> string) \<Rightarrow> externs \<Rightarrow> snapshots \<Rightarrow> ('s, 'e, 'r) blobs \<Rightarrow> 's system \<Rightarrow> 's system \<Rightarrow> bool"
  for guard sched decode dbg E X B where
  step_event: "may_begin ev z \<Longrightarrow> guard (sys_app z) ev \<Longrightarrow> serve decode dbg E X ev (sys_app z) = (r, es, st) \<Longrightarrow>
    sys_step guard sched decode dbg E X B z (z\<lparr>sys_app := st, sys_tasks := sys_tasks z + begin_saves ev (persisted es)\<rparr>)"
| step_solicit: "sys_step guard sched decode dbg E X B z (with_policy (\<lambda>p. add_wanted p i) z)"
| step_withdraw: "sys_step guard sched decode dbg E X B z (with_policy (\<lambda>p. remove_wanted p i) z)"
| step_task: "t \<in># sys_tasks z \<Longrightarrow> sched z t \<Longrightarrow>
    sys_step guard sched decode dbg E X B z (run_task X B t (z\<lparr>sys_tasks := sys_tasks z - {#t#}\<rparr>))"

abbreviation sys_run where
  "sys_run guard sched decode dbg E X B \<equiv> (sys_step guard sched decode dbg E X B)\<^sup>*\<^sup>*"

text \<open>The system at the start of a service with a durable store.\<close>

definition boot ::
    "externs \<Rightarrow> snapshots \<Rightarrow> ('s, 'e, 'r) blobs \<Rightarrow> 's \<Rightarrow> bool \<Rightarrow> bool \<Rightarrow> nat \<Rightarrow> 's system" where
  "boot E X B s dht full_replica timeout =
     \<lparr>sys_app = start E X B (Some s) dht full_replica timeout, sys_disk = s, sys_tasks = {#},
      sys_failures = 0, sys_log = 0\<rparr>"

text \<open>What the code allows: any request and any order of tasks.\<close>

definition any_request :: "app_state \<Rightarrow> 'p event \<Rightarrow> bool" where
  "any_request st ev = True"

definition any_order :: "'s system \<Rightarrow> task \<Rightarrow> bool" where
  "any_order z t = True"

text \<open>No creation request for an identifier that is held.\<close>

definition no_recreation :: "externs \<Rightarrow> app_state \<Rightarrow> 'p event \<Rightarrow> bool" where
  "no_recreation E st ev \<longleftrightarrow>
     (case ev of
        PostDids pk \<Rightarrow> (case doc_new E pk of Inl _ \<Rightarrow> True | Inr (doc, _) \<Rightarrow> fmlookup (as_docs st) (doc_did doc) = None)
      | _ \<Rightarrow> True)"

fun task_saves :: "did \<Rightarrow> task \<Rightarrow> bool" where
  "task_saves i (TakeSnapshot og j) = False"
| "task_saves i (WriteBlob og doc) = (doc_did doc = i)"
| "task_saves i (SetTag og doc h) = (doc_did doc = i)"

text \<open>Saves of one identifier do not overlap: a snapshot is taken when no earlier one is on its way.\<close>

fun one_save_each :: "'s system \<Rightarrow> task \<Rightarrow> bool" where
  "one_save_each z (TakeSnapshot og i) = (\<forall>t\<in>#sys_tasks z. \<not> task_saves i t)"
| "one_save_each z _ = True"

text \<open>What a failing call of the blob store leaves behind: everything that was there, with the tag
  moved or not.\<close>

definition blob_fail_laws :: "('s, 'e, 'r) blobs \<Rightarrow> bool" where
  "blob_fail_laws B \<longleftrightarrow>
     (\<forall>s b f e s'. import_bytes B s b f = (Inl e, s') \<longrightarrow>
        (\<forall>k c. readable B s k c \<longrightarrow> readable B s' k c) \<and> (\<forall>m. tags_are B s m \<longrightarrow> tags_are B s' m)) \<and>
     (\<forall>s t v e s'. set_tag B s t (Some v) = (Inl e, s') \<longrightarrow>
        (\<forall>k c. readable B s k c \<longrightarrow> readable B s' k c) \<and>
        ((\<forall>m. tags_are B s m \<longrightarrow> tags_are B s' m) \<or> (\<forall>m. tags_are B s m \<longrightarrow> tags_are B s' (m(t \<mapsto> v)))))"

section \<open>Documents only grow\<close>

text \<open>Every held document has grown by deltas, if it has changed at all.\<close>

definition grown :: "doc_store \<Rightarrow> doc_store \<Rightarrow> bool" where
  "grown docs docs' \<longleftrightarrow> (\<forall>i doc. fmlookup docs i = Some doc \<longrightarrow>
     (\<exists>doc'. fmlookup docs' i = Some doc' \<and> prefix (doc_delta_log doc) (doc_delta_log doc')))"

lemma grown_refl: "grown docs docs"
  by (simp add: grown_def)

lemma grown_put:
  assumes "\<And>old. fmlookup docs i = Some old \<Longrightarrow> prefix (doc_delta_log old) (doc_delta_log doc)"
  shows "grown docs (fmupd i doc docs)"
  using assms by (auto simp: grown_def)

lemma merge_prefix: "merge E doc d = (r, doc') \<Longrightarrow> prefix (doc_delta_log doc) (doc_delta_log doc')"
  by (cases rule: merge_cases [of E doc d]) (auto simp: apply_delta_history prefix_def)

lemma run_loop_step_grown:
  assumes "run_loop_step decode E n raw = (es, n')"
  shows "grown (ln_docs n) (ln_docs n')"
proof (cases rule: run_loop_step_cases [of decode E n raw])
  case (same es' g)
  with assms show ?thesis by (auto simp: grown_refl)
next
  case (merged es' g i ds doc doc')
  have "prefix (doc_delta_log doc) (doc_delta_log doc')"
    using verified_chain_log [OF merged(4)] by (auto simp: prefix_def)
  with merged(1,3) assms show ?thesis by (auto intro!: grown_put)
qed

lemma serve_grown:
  assumes "serve decode dbg E X ev st = (r, es, st')" "\<not> waits ev" "no_recreation E st ev"
  shows "grown (as_docs st) (as_docs st')"
proof (cases ev)
  case (PostDids pk)
  with assms show ?thesis
    by (auto simp: create_did_def no_recreation_def Let_def grown_refl intro!: grown_put split: sum.splits prod.splits)
next
  case (PostDelta s d)
  show ?thesis
  proof (cases rule: submit_delta_cases [of E st s d dbg X])
    case (accepted doc doc' es')
    then have "fmlookup (as_docs st) (sd_did d) = Some doc" by (simp add: passed_gates_def)
    then have "grown (as_docs st) (fmupd (sd_did d) doc' (as_docs st))"
      using merge_prefix [OF accepted(2)] by (intro grown_put) simp
    with PostDelta assms(1) accepted(3) show ?thesis by auto
  qed (use PostDelta assms(1) in \<open>auto simp: grown_refl\<close>)
next
  case (Payload raw)
  with assms(1) show ?thesis by (auto simp: grown_refl split: if_splits prod.splits dest: run_loop_step_grown)
qed (use assms in \<open>auto simp: grown_refl\<close>)

section \<open>Snapshots are behind memory\<close>

text \<open>An earlier state of a held document.\<close>

definition earlier :: "externs \<Rightarrow> doc_store \<Rightarrow> document \<Rightarrow> bool" where
  "earlier E docs d \<longleftrightarrow> authentic E d \<and>
     (\<exists>doc. fmlookup docs (doc_did d) = Some doc \<and> prefix (doc_delta_log d) (doc_delta_log doc))"

lemma earlier_grown: "earlier E docs d \<Longrightarrow> grown docs docs' \<Longrightarrow> earlier E docs' d"
  unfolding earlier_def grown_def by (meson prefix_order.trans)

fun task_ok :: "externs \<Rightarrow> snapshots \<Rightarrow> ('s, 'e, 'r) blobs \<Rightarrow> 's \<Rightarrow> (document \<Rightarrow> bool) \<Rightarrow> task \<Rightarrow> bool" where
  "task_ok E X B s P (TakeSnapshot og i) = True"
| "task_ok E X B s P (WriteBlob og d) = P d"
| "task_ok E X B s P (SetTag og d h) = (P d \<and> (\<exists>b. readable B s h b \<and> from_bytes E X b = Inr d))"

text \<open>
  What holds of the disk and the tasks in flight, for a property \<open>P\<close> of snapshots: the disk is a map
  to documents with \<open>P\<close>, and so are the snapshots that tasks carry, which are readable once written.
\<close>

definition saves_ok ::
    "externs \<Rightarrow> snapshots \<Rightarrow> ('s, 'e, 'r) blobs \<Rightarrow> (document \<Rightarrow> bool) \<Rightarrow> 's system \<Rightarrow> bool" where
  "saves_ok E X B P z \<longleftrightarrow>
     (\<exists>f. store_holds E X B (sys_disk z) f \<and> (\<forall>d\<in>ran f. P d)) \<and>
     (\<forall>t\<in>#sys_tasks z. task_ok E X B (sys_disk z) P t)"

lemma task_ok_mono:
  assumes "task_ok E X B s P t" "\<And>k c. readable B s k c \<Longrightarrow> readable B s' k c" "\<And>d. P d \<Longrightarrow> Q d"
  shows "task_ok E X B s' Q t"
  using assms by (cases t) auto

lemma run_task_app [simp]: "sys_app (run_task X B t z) = sys_app z"
  by (cases t) (auto simp: add_task_def save_failed_def split: option.splits sum.splits prod.splits)

lemma save_failed_simps [simp]:
  "sys_disk (save_failed og z) = sys_disk z" "sys_tasks (save_failed og z) = sys_tasks z"
  "sys_app (save_failed og z) = sys_app z"
  by (simp_all add: save_failed_def)

lemma add_task_simps [simp]:
  "sys_disk (add_task t z) = sys_disk z" "sys_tasks (add_task t z) = add_mset t (sys_tasks z)"
  "sys_app (add_task t z) = sys_app z" "sys_log (add_task t z) = sys_log z"
  by (simp_all add: add_task_def)

text \<open>The two calls of a save, on the blob store.\<close>

lemma import_keeps:
  assumes "blob_laws B" "blob_fail_laws B" "import_bytes B s b f = (r, s')"
  shows "readable B s k c \<Longrightarrow> readable B s' k c" "tags_are B s m \<Longrightarrow> tags_are B s' m"
    "r = Inr h \<Longrightarrow> readable B s' h b"
proof -
  have "(\<forall>k c. readable B s k c \<longrightarrow> readable B s' k c) \<and> (\<forall>m. tags_are B s m \<longrightarrow> tags_are B s' m) \<and>
      (\<forall>h. r = Inr h \<longrightarrow> readable B s' h b)"
  proof (cases r)
    case (Inl e)
    with assms(2,3) show ?thesis unfolding blob_fail_laws_def by simp
  next
    case (Inr h)
    with assms(1,3) show ?thesis unfolding blob_laws_def by simp
  qed
  then show "readable B s k c \<Longrightarrow> readable B s' k c" "tags_are B s m \<Longrightarrow> tags_are B s' m"
    "r = Inr h \<Longrightarrow> readable B s' h b" by simp_all
qed

lemma set_tag_keeps:
  assumes "blob_laws B" "blob_fail_laws B" "set_tag B s t (Some v) = (r, s')"
  shows "readable B s k c \<Longrightarrow> readable B s' k c"
    "(\<forall>m. tags_are B s m \<longrightarrow> tags_are B s' (m(t \<mapsto> v))) \<or> (\<exists>e. r = Inl e) \<and> (\<forall>m. tags_are B s m \<longrightarrow> tags_are B s' m)"
proof -
  have "(\<forall>k c. readable B s k c \<longrightarrow> readable B s' k c) \<and>
     ((\<forall>m. tags_are B s m \<longrightarrow> tags_are B s' (m(t \<mapsto> v))) \<or> (\<exists>e. r = Inl e) \<and> (\<forall>m. tags_are B s m \<longrightarrow> tags_are B s' m))"
  proof (cases r)
    case (Inl e)
    with assms(2,3) show ?thesis unfolding blob_fail_laws_def by metis
  next
    case (Inr u)
    with assms(1,3) show ?thesis unfolding blob_laws_def by simp
  qed
  then show "readable B s k c \<Longrightarrow> readable B s' k c"
    "(\<forall>m. tags_are B s m \<longrightarrow> tags_are B s' (m(t \<mapsto> v))) \<or> (\<exists>e. r = Inl e) \<and> (\<forall>m. tags_are B s m \<longrightarrow> tags_are B s' m)"
    by simp_all
qed

lemma saves_ok_mono:
  assumes "saves_ok E X B P z" "sys_disk z' = sys_disk z" "\<And>d. P d \<Longrightarrow> Q d"
    "\<And>t. t \<in># sys_tasks z' \<Longrightarrow> t \<in># sys_tasks z \<or> (\<exists>og i. t = TakeSnapshot og i)"
  shows "saves_ok E X B Q z'"
proof -
  have "task_ok E X B (sys_disk z') Q t" if "t \<in># sys_tasks z'" for t
    using assms(4) [OF that]
  proof
    assume "t \<in># sys_tasks z"
    with assms(1) have "task_ok E X B (sys_disk z) P t" by (simp add: saves_ok_def)
    then show ?thesis by (rule task_ok_mono) (simp_all add: assms(2,3))
  qed auto
  with assms(1-3) show ?thesis unfolding saves_ok_def by metis
qed

lemma saves_ok_disk:
  assumes "saves_ok E X B P z" "store_holds E X B s f" "\<forall>d\<in>ran f. P d"
    "\<And>k c. readable B (sys_disk z) k c \<Longrightarrow> readable B s k c"
  shows "saves_ok E X B P (z\<lparr>sys_disk := s\<rparr>)"
  using assms task_ok_mono [OF _ assms(4)] by (auto simp: saves_ok_def)

lemma saves_ok_simps [simp]:
  "saves_ok E X B P (save_failed og z) = saves_ok E X B P z"
  "saves_ok E X B P (add_task t z) \<longleftrightarrow> task_ok E X B (sys_disk z) P t \<and> saves_ok E X B P z"
  by (auto simp: saves_ok_def)

lemma write_saves_ok:
  assumes laws: "blob_laws B" "snapshot_laws X" "blob_fail_laws B"
    and ok: "saves_ok E X B P z" "P doc" "\<And>d. P d \<Longrightarrow> savable E d"
  shows "saves_ok E X B P (run_task X B (WriteBlob og doc) z)"
proof (cases "to_bytes X doc")
  case (Inr b)
  obtain r s where i: "import_bytes B (sys_disk z) b Raw = (r, s)" by fastforce
  note keeps = import_keeps [OF laws(1,3) i]
  obtain f where f: "store_holds E X B (sys_disk z) f" "\<forall>d\<in>ran f. P d" using ok(1) by (auto simp: saves_ok_def)
  have "store_holds E X B s f" using store_holds_keep [OF f(1)] keeps(1,2) by blast
  from saves_ok_disk [OF ok(1) this f(2)] keeps(1) have z: "saves_ok E X B P (z\<lparr>sys_disk := s\<rparr>)" by blast
  have "from_bytes E X b = Inr doc" by (rule savable_bytes [OF ok(3) [OF ok(2)] laws(2) Inr])
  with keeps(3) z Inr i ok(2) show ?thesis by (cases r) auto
qed (use ok(1) in simp)

lemma tag_saves_ok:
  assumes laws: "blob_laws B" "blob_fail_laws B"
    and ok: "saves_ok E X B P z" "P doc" "\<And>d. P d \<Longrightarrow> savable E d"
    and b: "readable B (sys_disk z) h b" "from_bytes E X b = Inr doc"
  shows "saves_ok E X B P (run_task X B (SetTag og doc h) z)"
proof -
  obtain r s where t: "set_tag B (sys_disk z) (did_tag (did_as_str (doc_did doc))) (Some \<lparr>hf_hash = h, hf_format = Raw\<rparr>) = (r, s)"
    by fastforce
  note keeps = set_tag_keeps [OF laws t]
  obtain f where f: "store_holds E X B (sys_disk z) f" "\<forall>d\<in>ran f. P d" using ok(1) by (auto simp: saves_ok_def)
  have wf: "did_wf (doc_did doc)" using ok(2,3) by (simp add: savable_def)
  have "\<exists>g. store_holds E X B s g \<and> (\<forall>d\<in>ran g. P d)"
    using keeps(2)
  proof
    assume m: "\<forall>m. tags_are B (sys_disk z) m \<longrightarrow>
      tags_are B s (m(did_tag (did_as_str (doc_did doc)) \<mapsto> \<lparr>hf_hash = h, hf_format = Raw\<rparr>))"
    have "store_holds E X B s (f(doc_did doc \<mapsto> doc))"
      by (rule store_holds_tag [OF f(1) wf keeps(1) [OF b(1)] b(2) keeps(1)]) (use m in auto)
    moreover have "\<forall>d\<in>ran (f(doc_did doc \<mapsto> doc)). P d" using f(2) ok(2) by (auto simp: ran_def)
    ultimately show ?thesis by blast
  next
    assume "(\<exists>e. r = Inl e) \<and> (\<forall>m. tags_are B (sys_disk z) m \<longrightarrow> tags_are B s m)"
    then have "store_holds E X B s f" using store_holds_keep [OF f(1) keeps(1)] by blast
    with f(2) show ?thesis by blast
  qed
  then obtain g where "store_holds E X B s g" "\<forall>d\<in>ran g. P d" by blast
  from saves_ok_disk [OF ok(1) this keeps(1)] have "saves_ok E X B P (z\<lparr>sys_disk := s\<rparr>)" .
  with t show ?thesis by (cases r) auto
qed

lemma run_task_saves_ok:
  assumes laws: "blob_laws B" "snapshot_laws X" "blob_fail_laws B"
    and ok: "saves_ok E X B P z" "\<And>d. P d \<Longrightarrow> savable E d" "t \<in># sys_tasks z"
      "\<And>i doc. fmlookup (sys_docs z) i = Some doc \<Longrightarrow> P doc"
  shows "saves_ok E X B P (run_task X B t (z\<lparr>sys_tasks := sys_tasks z - {#t#}\<rparr>))"
proof -
  let ?z = "z\<lparr>sys_tasks := sys_tasks z - {#t#}\<rparr>"
  have z: "saves_ok E X B P ?z" by (rule saves_ok_mono [OF ok(1)]) (auto dest: in_diffD)
  have t: "task_ok E X B (sys_disk z) P t" using ok(1,3) by (auto simp: saves_ok_def)
  show ?thesis
  proof (cases t)
    case (TakeSnapshot og i)
    with z ok(4) show ?thesis by (simp split: option.splits)
  next
    case (WriteBlob og doc)
    with t have "P doc" by simp
    with write_saves_ok [OF laws z _ ok(2)] WriteBlob show ?thesis by simp
  next
    case (SetTag og doc h)
    with t obtain b where "P doc" "readable B (sys_disk ?z) h b" "from_bytes E X b = Inr doc" by auto
    with tag_saves_ok [OF laws(1,3) z _ ok(2)] SetTag show ?thesis by simp
  qed
qed

definition behind :: "externs \<Rightarrow> snapshots \<Rightarrow> ('s, 'e, 'r) blobs \<Rightarrow> 's system \<Rightarrow> bool" where
  "behind E X B z \<longleftrightarrow> store_ok E (sys_docs z) \<and> saves_ok E X B (earlier E (sys_docs z)) z"

lemma with_policy_simps [simp]:
  "sys_docs (with_policy f z) = sys_docs z" "sys_disk (with_policy f z) = sys_disk z"
  "sys_tasks (with_policy f z) = sys_tasks z" "sys_log (with_policy f z) = sys_log z"
  "sys_failures (with_policy f z) = sys_failures z"
  by (simp_all add: with_policy_def)

lemma begin_saves_snapshot: "t \<in># begin_saves ev ds \<Longrightarrow> \<exists>og i. t = TakeSnapshot og i"
  by (auto simp: begin_saves_def)

lemma earlier_held: "store_ok E docs \<Longrightarrow> fmlookup docs i = Some doc \<Longrightarrow> earlier E docs doc"
  by (auto simp: earlier_def store_ok_def dest: fmpredD)

lemma serve_store_ok:
  assumes "serve decode dbg E X ev st = (r, es, st')" "store_ok E (as_docs st)"
  shows "store_ok E (as_docs st')"
  using serve_durable [OF assms(1)] assms(2) by (simp add: durable_def)

lemma sys_step_behind:
  assumes laws: "blob_laws B" "snapshot_laws X" "blob_fail_laws B" "blake3_laws E"
    and step: "sys_step (no_recreation E) sched decode dbg E X B z z'" and inv: "behind E X B z"
  shows "behind E X B z'"
  using step
proof cases
  case (step_event ev r es st)
  have "grown (sys_docs z) (as_docs st)"
    using serve_grown [OF step_event(4) _ step_event(3)] step_event(2) by (simp add: may_begin_def)
  moreover have "store_ok E (as_docs st)"
    using serve_store_ok [OF step_event(4)] inv by (simp add: behind_def)
  moreover have "saves_ok E X B (earlier E (as_docs st)) z'"
  proof (rule saves_ok_mono)
    show "saves_ok E X B (earlier E (sys_docs z)) z" using inv by (simp add: behind_def)
    show "earlier E (sys_docs z) d \<Longrightarrow> earlier E (as_docs st) d" for d
      by (rule earlier_grown) (use calculation(1) in auto)
  qed (use step_event(1) in \<open>auto dest: begin_saves_snapshot\<close>)
  ultimately show ?thesis using step_event(1) by (simp add: behind_def)
next
  case (step_solicit i)
  have "saves_ok E X B (earlier E (sys_docs z)) z'"
    by (rule saves_ok_mono [of E X B "earlier E (sys_docs z)" z]) (use inv step_solicit in \<open>auto simp: behind_def\<close>)
  with inv step_solicit show ?thesis by (simp add: behind_def)
next
  case (step_withdraw i)
  have "saves_ok E X B (earlier E (sys_docs z)) z'"
    by (rule saves_ok_mono [of E X B "earlier E (sys_docs z)" z]) (use inv step_withdraw in \<open>auto simp: behind_def\<close>)
  with inv step_withdraw show ?thesis by (simp add: behind_def)
next
  case (step_task t)
  have "saves_ok E X B (earlier E (sys_docs z)) z'"
    unfolding step_task(1)
  proof (rule run_task_saves_ok [OF laws(1-3)])
    show "earlier E (sys_docs z) d \<Longrightarrow> savable E d" for d
      using authentic_savable [OF _ laws(4)] by (auto simp: earlier_def)
  qed (use inv step_task earlier_held in \<open>auto simp: behind_def\<close>)
  with inv step_task(1) show ?thesis by (simp add: behind_def)
qed

lemma boot_behind:
  assumes "store_holds E X B s f" "\<forall>doc\<in>ran f. authentic E doc"
  shows "behind E X B (boot E X B s dht full_replica timeout)"
proof -
  have docs: "fmlookup (as_docs (start E X B (Some s) dht full_replica timeout)) = f" by (rule start_docs [OF assms(1)])
  have "store_ok E (as_docs (start E X B (Some s) dht full_replica timeout))"
    unfolding store_ok_def using assms(2) store_holds_did [OF assms(1)] by (intro fmpredI) (auto simp: docs ran_def)
  moreover from this have "\<forall>d\<in>ran f. earlier E (as_docs (start E X B (Some s) dht full_replica timeout)) d"
    using earlier_held docs by (auto simp: ran_def)
  ultimately show ?thesis using assms(1) by (auto simp: behind_def boot_def saves_ok_def)
qed

lemma sys_step_store_ok:
  assumes "sys_step guard sched decode dbg E X B z z'" "store_ok E (sys_docs z)"
  shows "store_ok E (sys_docs z')"
  using assms(1)
proof cases
  case (step_event ev r es st)
  with serve_store_ok [OF step_event(4) assms(2)] show ?thesis by simp
qed (use assms(2) in simp_all)

text \<open>Both are invariants of runs.\<close>

definition disk_laws :: "externs \<Rightarrow> snapshots \<Rightarrow> ('s, 'e, 'r) blobs \<Rightarrow> bool" where
  "disk_laws E X B \<longleftrightarrow> blob_laws B \<and> snapshot_laws X \<and> blob_fail_laws B \<and> blake3_laws E"

interpretation sound_docs: step_invariant "sys_step guard sched decode dbg E X B" "\<lambda>z. store_ok E (sys_docs z)"
  for guard sched decode dbg E X B
  by unfold_locales (rule sys_step_store_ok)

interpretation disk_behind: step_invariant "sys_step (no_recreation E) sched decode dbg E X B"
    "\<lambda>z. disk_laws E X B \<and> behind E X B z"
  for sched decode dbg E X B
  by unfold_locales (auto simp: disk_laws_def intro: sys_step_behind)

end
