(* ===== verification/Interleave.thy ===== *)
theory Interleave
  imports Tasks
begin

text \<open>
  What the interleavings of \<open>Tasks\<close> do to the durable store: with saves in any order the disk is behind
  memory and can stay behind it; when the saves of one identifier do not overlap it catches up.  The
  example is a service with one document and one accepted update.
\<close>

section \<open>Saves that do not overlap\<close>

fun task_doc :: "task \<Rightarrow> document option" where
  "task_doc (TakeSnapshot og i) = None"
| "task_doc (WriteBlob og doc) = Some doc"
| "task_doc (SetTag og doc h) = Some doc"

text \<open>
  The disk map \<open>f\<close> is up to date at \<open>i\<close> or will be: a snapshot is still to be taken, or the one that
  is on its way is the document in memory, or none is on its way and the disk has that document.
\<close>

definition fresh_at :: "task multiset \<Rightarrow> doc_store \<Rightarrow> (did \<rightharpoonup> document) \<Rightarrow> did \<Rightarrow> bool" where
  "fresh_at ts docs f i \<longleftrightarrow>
     (\<exists>og. TakeSnapshot og i \<in># ts) \<or>
     (\<exists>t. filter_mset (task_saves i) ts = {#t#} \<and> task_doc t = fmlookup docs i) \<or>
     filter_mset (task_saves i) ts = {#} \<and> f i = fmlookup docs i"

definition serial_map ::
    "externs \<Rightarrow> snapshots \<Rightarrow> ('s, 'e, 'r) blobs \<Rightarrow> 's system \<Rightarrow> (did \<rightharpoonup> document) \<Rightarrow> bool" where
  "serial_map E X B z f \<longleftrightarrow>
     store_holds E X B (sys_disk z) f \<and>
     (\<forall>t\<in>#sys_tasks z. task_ok E X B (sys_disk z) (authentic E) t) \<and>
     (\<forall>og i. TakeSnapshot og i \<in># sys_tasks z \<longrightarrow> fmlookup (sys_docs z) i \<noteq> None) \<and>
     (\<forall>i. size (filter_mset (task_saves i) (sys_tasks z)) \<le> 1) \<and>
     (sys_log z = 0 \<longrightarrow> (\<forall>i. fresh_at (sys_tasks z) (sys_docs z) f i))"

definition serial :: "externs \<Rightarrow> snapshots \<Rightarrow> ('s, 'e, 'r) blobs \<Rightarrow> 's system \<Rightarrow> bool" where
  "serial E X B z \<longleftrightarrow> store_ok E (sys_docs z) \<and> ln_persistent (as_node (sys_app z)) \<and> (\<exists>f. serial_map E X B z f)"

lemma size_filter_smaller: "size (filter_mset P (add_mset t ts)) \<le> 1 \<Longrightarrow> size (filter_mset P ts) \<le> 1"
  by (cases "P t") (auto simp del: filter_mset_eq_mempty_iff)

lemma task_saves_doc: "task_saves i t \<Longrightarrow> \<exists>doc. task_doc t = Some doc \<and> doc_did doc = i"
  by (cases t) auto

lemma serial_mapD:
  assumes "serial_map E X B z f"
  shows "store_holds E X B (sys_disk z) f" "t \<in># sys_tasks z \<Longrightarrow> task_ok E X B (sys_disk z) (authentic E) t"
    "TakeSnapshot og i \<in># sys_tasks z \<Longrightarrow> fmlookup (sys_docs z) i \<noteq> None"
    "size (filter_mset (task_saves i) (sys_tasks z)) \<le> 1"
    "sys_log z = 0 \<Longrightarrow> fresh_at (sys_tasks z) (sys_docs z) f i"
  using assms unfolding serial_map_def by blast+

lemma serial_map_held:
  "serial_map E X B z f \<Longrightarrow> sys_tasks z = add_mset t ts \<Longrightarrow>
    \<forall>og i. TakeSnapshot og i \<in># ts \<longrightarrow> fmlookup (sys_docs z) i \<noteq> None"
  by (simp add: serial_map_def)

text \<open>A failed step ends its task and is in the log; the disk may have moved.\<close>

lemma serial_map_failed:
  assumes "serial_map E X B z f" "sys_tasks z = add_mset t ts" "store_holds E X B s g"
    "\<And>k c. readable B (sys_disk z) k c \<Longrightarrow> readable B s k c"
  shows "serial_map E X B (save_failed og (z\<lparr>sys_disk := s, sys_tasks := ts\<rparr>)) g"
proof -
  have "task_ok E X B s (authentic E) t'" if "t' \<in># ts" for t'
    using serial_mapD(2) [OF assms(1), of t'] that assms(2) by (auto intro: task_ok_mono [OF _ assms(4)])
  moreover have "size (filter_mset (task_saves i) ts) \<le> 1" for i
    using serial_mapD(4) [OF assms(1), of i] unfolding assms(2) by (rule size_filter_smaller)
  ultimately show ?thesis
    using assms(3) serial_map_held [OF assms(1,2)] by (simp add: serial_map_def save_failed_def)
qed

lemma serial_map_snapshot:
  assumes "serial_map E X B z f" "store_ok E (sys_docs z)" "sys_tasks z = add_mset (TakeSnapshot og i) ts"
    "fmlookup (sys_docs z) i = Some doc" "\<forall>t\<in>#sys_tasks z. \<not> task_saves i t"
  shows "serial_map E X B (z\<lparr>sys_tasks := add_mset (WriteBlob og doc) ts\<rparr>) f"
proof -
  have doc: "authentic E doc" "doc_did doc = i" using assms(2,4) by (auto simp: store_ok_def dest: fmpredD)
  have none: "filter_mset (task_saves i) ts = {#}" using assms(3,5) by (auto simp: filter_mset_eq_mempty_iff)
  have "fresh_at (add_mset (WriteBlob og doc) ts) (sys_docs z) f j" if "sys_log z = 0" for j
  proof (cases "j = i")
    case True
    with none doc assms(4) show ?thesis by (auto simp: fresh_at_def)
  next
    case False
    with serial_mapD(5) [OF assms(1) that, of j] doc assms(3) show ?thesis by (auto simp: fresh_at_def)
  qed
  moreover have "size (filter_mset (task_saves j) (add_mset (WriteBlob og doc) ts)) \<le> 1" for j
    using serial_mapD(4) [OF assms(1), of j] none doc assms(3) by (cases "j = i") auto
  ultimately show ?thesis
    using serial_mapD(1,2) [OF assms(1)] serial_map_held [OF assms(1,3)] doc assms(3)
    by (simp add: serial_map_def del: filter_mset_add_mset)
qed

lemma serial_map_write:
  assumes "serial_map E X B z f" "sys_tasks z = add_mset (WriteBlob og doc) ts" "store_holds E X B s f"
    "\<And>k c. readable B (sys_disk z) k c \<Longrightarrow> readable B s k c" "readable B s h b" "from_bytes E X b = Inr doc"
  shows "serial_map E X B (z\<lparr>sys_disk := s, sys_tasks := add_mset (SetTag og doc h) ts\<rparr>) f"
proof -
  have "authentic E doc" using serial_mapD(2) [OF assms(1), of "WriteBlob og doc"] assms(2) by simp
  moreover have "task_ok E X B s (authentic E) t" if "t \<in># ts" for t
    using serial_mapD(2) [OF assms(1), of t] that assms(2) by (auto intro: task_ok_mono [OF _ assms(4)])
  moreover have "size (filter_mset (task_saves i) (add_mset (SetTag og doc h) ts)) \<le> 1" for i
    using serial_mapD(4) [OF assms(1), of i] assms(2) by (simp split: if_splits)
  moreover have "fresh_at (add_mset (SetTag og doc h) ts) (sys_docs z) f i" if "sys_log z = 0" for i
    using serial_mapD(5) [OF assms(1) that, of i] assms(2) by (auto simp: fresh_at_def add_eq_conv_ex split: if_splits)
  ultimately show ?thesis
    using assms(3,5,6) serial_map_held [OF assms(1,2)]
    by (auto simp: serial_map_def simp del: filter_mset_add_mset)
qed

lemma serial_map_tag:
  assumes "serial_map E X B z f" "sys_tasks z = add_mset (SetTag og doc h) ts"
    "store_holds E X B s (f(doc_did doc \<mapsto> doc))" "\<And>k c. readable B (sys_disk z) k c \<Longrightarrow> readable B s k c"
  shows "serial_map E X B (z\<lparr>sys_disk := s, sys_tasks := ts\<rparr>) (f(doc_did doc \<mapsto> doc))"
proof -
  have one: "size (filter_mset (task_saves i) (sys_tasks z)) \<le> 1" for i by (rule serial_mapD(4) [OF assms(1)])
  have none: "filter_mset (task_saves (doc_did doc)) ts = {#}" using one [of "doc_did doc"] assms(2) by simp
  have "task_ok E X B s (authentic E) t" if "t \<in># ts" for t
    using serial_mapD(2) [OF assms(1), of t] that assms(2) by (auto intro: task_ok_mono [OF _ assms(4)])
  moreover have "size (filter_mset (task_saves i) ts) \<le> 1" for i
    using one [of i] unfolding assms(2) by (rule size_filter_smaller)
  moreover have "fresh_at ts (sys_docs z) (f(doc_did doc \<mapsto> doc)) i" if "sys_log z = 0" for i
    using serial_mapD(5) [OF assms(1) that, of i] none assms(2)
    by (cases "i = doc_did doc") (auto simp: fresh_at_def)
  ultimately show ?thesis
    using assms(3) serial_map_held [OF assms(1,2)] by (simp add: serial_map_def)
qed

lemma run_write_serial:
  assumes laws: "blob_laws B" "snapshot_laws X" "blob_fail_laws B" "blake3_laws E"
    and z: "serial_map E X B z f" "sys_tasks z = add_mset (WriteBlob og doc) ts"
  shows "\<exists>g. serial_map E X B (run_task X B (WriteBlob og doc) (z\<lparr>sys_tasks := ts\<rparr>)) g"
proof (cases "to_bytes X doc")
  case (Inl e)
  from serial_map_failed [OF z serial_mapD(1) [OF z(1)], of og] show ?thesis
    using Inl by auto
next
  case (Inr b)
  obtain r s where i: "import_bytes B (sys_disk z) b Raw = (r, s)" by fastforce
  note keeps = import_keeps [OF laws(1,3) i]
  have f: "store_holds E X B s f" using store_holds_keep [OF serial_mapD(1) [OF z(1)]] keeps(1,2) by blast
  show ?thesis
  proof (cases r)
    case (Inl e)
    from serial_map_failed [OF z f keeps(1), of og] Inl Inr i show ?thesis by (cases z) auto
  next
    case (Inr h)
    have "authentic E doc" using serial_mapD(2) [OF z(1), of "WriteBlob og doc"] z(2) by simp
    from savable_bytes [OF authentic_savable [OF this laws(4)] laws(2) \<open>to_bytes X doc = Inr b\<close>]
    have fb: "from_bytes E X b = Inr doc" .
    have "serial_map E X B (z\<lparr>sys_disk := s, sys_tasks := add_mset (SetTag og doc h) ts\<rparr>) f"
      by (rule serial_map_write [OF z f keeps(1) keeps(3) [OF Inr] fb])
    with Inr \<open>to_bytes X doc = Inr b\<close> i show ?thesis by (cases z) (auto simp: add_task_def)
  qed
qed

lemma run_tag_serial:
  assumes laws: "blob_laws B" "blob_fail_laws B" "blake3_laws E"
    and z: "serial_map E X B z f" "sys_tasks z = add_mset (SetTag og doc h) ts"
  shows "\<exists>g. serial_map E X B (run_task X B (SetTag og doc h) (z\<lparr>sys_tasks := ts\<rparr>)) g"
proof -
  let ?v = "\<lparr>hf_hash = h, hf_format = Raw\<rparr>" and ?t = "did_tag (did_as_str (doc_did doc))"
  obtain r s where t: "set_tag B (sys_disk z) ?t (Some ?v) = (r, s)" by fastforce
  note keeps = set_tag_keeps [OF laws(1,2) t] and f = serial_mapD(1) [OF z(1)]
  obtain b where doc: "authentic E doc" "readable B (sys_disk z) h b" "from_bytes E X b = Inr doc"
    using serial_mapD(2) [OF z(1), of "SetTag og doc h"] z(2) by auto
  have wf: "did_wf (doc_did doc)" using authentic_savable [OF doc(1) laws(3)] by (simp add: savable_def)
  have moved: "store_holds E X B s (f(doc_did doc \<mapsto> doc))"
    if "\<forall>m. tags_are B (sys_disk z) m \<longrightarrow> tags_are B s (m(?t \<mapsto> ?v))"
    by (rule store_holds_tag [OF f wf keeps(1) [OF doc(2)] doc(3) keeps(1)]) (use that in auto)
  have kept: "store_holds E X B s f" if "\<forall>m. tags_are B (sys_disk z) m \<longrightarrow> tags_are B s m"
    using store_holds_keep [OF f keeps(1)] that by blast
  show ?thesis
  proof (cases r)
    case (Inl e)
    from keeps(2) moved kept obtain g where "store_holds E X B s g" by blast
    from serial_map_failed [OF z this keeps(1), of og] Inl t show ?thesis by (cases z) (auto simp: save_failed_def)
  next
    case (Inr u)
    with keeps(2) moved have "store_holds E X B s (f(doc_did doc \<mapsto> doc))" by blast
    from serial_map_tag [OF z this keeps(1)] Inr t show ?thesis by (cases z) auto
  qed
qed

lemma run_task_serial:
  assumes laws: "blob_laws B" "snapshot_laws X" "blob_fail_laws B" "blake3_laws E"
    and z: "serial E X B z" "t \<in># sys_tasks z" "one_save_each z t"
  shows "serial E X B (run_task X B t (z\<lparr>sys_tasks := sys_tasks z - {#t#}\<rparr>))"
proof -
  obtain f where f: "serial_map E X B z f" and ok: "store_ok E (sys_docs z)" using z(1) by (auto simp: serial_def)
  obtain ts where ts: "sys_tasks z = add_mset t ts" using multi_member_split [OF z(2)] by blast
  have "\<exists>g. serial_map E X B (run_task X B t (z\<lparr>sys_tasks := ts\<rparr>)) g"
  proof (cases t)
    case (TakeSnapshot og i)
    obtain doc where doc: "fmlookup (sys_docs z) i = Some doc"
      using serial_mapD(3) [OF f, of og i] z(2) TakeSnapshot by auto
    have "serial_map E X B (z\<lparr>sys_tasks := add_mset (WriteBlob og doc) ts\<rparr>) f"
      by (rule serial_map_snapshot [OF f ok _ doc]) (use ts z(3) TakeSnapshot in auto)
    with doc TakeSnapshot show ?thesis by (auto simp: add_task_def)
  next
    case (WriteBlob og doc)
    with run_write_serial [OF laws f] ts show ?thesis by simp
  next
    case (SetTag og doc h)
    with run_tag_serial [OF laws(1,3,4) f] ts show ?thesis by simp
  qed
  with z(1) ts show ?thesis by (simp add: serial_def)
qed

lemma put_all_other: "i \<notin> doc_did ` set ds \<Longrightarrow> put_all ds f i = f i"
  by (induction ds arbitrary: f) auto

lemma put_all_held: "f i \<noteq> None \<or> i \<in> doc_did ` set ds \<Longrightarrow> put_all ds f i \<noteq> None"
  by (induction ds arbitrary: f) auto

lemma event_serial:
  assumes z: "serial E X B z" and s: "serve decode dbg E X ev (sys_app z) = (r, es, st)"
  shows "serial E X B (z\<lparr>sys_app := st, sys_tasks := sys_tasks z + begin_saves ev (persisted es)\<rparr>)"
proof -
  let ?ts = "begin_saves ev (persisted es)"
  obtain f where f: "serial_map E X B z f" "store_ok E (sys_docs z)" "ln_persistent (as_node (sys_app z))"
    using z by (auto simp: serial_def)
  have docs: "fmlookup (as_docs st) = put_all (persisted es) (fmlookup (sys_docs z))" "store_ok E (as_docs st)"
    "ln_persistent (as_node st)"
    using serve_durable [OF s] f(2,3) by (simp_all add: durable_def)
  have none: "filter_mset (task_saves i) ?ts = {#}" for i by (auto simp: begin_saves_def)
  have new: "(\<exists>og. TakeSnapshot og i \<in># ?ts) \<longleftrightarrow> i \<in> doc_did ` set (persisted es)" for i
    by (auto simp: begin_saves_def)
  have "fresh_at (sys_tasks z + ?ts) (as_docs st) f i" if "sys_log z = 0" for i
  proof (cases "i \<in> doc_did ` set (persisted es)")
    case True
    with new show ?thesis by (auto simp: fresh_at_def)
  next
    case False
    with serial_mapD(5) [OF f(1) that, of i] none show ?thesis
      by (simp add: fresh_at_def docs(1) put_all_other del: filter_mset_eq_mempty_iff) blast
  qed
  moreover have "fmlookup (as_docs st) i \<noteq> None" if "TakeSnapshot og i \<in># sys_tasks z + ?ts" for og i
    using that serial_mapD(3) [OF f(1), of og i] new [of i] put_all_held [of "fmlookup (sys_docs z)" i "persisted es"]
    by (auto simp: docs(1))
  moreover have "task_ok E X B (sys_disk z) (authentic E) t" if "t \<in># sys_tasks z + ?ts" for t
    using that serial_mapD(2) [OF f(1), of t] by (auto dest: begin_saves_snapshot)
  moreover have "size (filter_mset (task_saves i) (sys_tasks z + ?ts)) \<le> 1" for i
    using serial_mapD(4) [OF f(1), of i] by (simp add: none del: filter_mset_eq_mempty_iff)
  ultimately have "serial_map E X B (z\<lparr>sys_app := st, sys_tasks := sys_tasks z + ?ts\<rparr>) f"
    using serial_mapD(1) [OF f(1)] by (simp add: serial_map_def)
  with docs(2,3) show ?thesis by (auto simp: serial_def)
qed

lemma policy_serial: "serial E X B (with_policy g z) = serial E X B z"
  by (simp add: serial_def serial_map_def) (simp add: with_policy_def)

lemma sys_step_serial:
  assumes "blob_laws B" "snapshot_laws X" "blob_fail_laws B" "blake3_laws E"
    and step: "sys_step guard one_save_each decode dbg E X B z z'" and z: "serial E X B z"
  shows "serial E X B z'"
  using step
proof cases
  case (step_event ev r es st)
  with event_serial [OF z step_event(4)] show ?thesis by simp
next
  case (step_task t)
  with run_task_serial [OF assms(1-4) z step_task(2,3)] show ?thesis by simp
qed (use z in \<open>simp_all add: policy_serial\<close>)

interpretation serial: step_invariant "sys_step guard one_save_each decode dbg E X B"
    "\<lambda>z. disk_laws E X B \<and> serial E X B z"
  for guard decode dbg E X B
  by unfold_locales (auto simp: disk_laws_def intro: sys_step_serial)

section \<open>Properties\<close>

text \<open>
  C11: What is on disk is never ahead of memory, under any interleaving.  However the locked parts of
  requests and of the message loop, the steps of their saves and the failures of the blob store
  interleave, as long as no held identifier is created again: at every moment a restart recovers only
  authentic documents, each filed under its own identifier, whose history is a beginning of the
  history of the document in memory, and every document in memory is authentic.
\<close>

theorem disk_behind_memory:
  assumes "blob_laws B" "snapshot_laws X" "blob_fail_laws B" "blake3_laws E"
    "store_holds E X B s f" "\<forall>doc\<in>ran f. authentic E doc"
    "sys_run (no_recreation E) sched decode dbg E X B (boot E X B s dht full_replica timeout) z"
    "fmlookup (as_docs (start E X B (Some (sys_disk z)) dht' full_replica' timeout')) i = Some d"
  shows "authentic E d \<and> doc_did d = i \<and> store_ok E (sys_docs z) \<and>
    (\<exists>doc. fmlookup (sys_docs z) i = Some doc \<and> prefix (doc_delta_log d) (doc_delta_log doc))"
proof -
  have "behind E X B z"
    using disk_behind.run_inv [OF assms(7)] boot_behind [OF assms(5,6)] assms(1-4) by (simp add: disk_laws_def)
  then obtain g where g: "store_holds E X B (sys_disk z) g" "\<forall>d\<in>ran g. earlier E (sys_docs z) d"
    and ok: "store_ok E (sys_docs z)"
    by (auto simp: behind_def saves_ok_def)
  have "g i = Some d" using assms(8) start_docs [OF g(1)] by simp
  with g(2) store_holds_did [OF g(1)] ok show ?thesis by (auto simp: earlier_def ran_def)
qed

text \<open>The two steps of a save with nothing in between are \<open>BlobStore::save\<close>.\<close>

lemma save_task_run:
  assumes "save X B (sys_disk z) doc = (Inr h, s)" "sys_tasks z = add_mset (WriteBlob og doc) ts"
    "\<And>y t. task_doc t \<noteq> None \<Longrightarrow> sched y t"
  shows "sys_run guard sched decode dbg E X B z (z\<lparr>sys_disk := s, sys_tasks := ts\<rparr>)"
proof -
  obtain b s1 where b: "to_bytes X doc = Inr b" "import_bytes B (sys_disk z) b Raw = (Inr h, s1)"
    "set_tag B s1 (did_tag (did_as_str (doc_did doc))) (Some \<lparr>hf_hash = h, hf_format = Raw\<rparr>) = (Inr (), s)"
    using assms(1) by (auto simp: save_def split: sum.splits prod.splits)
  let ?z1 = "z\<lparr>sys_disk := s1, sys_tasks := add_mset (SetTag og doc h) ts\<rparr>"
  have "sys_step guard sched decode dbg E X B z ?z1"
    using step_task [of "WriteBlob og doc" z sched guard decode dbg E X B] b(1,2) assms(3)
    by (simp add: assms(2) add_task_def)
  moreover have "sys_step guard sched decode dbg E X B ?z1 (z\<lparr>sys_disk := s, sys_tasks := ts\<rparr>)"
    using step_task [of "SetTag og doc h" ?z1 sched guard decode dbg E X B] b(3) assms(3) by (cases z) simp
  ultimately show ?thesis by (meson converse_rtranclp_into_rtranclp r_into_rtranclp)
qed

lemma snapshot_step:
  assumes "fmlookup (sys_docs z) i = Some doc" "sys_tasks z = add_mset (TakeSnapshot og i) ts" "sched z (TakeSnapshot og i)"
  shows "sys_step guard sched decode dbg E X B z (z\<lparr>sys_tasks := add_mset (WriteBlob og doc) ts\<rparr>)"
  using step_task [of "TakeSnapshot og i" z sched guard decode dbg E X B] assms by (simp add: add_task_def)

lemma serve_persisted:
  assumes "serve decode dbg E X ev st = (r, es, st')" "store_ok E (as_docs st)" "ln_persistent (as_node st)"
    "persisted es = [doc]"
  shows "fmlookup (as_docs st') (doc_did doc) = Some doc" "authentic E doc" "ln_persistent (as_node st')"
  using serve_durable [OF assms(1)] assms(2-) by (simp_all add: durable_def)

text \<open>A request with nothing else running: its snapshot is taken and saved.\<close>

lemma request_run:
  assumes "serve decode dbg E X ev (sys_app z) = (r, es, st)" "store_ok E (sys_docs z)"
    "ln_persistent (as_node (sys_app z))" "persisted es = [doc]" "\<not> waits ev" "guard (sys_app z) ev" "sys_tasks z = {#}"
    "save X B (sys_disk z) doc = (Inr h, s)" "\<And>y t. task_doc t \<noteq> None \<Longrightarrow> sched y t"
    "\<And>y og i. sys_tasks y = {#TakeSnapshot og i#} \<Longrightarrow> sched y (TakeSnapshot og i)"
  shows "sys_run guard sched decode dbg E X B z (z\<lparr>sys_app := st, sys_disk := s\<rparr>)"
proof -
  let ?z1 = "z\<lparr>sys_app := st, sys_tasks := {#TakeSnapshot (event_origin ev) (doc_did doc)#}\<rparr>"
  let ?z2 = "z\<lparr>sys_app := st, sys_tasks := {#WriteBlob (event_origin ev) doc#}\<rparr>"
  have "sys_step guard sched decode dbg E X B z ?z1"
    using step_event [of ev z guard decode dbg E X r es st sched B] assms by (simp add: may_begin_def begin_saves_def)
  moreover have "sys_step guard sched decode dbg E X B ?z1 ?z2"
    using snapshot_step [of ?z1 "doc_did doc" doc "event_origin ev" "{#}" sched guard decode dbg E X B]
      serve_persisted(1) [OF assms(1-4)] assms(10) by simp
  moreover have "sys_run guard sched decode dbg E X B ?z2 (z\<lparr>sys_app := st, sys_disk := s\<rparr>)"
    using save_task_run [of X B ?z2 doc h s "event_origin ev" "{#}" sched guard decode dbg E] assms(7-9) by (cases z) simp
  ultimately show ?thesis by (meson converse_rtranclp_into_rtranclp)
qed

text \<open>
  C37: Concurrent saves can lose an accepted change on disk.  When two handlers change one document
  one after the other, there is an interleaving of their saves, all of them successful and with
  nothing in the log, after which no task is left, memory holds the second document, and a restart
  recovers the first one.
\<close>

theorem concurrent_saves_lose_update:
  fixes ev1 ev2 :: "'p event"
  assumes "blob_laws B" "snapshot_laws X" "blake3_laws E" "store_holds E X B (sys_disk z) f"
    "store_ok E (sys_docs z)" "ln_persistent (as_node (sys_app z))" "sys_tasks z = {#}"
    "serve decode dbg E X ev1 (sys_app z) = (r1, es1, st1)" "persisted es1 = [doc1]" "\<not> waits ev1"
    "serve decode dbg E X ev2 st1 = (r2, es2, st2)" "persisted es2 = [doc2]" "\<not> waits ev2"
    "event_origin ev2 = FromHandler" "doc_did doc2 = doc_did doc1"
    "save X B (sys_disk z) doc2 = (Inr h2, s2)" "save X B s2 doc1 = (Inr h1, s1)"
  shows "\<exists>z'. sys_run (any_request :: app_state \<Rightarrow> 'p event \<Rightarrow> bool) any_order decode dbg E X B z z' \<and> sys_tasks z' = {#} \<and> sys_log z' = sys_log z \<and>
    fmlookup (sys_docs z') (doc_did doc1) = Some doc2 \<and>
    fmlookup (as_docs (start E X B (Some (sys_disk z')) dht full_replica timeout)) (doc_did doc1) = Some doc1"
proof -
  let ?step = "sys_step (any_request :: app_state \<Rightarrow> 'p event \<Rightarrow> bool) any_order decode dbg E X B" and ?i = "doc_did doc1" and ?og = "event_origin ev1"
  note m1 = serve_persisted [OF assms(8,5,6,9)]
  note m2 = serve_persisted [OF assms(11) serve_store_ok [OF assms(8,5)] m1(3) assms(12)]
  let ?z1 = "z\<lparr>sys_app := st1, sys_tasks := {#TakeSnapshot ?og ?i#}\<rparr>"
  let ?z2 = "z\<lparr>sys_app := st1, sys_tasks := {#WriteBlob ?og doc1#}\<rparr>"
  let ?z3 = "z\<lparr>sys_app := st2, sys_tasks := {#TakeSnapshot FromHandler ?i, WriteBlob ?og doc1#}\<rparr>"
  let ?z4 = "z\<lparr>sys_app := st2, sys_tasks := {#WriteBlob FromHandler doc2, WriteBlob ?og doc1#}\<rparr>"
  let ?z5 = "z\<lparr>sys_app := st2, sys_disk := s2, sys_tasks := {#WriteBlob ?og doc1#}\<rparr>"
  let ?z6 = "z\<lparr>sys_app := st2, sys_disk := s1, sys_tasks := {#}\<rparr>"
  have "?step z ?z1"
    using step_event [of ev1 z any_request decode dbg E X r1 es1 st1 any_order B] assms(7-10)
    by (simp add: may_begin_def begin_saves_def any_request_def)
  moreover have "?step ?z1 ?z2"
    using snapshot_step [of ?z1 ?i doc1 ?og "{#}" any_order "any_request :: app_state \<Rightarrow> 'p event \<Rightarrow> bool" decode dbg E X B] m1(1) by (simp add: any_order_def)
  moreover have "?step ?z2 ?z3"
    using step_event [of ev2 ?z2 any_request decode dbg E X r2 es2 st2 any_order B] assms(11-15)
    by (simp add: may_begin_def begin_saves_def any_request_def add_mset_commute)
  moreover have "?step ?z3 ?z4"
    using snapshot_step [of ?z3 ?i doc2 FromHandler _ any_order "any_request :: app_state \<Rightarrow> 'p event \<Rightarrow> bool" decode dbg E X B] m2(1) assms(15) by (simp add: any_order_def)
  ultimately have "?step\<^sup>*\<^sup>* z ?z4" by (meson converse_rtranclp_into_rtranclp rtranclp.rtrancl_refl)
  moreover have "?step\<^sup>*\<^sup>* ?z4 ?z5"
    using save_task_run [of X B ?z4 doc2 h2 s2 FromHandler _ any_order "any_request :: app_state \<Rightarrow> 'p event \<Rightarrow> bool" decode dbg E] assms(16) by (simp add: any_order_def)
  moreover have "?step\<^sup>*\<^sup>* ?z5 ?z6"
    using save_task_run [of X B ?z5 doc1 h1 s1 ?og _ any_order "any_request :: app_state \<Rightarrow> 'p event \<Rightarrow> bool" decode dbg E] assms(17) by (simp add: any_order_def)
  ultimately have run: "?step\<^sup>*\<^sup>* z ?z6" by (meson rtranclp_trans)
  have "store_holds E X B s2 (f(?i \<mapsto> doc2))"
    using save_holds(1) [OF assms(1,2) authentic_savable [OF m2(2) assms(3)] assms(4,16)] assms(15) by simp
  from save_holds(1) [OF assms(1,2) authentic_savable [OF m1(2) assms(3)] this assms(17)]
  have "store_holds E X B s1 (f(?i \<mapsto> doc1))" by simp
  from start_docs [OF this, of dht full_replica timeout] run m2(1) assms(15) show ?thesis
    by (intro exI [of _ ?z6]) simp
qed

lemma boot_serial:
  assumes "store_holds E X B s f" "\<forall>doc\<in>ran f. authentic E doc"
  shows "serial E X B (boot E X B s dht full_replica timeout)"
proof -
  have "store_ok E (sys_docs (boot E X B s dht full_replica timeout))"
    using boot_behind [OF assms] by (simp add: behind_def)
  with start_docs [OF assms(1)] assms(1) show ?thesis
    by (auto simp: serial_def serial_map_def boot_def fresh_at_def) (auto simp: start_def)
qed

text \<open>Steps that the tasks in flight have before them.\<close>

fun steps_left :: "task \<Rightarrow> nat" where
  "steps_left (TakeSnapshot og i) = 3"
| "steps_left (WriteBlob og doc) = 2"
| "steps_left (SetTag og doc h) = 1"

definition work_left :: "'s system \<Rightarrow> nat" where
  "work_left z = (\<Sum>t\<in>#sys_tasks z. steps_left t)"

lemma run_task_work:
  "work_left (run_task X B t z) < steps_left t + work_left z"
  by (cases t) (auto simp: work_left_def split: option.splits sum.splits prod.splits)

lemma eligible_task:
  assumes "sys_tasks z \<noteq> {#}"
  shows "\<exists>t. t \<in># sys_tasks z \<and> one_save_each z t"
proof (cases "\<exists>t\<in>#sys_tasks z. \<exists>doc. task_doc t = Some doc")
  case True
  then obtain t doc where t: "t \<in># sys_tasks z" "task_doc t = Some doc" by blast
  then have "one_save_each z t" by (cases t) auto
  with t show ?thesis by blast
next
  case False
  obtain t where t: "t \<in># sys_tasks z" using assms by blast
  have "\<not> task_saves i t'" if "t' \<in># sys_tasks z" for i t' using False that task_saves_doc by blast
  with t have "one_save_each z t" by (cases t) auto
  with t show ?thesis by blast
qed

lemma tasks_drain:
  "\<exists>z'. sys_run guard one_save_each decode dbg E X B z z' \<and> sys_tasks z' = {#} \<and> sys_app z' = sys_app z"
proof (induction "work_left z" arbitrary: z rule: less_induct)
  case less
  show ?case
  proof (cases "sys_tasks z = {#}")
    case False
    then obtain t where t: "t \<in># sys_tasks z" "one_save_each z t" using eligible_task by blast
    let ?z = "run_task X B t (z\<lparr>sys_tasks := sys_tasks z - {#t#}\<rparr>)"
    have "work_left ?z < work_left z"
      using run_task_work [of X B t "z\<lparr>sys_tasks := sys_tasks z - {#t#}\<rparr>"] t(1)
      by (auto simp: work_left_def dest!: multi_member_split)
    then obtain z' where "sys_run guard one_save_each decode dbg E X B ?z z'" "sys_tasks z' = {#}" "sys_app z' = sys_app z"
      using less by fastforce
    with step_task [where sched = one_save_each, OF t, of guard decode dbg E X B] show ?thesis
      by (meson converse_rtranclp_into_rtranclp)
  qed auto
qed

text \<open>
  C12: Saves of one identifier that do not overlap make the store durable.  When a snapshot of an
  identifier is taken only after the previous one of that identifier has been written, then in every
  interleaving, whatever requests arrive and whatever other identifiers do, the tasks can be run to
  the end, and once none is left and no failure is in the log, a restart recovers exactly the
  documents in memory.
\<close>

theorem serial_saves_durable:
  assumes "blob_laws B" "snapshot_laws X" "blob_fail_laws B" "blake3_laws E"
    "store_holds E X B s f" "\<forall>doc\<in>ran f. authentic E doc"
    "sys_run guard one_save_each decode dbg E X B (boot E X B s dht full_replica timeout) z"
  shows "(\<exists>z'. sys_run guard one_save_each decode dbg E X B z z' \<and> sys_tasks z' = {#} \<and> sys_docs z' = sys_docs z) \<and>
    (sys_tasks z = {#} \<and> sys_log z = 0 \<longrightarrow>
       as_docs (start E X B (Some (sys_disk z)) dht' full_replica' timeout') = sys_docs z)"
proof -
  have "serial E X B z"
    using serial.run_inv [OF assms(7)] boot_serial [OF assms(5,6)] assms(1-4) by (simp add: disk_laws_def)
  then obtain g where g: "serial_map E X B z g" by (auto simp: serial_def)
  have "as_docs (start E X B (Some (sys_disk z)) dht' full_replica' timeout') = sys_docs z"
    if "sys_tasks z = {#}" "sys_log z = 0"
  proof (rule fmap_ext)
    fix i
    have "g i = fmlookup (sys_docs z) i" using serial_mapD(5) [OF g that(2), of i] that(1) by (simp add: fresh_at_def)
    with start_docs [OF serial_mapD(1) [OF g]]
    show "fmlookup (as_docs (start E X B (Some (sys_disk z)) dht' full_replica' timeout')) i = fmlookup (sys_docs z) i"
      by simp
  qed
  moreover obtain z' where "sys_run guard one_save_each decode dbg E X B z z'" "sys_tasks z' = {#}" "sys_app z' = sys_app z"
    using tasks_drain by blast
  ultimately show ?thesis by auto
qed

text \<open>
  The shape of a document: a well-formed identifier that derives from the key of its first delta, and
  after that deltas for this identifier that are within the size limit, in a recognised form, with
  canonical and non-empty predecessors, none of them twice.
\<close>

definition well_formed_doc :: "externs \<Rightarrow> did \<Rightarrow> document \<Rightarrow> bool" where
  "well_formed_doc E i doc \<longleftrightarrow> did_wf i \<and> doc_did doc = i \<and>
     (case doc_delta_log doc of
        [] \<Rightarrow> False
      | g # ds \<Rightarrow> sd_did g = i \<and> sd_parents g = [] \<and>
          (case sd_op g of AddVerificationMethod _ pk _ _ \<Rightarrow> derive_did E pk = Inr i | _ \<Rightarrow> False) \<and>
          list_all (\<lambda>d. well_shaped E i d \<and> sd_parents d \<noteq> []) ds) \<and>
     distinct (map (delta_id E) (doc_delta_log doc))"

lemma authentic_genesis:
  "authentic E doc \<Longrightarrow> \<exists>g ds v pk u r. doc_delta_log doc = g # ds \<and> sd_did g = doc_did doc \<and> sd_parents g = [] \<and>
     sd_op g = AddVerificationMethod v pk u r \<and> derive_did E pk = Inr (doc_did doc)"
proof (induction rule: authentic.induct)
  case (auth_new pk doc creation)
  from doc_new_effect [OF this] show ?case
    by (auto simp: apply_delta_history) (simp_all add: doc_blank_def)
qed (auto simp: apply_delta_history)

lemma authentic_well_formed:
  assumes "authentic E doc" "crdts_laws E" "blake3_laws E"
  shows "well_formed_doc E (doc_did doc) doc"
proof -
  obtain g ds v pk u r where g: "doc_delta_log doc = g # ds" "sd_did g = doc_did doc" "sd_parents g = []"
    "sd_op g = AddVerificationMethod v pk u r" "derive_did E pk = Inr (doc_did doc)"
    using authentic_genesis [OF assms(1)] by blast
  moreover have "list_all (\<lambda>d. well_shaped E (doc_did doc) d \<and> sd_parents d \<noteq> []) ds"
    using op_reach_log [OF authentic_reach [OF assms(1)] assms(2)] g(1) by (auto simp: list_all_iff)
  moreover have "distinct (map (delta_id E) (doc_delta_log doc))" using doc_okD(2) [OF authentic_ok [OF assms(1)]] .
  moreover have "did_wf (doc_did doc)" by (rule derive_did_wf [OF assms(3) g(5)])
  ultimately show ?thesis by (simp add: well_formed_doc_def)
qed

text \<open>
  C13: The documents of a running service are well formed under every interleaving.  Whatever
  requests arrive and however the tasks interleave, each document that the service holds is filed
  under its own well-formed identifier, which derives from the key of its first delta, and consists
  of deltas of the shape that the service accepts.
\<close>

theorem documents_well_formed:
  assumes "crdts_laws E" "blake3_laws E" "store_ok E (sys_docs z)"
    "sys_run guard sched decode dbg E X B z z'" "fmlookup (sys_docs z') i = Some doc"
  shows "well_formed_doc E i doc"
proof -
  have "store_ok E (sys_docs z')"
    by (rule sound_docs.run_inv [OF assms(4,3)])
  with assms(5) have "authentic E doc" "doc_did doc = i" by (auto simp: store_ok_def dest: fmpredD)
  with authentic_well_formed [OF this(1) assms(1,2)] show ?thesis by simp
qed

section \<open>Example\<close>

text \<open>
  External functions with 32-byte hashes, a document and an accepted update of it, and a serialiser
  of both documents.
\<close>

definition svc_hex :: "bytes \<Rightarrow> string" where
  "svc_hex h = replicate 62 (CHR ''0'') @ [hex_digit (unat (last h) div 16), hex_digit (unat (last h) mod 16)]"

definition svc_externs :: externs where
  "svc_externs = ex_externs\<lparr>blake3 := (\<lambda>b. replicate 31 0 @ [rev b ! 2]), to_hex := svc_hex\<rparr>"

lemma svc_crdts_laws: "crdts_laws svc_externs"
  using ex_crdts_laws by (simp add: crdts_laws_def svc_externs_def)

lemma svc_blake3_laws: "blake3_laws svc_externs"
proof -
  have "unat w div 16 < 16 \<and> unat w mod 16 < 16" for w :: u8
    using unsigned_less [of w, where 'a = nat] by auto
  then show ?thesis by (simp add: blake3_laws_def svc_externs_def svc_hex_def hex_digit_ok list_all_iff is_ascii_hexdigit_def [of "CHR ''0''"])
qed

definition svc_id :: "nat \<Rightarrow> delta_hash" where
  "svc_id n = DeltaHash (replicate 62 (CHR ''0'') @ [hex_digit (n div 16), hex_digit (n mod 16)])"

lemma svc_delta_id: "delta_id svc_externs d = svc_id (unat (wall_ms (sd_timestamp d)) mod 256)"
  by (simp add: delta_id_def payload_value_def timestamp_value_def u64_value_def ex_externs_def svc_externs_def svc_id_def svc_hex_def
      str_bytes_def unat_of_nat)

definition svc_did :: did where
  "svc_did = from_creation_hash svc_externs (blake3 svc_externs (str_bytes ''ubbb''))"

lemma svc_derive: "derive_did svc_externs ''ubbb'' = Inr svc_did"
  by (simp add: derive_did_def svc_did_def) (simp add: svc_externs_def ex_externs_def ref_externs_def)

definition svc_creation :: signed_delta where
  "svc_creation = unsigned_delta svc_did
     (AddVerificationMethod (did_to_string svc_did @ ''#key-0'') ''ubbb'' suite_default default_relationships) hlc_default ''ubbb''"

definition svc_doc :: document where
  "svc_doc = apply_delta svc_externs (doc_blank svc_did (Some (wall_ms hlc_default))) svc_creation"

definition svc_update :: signed_delta where
  "svc_update = ex_update\<lparr>sd_did := svc_did, sd_timestamp := HlcTimestamp 5 0 0, sd_parents := [svc_id 0],
     sd_proof := (sd_proof ex_update)\<lparr>pr_verification_method := did_to_string svc_did @ ''#key-0''\<rparr>\<rparr>"

lemma svc_creation_simps [simp]:
  "sd_op svc_creation = AddVerificationMethod (did_to_string svc_did @ ''#key-0'') ''ubbb'' suite_default default_relationships"
  "sd_parents svc_creation = []" "sd_timestamp svc_creation = hlc_default" "sd_did svc_creation = svc_did"
  by (simp_all add: svc_creation_def unsigned_delta_def)

lemma svc_new: "doc_new svc_externs ''ubbb'' = Inr (svc_doc, svc_creation)"
  by (simp add: doc_new_def svc_derive Let_def dag_insert_put svc_doc_def apply_delta_def doc_simps svc_creation_def [symmetric])

lemma svc_doc_dag: "doc_dag svc_doc =
    \<lparr>dag_by_hash = fmupd (svc_id 0) svc_creation fmempty, dag_referenced = {||}, dag_frontier = {|svc_id 0|}\<rparr>"
  by (simp add: svc_doc_def doc_simps doc_blank_def dag_put_def dag_insert_def dag_contains_def dag_new_def
      hlc_default_def svc_delta_id)

lemma svc_doc_vms: "doc_verification_methods svc_doc =
    {|VerificationMethodEntry (did_to_string svc_did @ ''#key-0'') ''ubbb'' suite_default default_relationships|}"
  by (simp add: svc_doc_def apply_delta_def apply_op_def vm_insert_def crdts_simps [OF svc_crdts_laws]
      doc_blank_def vm_new_def)

lemma svc_externs_simps:
  "decode_multibase_u svc_externs (CHR ''u'' # s) = Inr (str_bytes s)"
  "verify_suite svc_externs EcdsaSecp256k1Signature2019 key input sig = (if sig = key then Inr () else Inl InvalidSignature)"
  "blake3 svc_externs b = replicate 31 0 @ [rev b ! 2]"
  "delta_to_vec svc_externs d = Some (str_bytes (pr_proof_value (sd_proof d)))"
  by (simp_all add: decode_multibase_u_def verify_suite_def svc_externs_def ex_externs_def ref_externs_def)

lemma svc_verify: "verify_signature svc_externs svc_update svc_doc = Inr ()"
  by (simp add: verify_signature_def svc_update_def ex_update_def signing_input_Inr svc_doc_vms vm_entries_def
      crdts_simps [OF svc_crdts_laws] sorted_list_of_fset.rep_eq node_id_from_pubkey_def str_bytes_def
      word_rcat_def svc_externs_simps numeral_eq_Suc)

lemma svc_causal: "verify_causal svc_update (doc_dag svc_doc) = Valid"
  by (simp add: svc_doc_dag verify_causal_def scan_closure_def svc_update_def ex_update_def push_parents_def note_op_def)

lemma svc_merge: "merge svc_externs svc_doc svc_update = (Inr (), apply_delta svc_externs svc_doc svc_update)"
proof (rule merge_applied)
  have id: "svc_id 5 \<noteq> svc_id 0" by (simp add: svc_id_def hex_digit_def)
  then show "\<not> dag_contains (doc_dag svc_doc) (delta_id svc_externs svc_update)"
    by (simp add: svc_doc_dag dag_contains_def svc_delta_id svc_update_def ex_update_def)
  note svc_causal
  moreover have "op_reach svc_externs svc_doc" by (rule op_new [OF svc_new])
  moreover have "doc_did svc_doc = svc_did" by (simp add: svc_doc_def apply_delta_history) (simp add: doc_blank_def)
  ultimately show "admissible svc_externs svc_doc svc_update"
    by (simp add: admissible_iff [OF _ svc_crdts_laws] well_shaped_def svc_update_def ex_update_def recognise_op_def MAX_DELTA_SIZE_def
        svc_externs_simps str_bytes_def)
qed

abbreviation svc_doc' :: document where
  "svc_doc' \<equiv> apply_delta svc_externs svc_doc svc_update"

definition svc_snapshots :: snapshots where
  "svc_snapshots = \<lparr>doc_to_vec = (\<lambda>r. if r = to_repr svc_doc then Some [0] else if r = to_repr svc_doc' then Some [1] else None),
     doc_from_slice = (\<lambda>b. Some (to_repr (if b = [0] then svc_doc else svc_doc')))\<rparr>"

lemma svc_snapshot_laws: "snapshot_laws svc_snapshots"
  by (auto simp: snapshot_laws_def svc_snapshots_def split: if_splits)

lemma ex_blob_fail_laws: "blob_fail_laws ex_blobs"
  by (simp add: blob_fail_laws_def ex_blobs_def)

lemma svc_save:
  "\<exists>h s'. save svc_snapshots ex_blobs s svc_doc = (Inr h, s')" "\<exists>h s'. save svc_snapshots ex_blobs s svc_doc' = (Inr h, s')"
  by (simp_all add: save_def to_bytes_def svc_snapshots_def ex_blobs_def)

lemma svc_disk: "store_holds svc_externs svc_snapshots ex_blobs ex_disk Map.empty"
  by (simp add: store_holds_def ex_blobs_simps pinned_as_def)

definition svc_boot :: "ex_mem system" where
  "svc_boot = boot svc_externs svc_snapshots ex_blobs ex_disk False False 1500"

lemma svc_boot_simps:
  "fmlookup (sys_docs svc_boot) i = None" "ln_persistent (as_node (sys_app svc_boot))" "sys_tasks svc_boot = {#}"
  "sys_disk svc_boot = ex_disk" "sys_log svc_boot = 0"
  using start_docs [OF svc_disk, of False False 1500] by (simp_all add: svc_boot_def boot_def start_def)

abbreviation svc_create :: "unit event" where
  "svc_create \<equiv> PostDids ''ubbb''"

abbreviation svc_submit :: "unit event" where
  "svc_submit \<equiv> PostDelta (did_to_string svc_did) svc_update"

lemma svc_doc_did: "doc_did svc_doc = svc_did" "doc_did svc_doc' = svc_did"
  by (simp_all add: apply_delta_history svc_doc_def) (simp_all add: doc_blank_def)

text \<open>Both requests are answered with success and hand over their document.\<close>

lemma svc_created:
  "\<exists>r es. serve (\<lambda>_. None) id svc_externs svc_snapshots svc_create (sys_app svc_boot) =
      (r, es, put_docs (sys_app svc_boot) (fmupd svc_did svc_doc (sys_docs svc_boot))) \<and> persisted es = [svc_doc]"
proof -
  obtain rr where "resolve svc_externs svc_doc = Inr rr"
    by (simp add: resolve_def Let_def svc_externs_def ex_externs_def ref_externs_def)
  then show ?thesis by (simp add: create_did_def svc_new Let_def svc_boot_simps svc_doc_did)
qed

lemma svc_submitted:
  assumes "fmlookup (as_docs st) svc_did = Some svc_doc" "ln_persistent (as_node st)"
  shows "\<exists>r es. serve (\<lambda>_. None) id svc_externs svc_snapshots svc_submit st =
      (r, es, put_docs st (fmupd svc_did svc_doc' (as_docs st))) \<and> persisted es = [svc_doc']"
proof -
  have did: "sd_did svc_update = svc_did" by (simp add: svc_update_def)
  have gates: "passed_gates svc_externs st (did_to_string svc_did) svc_update svc_doc"
    using assms(1) svc_verify
    by (simp add: passed_gates_def did oversized_def svc_externs_simps doc_missing_parents_def svc_causal)
      (simp add: svc_update_def ex_update_def str_bytes_def MAX_DELTA_SIZE_def)
  then show ?thesis
    using svc_merge assms(2) by (simp add: submit_delta_def passed_gates_def did Let_def)
qed

text \<open>The service after the creation has been saved.\<close>

definition svc_store :: ex_mem where
  "svc_store = snd (save svc_snapshots ex_blobs ex_disk svc_doc)"

definition svc_one :: "ex_mem system" where
  "svc_one = svc_boot\<lparr>sys_app := put_docs (sys_app svc_boot) (fmupd svc_did svc_doc (sys_docs svc_boot)), sys_disk := svc_store\<rparr>"

lemma svc_one_run:
  assumes "guard (sys_app svc_boot) svc_create" "\<And>y t. task_doc t \<noteq> None \<Longrightarrow> sched y t"
    "\<And>y og i. sys_tasks y = {#TakeSnapshot og i#} \<Longrightarrow> sched y (TakeSnapshot og i)"
  shows "sys_run guard sched (\<lambda>_. None) id svc_externs svc_snapshots ex_blobs svc_boot svc_one"
proof -
  obtain r es where s: "serve (\<lambda>_. None) id svc_externs svc_snapshots svc_create (sys_app svc_boot) =
      (r, es, put_docs (sys_app svc_boot) (fmupd svc_did svc_doc (sys_docs svc_boot)))" "persisted es = [svc_doc]"
    using svc_created by blast
  obtain h where "save svc_snapshots ex_blobs (sys_disk svc_boot) svc_doc = (Inr h, svc_store)"
    using svc_save(1) [of ex_disk] by (auto simp: svc_store_def svc_boot_simps)
  moreover have "store_ok svc_externs (sys_docs svc_boot)" by (auto simp: store_ok_def svc_boot_simps)
  ultimately show ?thesis
    unfolding svc_one_def using s svc_boot_simps(2,3) assms by (intro request_run [where guard = guard]) auto
qed

lemma svc_one_restart:
  "fmlookup (as_docs (start svc_externs svc_snapshots ex_blobs (Some svc_store) dht full_replica timeout)) svc_did = Some svc_doc"
proof -
  obtain h where h: "save svc_snapshots ex_blobs ex_disk svc_doc = (Inr h, svc_store)"
    using svc_save(1) [of ex_disk] by (auto simp: svc_store_def)
  have "savable svc_externs svc_doc" by (rule authentic_savable [OF auth_new [OF svc_new] svc_blake3_laws])
  from save_holds(1) [OF ex_blob_laws svc_snapshot_laws this svc_disk h] show ?thesis
    using start_docs svc_doc_did by fastforce
qed

text \<open>A moment at which the update is in memory and the disk is behind.\<close>

theorem disk_behind_memory_witness:
  "\<exists>z. sys_run (no_recreation svc_externs :: app_state \<Rightarrow> unit event \<Rightarrow> bool) any_order (\<lambda>_. None) id svc_externs
       svc_snapshots ex_blobs svc_boot z \<and>
     fmlookup (as_docs (start svc_externs svc_snapshots ex_blobs (Some (sys_disk z)) False False 1500)) svc_did = Some svc_doc \<and>
     fmlookup (sys_docs z) svc_did = Some svc_doc' \<and> prefix (doc_delta_log svc_doc) (doc_delta_log svc_doc')"
proof -
  let ?g = "no_recreation svc_externs :: app_state \<Rightarrow> unit event \<Rightarrow> bool"
  have one: "sys_run ?g any_order (\<lambda>_. None) id svc_externs svc_snapshots ex_blobs svc_boot svc_one"
    by (rule svc_one_run) (simp_all add: no_recreation_def svc_new svc_boot_simps any_order_def)
  have held: "fmlookup (sys_docs svc_one) svc_did = Some svc_doc" "ln_persistent (as_node (sys_app svc_one))" "sys_tasks svc_one = {#}"
    by (simp_all add: svc_one_def svc_boot_simps)
  obtain r es where s: "serve (\<lambda>_. None) id svc_externs svc_snapshots svc_submit (sys_app svc_one) =
      (r, es, put_docs (sys_app svc_one) (fmupd svc_did svc_doc' (sys_docs svc_one)))" "persisted es = [svc_doc']"
    using svc_submitted [OF held(1,2)] by blast
  define z where "z = svc_one\<lparr>sys_app := put_docs (sys_app svc_one) (fmupd svc_did svc_doc' (sys_docs svc_one)),
    sys_tasks := sys_tasks svc_one + begin_saves svc_submit (persisted es)\<rparr>"
  have "sys_step ?g any_order (\<lambda>_. None) id svc_externs svc_snapshots ex_blobs svc_one z"
    unfolding z_def by (rule step_event [OF _ _ s(1)]) (simp_all add: may_begin_def no_recreation_def)
  with one have run: "sys_run ?g any_order (\<lambda>_. None) id svc_externs svc_snapshots ex_blobs svc_boot z" by simp
  have disk: "fmlookup (as_docs (start svc_externs svc_snapshots ex_blobs (Some (sys_disk z)) False False 1500)) svc_did = Some svc_doc"
    using svc_one_restart by (simp add: z_def svc_one_def)
  have "\<exists>doc. fmlookup (sys_docs z) svc_did = Some doc \<and> prefix (doc_delta_log svc_doc) (doc_delta_log doc)"
    using disk_behind_memory [OF ex_blob_laws svc_snapshot_laws ex_blob_fail_laws svc_blake3_laws svc_disk _ run [unfolded svc_boot_def] disk]
    by simp
  with run disk show ?thesis by (intro exI [of _ z]) (auto simp: z_def)
qed

theorem serial_saves_durable_witness:
  "sys_run (any_request :: app_state \<Rightarrow> unit event \<Rightarrow> bool) one_save_each (\<lambda>_. None) id svc_externs svc_snapshots ex_blobs
     svc_boot svc_one \<and>
   as_docs (start svc_externs svc_snapshots ex_blobs (Some (sys_disk svc_one)) False False 1500) = sys_docs svc_one \<and>
   fmlookup (sys_docs svc_one) svc_did = Some svc_doc"
proof -
  have sched: "one_save_each y t" if "task_doc t \<noteq> None" for y :: "ex_mem system" and t
    using that by (cases t) simp_all
  have run: "sys_run (any_request :: app_state \<Rightarrow> unit event \<Rightarrow> bool) one_save_each (\<lambda>_. None) id svc_externs svc_snapshots
      ex_blobs svc_boot svc_one"
    by (rule svc_one_run) (simp_all add: any_request_def sched)
  with serial_saves_durable [OF ex_blob_laws svc_snapshot_laws ex_blob_fail_laws svc_blake3_laws svc_disk _ run [unfolded svc_boot_def],
      of False False 1500]
  show ?thesis by (simp add: svc_one_def svc_boot_simps)
qed

theorem concurrent_saves_lose_update_witness:
  "\<exists>z. sys_run (any_request :: app_state \<Rightarrow> unit event \<Rightarrow> bool) any_order (\<lambda>_. None) id svc_externs svc_snapshots ex_blobs
       svc_boot z \<and> sys_tasks z = {#} \<and> sys_log z = 0 \<and> fmlookup (sys_docs z) svc_did = Some svc_doc' \<and>
     fmlookup (as_docs (start svc_externs svc_snapshots ex_blobs (Some (sys_disk z)) False False 1500)) svc_did = Some svc_doc"
proof -
  let ?st = "put_docs (sys_app svc_boot) (fmupd svc_did svc_doc (sys_docs svc_boot))"
  obtain r1 es1 where s1: "serve (\<lambda>_. None) id svc_externs svc_snapshots svc_create (sys_app svc_boot) = (r1, es1, ?st)"
    "persisted es1 = [svc_doc]"
    using svc_created by blast
  obtain r2 es2 st2 where s2: "serve (\<lambda>_. None) id svc_externs svc_snapshots svc_submit ?st = (r2, es2, st2)" "persisted es2 = [svc_doc']"
    using svc_submitted [of ?st] by (auto simp: svc_boot_simps)
  obtain h2 d2 where d2: "save svc_snapshots ex_blobs (sys_disk svc_boot) svc_doc' = (Inr h2, d2)" using svc_save by blast
  obtain h1 d1 where d1: "save svc_snapshots ex_blobs d2 svc_doc = (Inr h1, d1)" using svc_save by blast
  have "store_ok svc_externs (sys_docs svc_boot)" by (auto simp: store_ok_def svc_boot_simps)
  from concurrent_saves_lose_update [OF ex_blob_laws svc_snapshot_laws svc_blake3_laws _ this svc_boot_simps(2,3) s1 _ s2 _ _ _ d2 d1,
      of Map.empty False False 1500] svc_disk
  show ?thesis by (simp add: svc_boot_simps svc_doc_did)
qed

theorem documents_well_formed_witness:
  "well_formed_doc svc_externs svc_did svc_doc"
proof -
  have ok: "store_ok svc_externs (sys_docs svc_boot)" by (auto simp: store_ok_def svc_boot_simps)
  have run: "sys_run (any_request :: app_state \<Rightarrow> unit event \<Rightarrow> bool) any_order (\<lambda>_. None) id svc_externs svc_snapshots
      ex_blobs svc_boot svc_one"
    by (rule svc_one_run) (simp_all add: any_request_def any_order_def)
  show ?thesis
    by (rule documents_well_formed [OF svc_crdts_laws svc_blake3_laws ok run]) (simp add: svc_one_def)
qed

end
