(* ===== verification/Metrics.thy ===== *)
theory Metrics
  imports Service
begin

text \<open>
  The metrics of the service (\<open>src/service/metrics.rs\<close>).  The prometheus registry is a parameter: its
  state holds the registered families and their values, and what the code relies on is that a
  registration of a new valid name succeeds, that a counter goes up by one where it is incremented
  and nowhere else, and that the other operations leave counters alone.  The handlers record their
  metrics as effects; here these effects are carried out on the registry.
\<close>

section \<open>The registry\<close>

text \<open>A metric family: its name, help text, label names and, for a histogram, its buckets.\<close>

record metric_desc =
  md_name :: string
  md_help :: string
  md_labels :: "string list"
  md_buckets :: "rat list"

text \<open>\<open>'g\<close> is the state of the registry and \<open>'f\<close> a floating-point number.\<close>

record ('g, 'f) prometheus =
  pr_empty :: 'g
  pr_register :: "'g \<Rightarrow> metric_desc \<Rightarrow> 'g option"
  pr_inc :: "'g \<Rightarrow> string \<Rightarrow> string list \<Rightarrow> 'g"
  pr_set :: "'g \<Rightarrow> string \<Rightarrow> string list \<Rightarrow> 64 word \<Rightarrow> 'g"
  pr_observe :: "'g \<Rightarrow> string \<Rightarrow> string list \<Rightarrow> 'f \<Rightarrow> 'g"
  pr_counter :: "'g \<Rightarrow> string \<Rightarrow> string list \<Rightarrow> u64"
  pr_names :: "'g \<Rightarrow> string fset"
  pr_encode_text :: "'g \<Rightarrow> bytes"

definition plain_name :: "string \<Rightarrow> bool" where
  "plain_name s \<longleftrightarrow> s \<noteq> [] \<and> list_all (\<lambda>c. c \<in> set ''abcdefghijklmnopqrstuvwxyz_'') s"

definition valid_desc :: "metric_desc \<Rightarrow> bool" where
  "valid_desc d \<longleftrightarrow> plain_name (md_name d) \<and> md_help d \<noteq> [] \<and> list_all plain_name (md_labels d) \<and>
     distinct (md_labels d) \<and> sorted_wrt (<) (md_buckets d)"

definition prom_laws :: "('g, 'f) prometheus \<Rightarrow> bool" where
  "prom_laws P \<longleftrightarrow>
     pr_names P (pr_empty P) = {||} \<and> (\<forall>m ls. pr_counter P (pr_empty P) m ls = 0) \<and>
     (\<forall>g d. valid_desc d \<and> md_name d |\<notin>| pr_names P g \<longrightarrow>
        (\<exists>g'. pr_register P g d = Some g' \<and> pr_names P g' = finsert (md_name d) (pr_names P g) \<and>
           (\<forall>m ls. pr_counter P g' m ls = pr_counter P g m ls))) \<and>
     (\<forall>g m ls m' ls'. pr_counter P (pr_inc P g m ls) m' ls' =
        (if m' = m \<and> ls' = ls then pr_counter P g m' ls' + 1 else pr_counter P g m' ls')) \<and>
     (\<forall>g m ls v m' ls'. pr_counter P (pr_set P g m ls v) m' ls' = pr_counter P g m' ls') \<and>
     (\<forall>g m ls x m' ls'. pr_counter P (pr_observe P g m ls x) m' ls' = pr_counter P g m' ls')"

lemma prom_lawsD:
  assumes "prom_laws P"
  shows "pr_names P (pr_empty P) = {||}" "pr_counter P (pr_empty P) m ls = 0"
    "valid_desc d \<Longrightarrow> md_name d |\<notin>| pr_names P g \<Longrightarrow>
       \<exists>g'. pr_register P g d = Some g' \<and> pr_names P g' = finsert (md_name d) (pr_names P g) \<and>
         (\<forall>m ls. pr_counter P g' m ls = pr_counter P g m ls)"
    "pr_counter P (pr_inc P g m ls) m' ls' =
       (if m' = m \<and> ls' = ls then pr_counter P g m' ls' + 1 else pr_counter P g m' ls')"
    "pr_counter P (pr_set P g m ls v) m' ls' = pr_counter P g m' ls'"
    "pr_counter P (pr_observe P g m ls x) m' ls' = pr_counter P g m' ls'"
  using assms unfolding prom_laws_def by simp_all

section \<open>The families\<close>

definition convergence_latency :: metric_desc where
  "convergence_latency = \<lparr>md_name = ''did_crdt_convergence_latency_seconds'',
     md_help = ''Time from delta creation to all-replica convergence'', md_labels = [''delta_field''],
     md_buckets = [1/1000, 1/100, 1/10, 1, 5, 10, 30]\<rparr>"

definition resolution_latency :: metric_desc where
  "resolution_latency = \<lparr>md_name = ''did_crdt_resolution_latency_seconds'',
     md_help = ''Time for a resolve() call'', md_labels = [''document_size_bucket''],
     md_buckets = [1/10000, 5/10000, 1/1000, 5/1000, 1/100, 5/100, 1/10]\<rparr>"

definition deltas_merged :: metric_desc where
  "deltas_merged = \<lparr>md_name = ''did_crdt_deltas_merged_total'',
     md_help = ''Total deltas merged, by outcome'', md_labels = [''outcome''], md_buckets = []\<rparr>"

definition delta_rejections :: metric_desc where
  "delta_rejections = \<lparr>md_name = ''did_crdt_delta_rejections_total'',
     md_help = ''Total deltas rejected, by reason'', md_labels = [''reason''], md_buckets = []\<rparr>"

definition peer_count :: metric_desc where
  "peer_count = \<lparr>md_name = ''did_crdt_peer_count'',
     md_help = ''Number of connected iroh-gossip peers'', md_labels = [], md_buckets = []\<rparr>"

definition state_size :: metric_desc where
  "state_size = \<lparr>md_name = ''did_crdt_state_size_bytes'',
     md_help = ''Serialised CRDT state size in bytes'', md_labels = [''did''], md_buckets = []\<rparr>"

definition persist_failures :: metric_desc where
  "persist_failures = \<lparr>md_name = ''did_crdt_persist_failures_total'',
     md_help = ''Total snapshot writes to durable storage that failed'', md_labels = [], md_buckets = []\<rparr>"

fun register_all :: "('g, 'f) prometheus \<Rightarrow> metric_desc list \<Rightarrow> 'g \<Rightarrow> 'g option" where
  "register_all P [] g = Some g"
| "register_all P (d # ds) g = (case pr_register P g d of None \<Rightarrow> None | Some g' \<Rightarrow> register_all P ds g')"

text \<open>\<open>Metrics::new\<close>; \<open>None\<close> is the panic of an \<open>expect\<close>.\<close>

definition metrics_new :: "('g, 'f) prometheus \<Rightarrow> 'g option" where
  "metrics_new P =
     register_all P [convergence_latency, resolution_latency, deltas_merged, delta_rejections, peer_count,
       state_size, persist_failures] (pr_empty P)"

section \<open>Recording\<close>

definition size_bucket :: "nat \<Rightarrow> string" where
  "size_bucket n = (if n < 10 then ''small'' else if n < 100 then ''medium'' else ''large'')"

definition observe_resolution :: "('g, 'f) prometheus \<Rightarrow> 'f \<Rightarrow> nat \<Rightarrow> 'g \<Rightarrow> 'g" where
  "observe_resolution P elapsed n g = pr_observe P g (md_name resolution_latency) [size_bucket n] elapsed"

definition record_delta_accepted :: "('g, 'f) prometheus \<Rightarrow> string \<Rightarrow> 64 word \<Rightarrow> 'g \<Rightarrow> 'g" where
  "record_delta_accepted P s n g =
     pr_set P (pr_inc P g (md_name deltas_merged) [''accepted'']) (md_name state_size) [s] n"

definition record_delta_rejected :: "('g, 'f) prometheus \<Rightarrow> string \<Rightarrow> 'g \<Rightarrow> 'g" where
  "record_delta_rejected P reason g =
     pr_inc P (pr_inc P g (md_name deltas_merged) [''rejected'']) (md_name delta_rejections) [reason]"

definition record_persist_failure :: "('g, 'f) prometheus \<Rightarrow> 'g \<Rightarrow> 'g" where
  "record_persist_failure P g = pr_inc P g (md_name persist_failures) []"

text \<open>What the text encoder wrote, also when it failed; bytes that are not UTF-8 give the empty string.\<close>

definition metrics_encode :: "('g, 'f) prometheus \<Rightarrow> 'g \<Rightarrow> string" where
  "metrics_encode P g = (case from_utf8 (pr_encode_text P g) of None \<Rightarrow> [] | Some s \<Rightarrow> s)"

definition get_metrics :: "('g, 'f) prometheus \<Rightarrow> 'g \<Rightarrow> response" where
  "get_metrics P g = respond 200 (TextBody (metrics_encode P g))"

text \<open>The recorded effects of a handler on the registry; the measured time is an argument.\<close>

fun record_effect :: "('g, 'f) prometheus \<Rightarrow> 'f \<Rightarrow> service_effect \<Rightarrow> 'g \<Rightarrow> 'g" where
  "record_effect P elapsed (RecordAccepted s n) g = record_delta_accepted P s (word_of_nat n) g"
| "record_effect P elapsed (RecordRejected reason) g = record_delta_rejected P reason g"
| "record_effect P elapsed (ObserveResolution n) g = observe_resolution P elapsed n g"
| "record_effect P elapsed (Persist doc) g = g"
| "record_effect P elapsed (BroadcastAnnounce m) g = g"
| "record_effect P elapsed (PublishInBackground i) g = g"

section \<open>Counting\<close>

definition accepted_count :: "service_effect list \<Rightarrow> nat" where
  "accepted_count es = length (filter (\<lambda>e. case e of RecordAccepted _ _ \<Rightarrow> True | _ \<Rightarrow> False) es)"

definition rejected_reasons :: "service_effect list \<Rightarrow> string list" where
  "rejected_reasons es = List.map_filter (\<lambda>e. case e of RecordRejected r \<Rightarrow> Some r | _ \<Rightarrow> None) es"

lemma accepted_count_simps [simp]:
  "accepted_count [] = 0" "accepted_count (es @ es') = accepted_count es + accepted_count es'"
  "accepted_count (RecordAccepted s n # es) = Suc (accepted_count es)"
  "accepted_count (RecordRejected s # es) = accepted_count es"
  "accepted_count (ObserveResolution n # es) = accepted_count es" "accepted_count (Persist doc # es) = accepted_count es"
  "accepted_count (BroadcastAnnounce m # es) = accepted_count es"
  "accepted_count (PublishInBackground i # es) = accepted_count es"
  by (simp_all add: accepted_count_def)

lemma rejected_reasons_simps [simp]:
  "rejected_reasons [] = []" "rejected_reasons (es @ es') = rejected_reasons es @ rejected_reasons es'"
  "rejected_reasons (RecordAccepted s n # es) = rejected_reasons es"
  "rejected_reasons (RecordRejected s # es) = s # rejected_reasons es"
  "rejected_reasons (ObserveResolution n # es) = rejected_reasons es"
  "rejected_reasons (Persist doc # es) = rejected_reasons es"
  "rejected_reasons (BroadcastAnnounce m # es) = rejected_reasons es"
  "rejected_reasons (PublishInBackground i # es) = rejected_reasons es"
  by (simp_all add: rejected_reasons_def List.map_filter_def)

lemma live_effects_uncounted [simp]:
  "accepted_count (live_effects es) = 0" "rejected_reasons (live_effects es) = []"
proof (induction es)
  case (Cons e es)
  have "live_effects (e # es) = live_effects [e] @ live_effects es" by (simp flip: live_effects_simps(2))
  moreover have "accepted_count (live_effects [e]) = 0" "rejected_reasons (live_effects [e]) = []"
    by (cases e; simp add: live_effects_def List.map_filter_def)+
  ultimately show "accepted_count (live_effects (e # es)) = 0" "rejected_reasons (live_effects (e # es)) = []"
    using Cons.IH by simp_all
qed simp_all

lemma other_effects_uncounted [simp]:
  "accepted_count (persist st i) = 0" "rejected_reasons (persist st i) = []"
  "accepted_count (announce_effects E st i) = 0" "rejected_reasons (announce_effects E st i) = []"
  "accepted_count (snd (resolve_held E docs i q)) = 0" "rejected_reasons (snd (resolve_held E docs i q)) = []"
  by (simp_all add: persist_def announce_effects_def resolve_held_def split: option.splits sum.splits)

lemma metric_names:
  "md_name deltas_merged \<noteq> md_name delta_rejections" "md_name delta_rejections \<noteq> md_name deltas_merged"
  by (simp_all add: deltas_merged_def delta_rejections_def)

text \<open>The counters after the effects have been recorded.\<close>

lemma record_effects_counters:
  assumes "prom_laws P"
  shows "pr_counter P (fold (record_effect P elapsed) es g) (md_name deltas_merged) [''accepted'']
      = pr_counter P g (md_name deltas_merged) [''accepted''] + of_nat (accepted_count es)"
    and "pr_counter P (fold (record_effect P elapsed) es g) (md_name deltas_merged) [''rejected'']
      = pr_counter P g (md_name deltas_merged) [''rejected''] + of_nat (length (rejected_reasons es))"
    and "pr_counter P (fold (record_effect P elapsed) es g) (md_name delta_rejections) [r]
      = pr_counter P g (md_name delta_rejections) [r] + of_nat (count_list (rejected_reasons es) r)"
proof (induction es arbitrary: g)
  case (Cons e es)
  note rec = record_delta_accepted_def record_delta_rejected_def observe_resolution_def prom_lawsD(4-6) [OF assms] metric_names
  {
    case 1
    show ?case by (cases e) (simp_all add: Cons.IH(1) rec)
  next
    case 2
    show ?case by (cases e) (simp_all add: Cons.IH(2) rec)
  next
    case 3
    show ?case by (cases e) (simp_all add: Cons.IH(3) rec)
  }
qed simp_all

lemma metrics_new_fresh:
  assumes "prom_laws P"
  shows "\<exists>g. metrics_new P = Some g \<and> (\<forall>m ls. pr_counter P g m ls = 0)"
proof -
  have reg: "\<exists>g'. register_all P ds g = Some g' \<and> (\<forall>m ls. pr_counter P g' m ls = pr_counter P g m ls)"
    if "list_all valid_desc ds" "distinct (map md_name ds)" "\<forall>d\<in>set ds. md_name d |\<notin>| pr_names P g" for ds g
    using that
  proof (induction ds arbitrary: g)
    case (Cons d ds)
    then obtain g1 where g1: "pr_register P g d = Some g1" "pr_names P g1 = finsert (md_name d) (pr_names P g)"
      "\<forall>m ls. pr_counter P g1 m ls = pr_counter P g m ls"
      using prom_lawsD(3) [OF assms, of d g] by auto
    with Cons.prems have "\<exists>g'. register_all P ds g1 = Some g' \<and> (\<forall>m ls. pr_counter P g' m ls = pr_counter P g1 m ls)"
      by (intro Cons.IH) (auto, metis imageI)
    with g1 show ?case by auto
  qed simp
  note families = convergence_latency_def resolution_latency_def deltas_merged_def delta_rejections_def peer_count_def
    state_size_def persist_failures_def
  show ?thesis
    unfolding metrics_new_def
    using reg [of "[convergence_latency, resolution_latency, deltas_merged, delta_rejections, peer_count,
       state_size, persist_failures]" "pr_empty P"] prom_lawsD(1,2) [OF assms]
    by (simp add: families valid_desc_def plain_name_def)
qed

section \<open>Requests and counters\<close>

text \<open>A served request with its answer, and those that the counters count.\<close>

fun serve_log ::
    "(bytes \<Rightarrow> sync_message option) \<Rightarrow> (string \<Rightarrow> string) \<Rightarrow> externs \<Rightarrow> snapshots \<Rightarrow> 'p event list \<Rightarrow> app_state
     \<Rightarrow> ('p event \<times> response) list" where
  "serve_log decode dbg E X [] st = []"
| "serve_log decode dbg E X (ev # evs) st =
     (case serve decode dbg E X ev st of (r, _, st') \<Rightarrow>
        (case r of None \<Rightarrow> [] | Some r \<Rightarrow> [(ev, r)]) @ serve_log decode dbg E X evs st')"

definition accepted_answer :: "'p event \<times> response \<Rightarrow> bool" where
  "accepted_answer p \<longleftrightarrow> (case fst p of PostDids _ \<Rightarrow> True | PostDelta _ _ \<Rightarrow> True | _ \<Rightarrow> False) \<and>
     rs_status (snd p) \<in> {201, 202}"

text \<open>A delta that was refused after the checks of its size and its path.\<close>

definition rejected_answer :: "'p event \<times> response \<Rightarrow> bool" where
  "rejected_answer p \<longleftrightarrow> (case fst p of PostDelta _ _ \<Rightarrow> True | _ \<Rightarrow> False) \<and> rs_status (snd p) \<noteq> 202 \<and>
     (case rs_body (snd p) of TooLargeBody _ _ \<Rightarrow> False | TextBody _ \<Rightarrow> False | _ \<Rightarrow> True)"

definition reasons :: "string list" where
  "reasons = [''unknown_did'', ''pending'', ''invalid_signature'', ''deactivated_did'', ''stale_rotation'',
     ''rejected'', ''unauthorised'']"

lemma rejection_label_reason: "rejection_label dbg e \<in> set reasons"
  by (auto simp: rejection_label_def reasons_def split: error.splits)

text \<open>Each answer is counted once, under one of the reasons when it is a rejection.\<close>

definition counted :: "'p event \<Rightarrow> response option \<times> service_effect list \<times> app_state \<Rightarrow> bool" where
  "counted ev = (\<lambda>(r, es, _).
     accepted_count es = (case r of None \<Rightarrow> 0 | Some r \<Rightarrow> of_bool (accepted_answer (ev, r))) \<and>
     length (rejected_reasons es) = (case r of None \<Rightarrow> 0 | Some r \<Rightarrow> of_bool (rejected_answer (ev, r))) \<and>
     set (rejected_reasons es) \<subseteq> set reasons)"

lemma optional_effects_uncounted [simp]:
  "accepted_count (if b then [Persist doc] else []) = 0" "rejected_reasons (if b then [Persist doc] else []) = []"
  "accepted_count (if b then [PublishInBackground i] else []) = 0"
  "rejected_reasons (if b then [PublishInBackground i] else []) = []"
  by simp_all

lemma core_error_counts [simp]:
  "rs_status (core_error_response e) \<noteq> 201" "rs_status (core_error_response e) \<noteq> 202"
  "rs_body (core_error_response e) = ErrorBody e"
  by (cases e; simp)+

lemma create_did_counted: "create_did E X st pk = (r, es, st') \<Longrightarrow> counted (PostDids pk) (Some r, es, st')"
  by (auto simp: create_did_def Let_def counted_def accepted_answer_def rejected_answer_def
      split: sum.splits prod.splits)

lemma resolve_did_counted: "resolve_did decode E st s q V now = (r, es, st') \<Longrightarrow> counted (GetDid s q V now) (Some r, es, st')"
  using other_effects_uncounted(5,6)
  by (auto simp: resolve_did_def Let_def counted_def accepted_answer_def rejected_answer_def split_def
      split: sum.splits if_splits)

text \<open>An answer to a delta that was rejected for a reason, and one that was turned away before.\<close>

lemma counted_rejected:
  assumes "rs_status r \<notin> {201, 202}" "rejected_answer (PostDelta s d :: 'p event, r)" "reason \<in> set reasons"
  shows "counted (PostDelta s d :: 'p event) (Some r, [RecordRejected reason], st)"
  using assms by (simp add: counted_def accepted_answer_def)

lemma submit_delta_counted:
  assumes "submit_delta dbg E X st s d = (r, es, st')"
  shows "counted (PostDelta s d :: 'p event) (Some r, es, st')"
proof (cases "oversized E d = None \<and> did_to_string (sd_did d) = s")
  case False
  with assms show ?thesis
    by (auto simp: submit_delta_def counted_def accepted_answer_def rejected_answer_def split: option.splits if_splits)
next
  case gates: True
  show ?thesis
  proof (cases "fmlookup (as_docs st) (sd_did d)")
    case None
    with assms gates show ?thesis
      using counted_rejected [where 'p = 'p, of r s d "''unknown_did''" st']
      by (auto simp: submit_delta_def rejected_answer_def reasons_def)
  next
    case (Some doc)
    show ?thesis
    proof (cases "doc_missing_parents doc d = [] \<and> verify_signature E d doc = Inr ()")
      case False
      with assms gates Some show ?thesis
        using counted_rejected [where 'p = 'p, of r s d "''pending''" st'] counted_rejected [where 'p = 'p, of r s d "''invalid_signature''" st']
        by (auto simp: submit_delta_def rejected_answer_def reasons_def split: if_splits sum.splits)
    next
      case True
      obtain res doc' where m: "merge E doc d = (res, doc')" by fastforce
      show ?thesis
      proof (cases res)
        case (Inr u)
        with assms gates Some True m show ?thesis
          by (auto simp: submit_delta_def Let_def counted_def accepted_answer_def rejected_answer_def)
      next
        case (Inl e)
        with assms gates Some True m show ?thesis
          using counted_rejected [where 'p = 'p, of r s d "''pending''" st'] counted_rejected [where 'p = 'p, of r s d "rejection_label dbg e" st']
            rejection_label_reason [of dbg e]
          by (cases e) (auto simp: submit_delta_def Let_def rejected_answer_def reasons_def)
      qed
    qed
  qed
qed

lemma serve_counted:
  assumes "serve decode dbg E X ev st = (r, es, st')"
  shows "counted ev (r, es, st')"
proof (cases ev)
  case (Payload raw)
  with assms show ?thesis by (auto simp: counted_def split: if_splits prod.splits)
next
  case GetHealth
  with assms show ?thesis by (auto simp: counted_def accepted_answer_def rejected_answer_def)
qed (use assms in \<open>auto split: prod.splits dest: create_did_counted resolve_did_counted submit_delta_counted\<close>)

lemma serve_all_counted:
  "serve_all decode dbg E X evs st = (es, st') \<Longrightarrow>
     accepted_count es = length (filter accepted_answer (serve_log decode dbg E X evs st)) \<and>
     length (rejected_reasons es) = length (filter rejected_answer (serve_log decode dbg E X evs st)) \<and>
     set (rejected_reasons es) \<subseteq> set reasons"
proof (induction evs arbitrary: st es)
  case (Cons ev evs)
  obtain r es1 st1 where s: "serve decode dbg E X ev st = (r, es1, st1)" by (metis prod_cases3)
  obtain es2 where a: "serve_all decode dbg E X evs st1 = (es2, st')" "es = es1 @ es2"
    using Cons.prems s by (auto split: prod.splits)
  from Cons.IH [OF a(1)] serve_counted [OF s] a(2) s show ?case
    by (cases r) (auto simp: counted_def)
qed simp

section \<open>Properties\<close>

text \<open>
  C33: The counters of the service are the counts of its answers.  The metrics are always set up
  without a panic, and after any requests and payloads the counter of accepted deltas is the number
  of creations and submissions answered with success, the counter of rejected ones is the number of
  submissions refused after the checks of size and path, and the counters by reason add up to it
  (modulo the width of a counter).
\<close>

theorem metrics_account:
  assumes "prom_laws P" "serve_all decode dbg E X evs st = (es, st')"
  shows "\<exists>g0. metrics_new P = Some g0 \<and>
    pr_counter P (fold (record_effect P elapsed) es g0) (md_name deltas_merged) [''accepted'']
      = of_nat (length (filter accepted_answer (serve_log decode dbg E X evs st))) \<and>
    pr_counter P (fold (record_effect P elapsed) es g0) (md_name deltas_merged) [''rejected'']
      = of_nat (length (filter rejected_answer (serve_log decode dbg E X evs st))) \<and>
    (\<Sum>r\<in>set reasons. pr_counter P (fold (record_effect P elapsed) es g0) (md_name delta_rejections) [r])
      = pr_counter P (fold (record_effect P elapsed) es g0) (md_name deltas_merged) [''rejected'']"
proof -
  obtain g0 where g0: "metrics_new P = Some g0" "\<And>m ls. pr_counter P g0 m ls = 0"
    using metrics_new_fresh [OF assms(1)] by blast
  note counts = serve_all_counted [OF assms(2)]
  have "(\<Sum>r\<in>set reasons. (of_nat (count_list (rejected_reasons es) r) :: u64)) = of_nat (length (rejected_reasons es))"
    using counts sum_count_set [of "rejected_reasons es" "set reasons"] by (simp flip: of_nat_sum)
  with g0 counts show ?thesis by (simp add: record_effects_counters [OF assms(1)])
qed

section \<open>Example\<close>

text \<open>A registry that keeps the counters as a function.\<close>

definition ex_prom :: "((string \<Rightarrow> string list \<Rightarrow> u64) \<times> string fset, unit) prometheus" where
  "ex_prom = \<lparr>pr_empty = (\<lambda>_ _. 0, {||}),
     pr_register = (\<lambda>(c, ns) d. if md_name d |\<in>| ns then None else Some (c, finsert (md_name d) ns)),
     pr_inc = (\<lambda>(c, ns) m ls. (c(m := (c m)(ls := c m ls + 1)), ns)), pr_set = (\<lambda>g _ _ _. g),
     pr_observe = (\<lambda>g _ _ _. g), pr_counter = fst, pr_names = snd, pr_encode_text = (\<lambda>_. [])\<rparr>"

lemma ex_prom_laws: "prom_laws ex_prom"
  by (auto simp: prom_laws_def ex_prom_def)

text \<open>A delta for an unknown identifier and a creation: one rejection and one acceptance.\<close>

definition ex_events :: "unit event list" where
  "ex_events = [PostDelta (did_to_string (sd_did ex_update)) ex_update, PostDids ''ubbb'']"

theorem metrics_account_witness:
  "\<exists>es st g0. serve_all (\<lambda>_. None) id ex_externs ex_snapshots ex_events app_new = (es, st) \<and>
     metrics_new ex_prom = Some g0 \<and>
     pr_counter ex_prom (fold (record_effect ex_prom ()) es g0) (md_name deltas_merged) [''accepted''] = 1 \<and>
     pr_counter ex_prom (fold (record_effect ex_prom ()) es g0) (md_name deltas_merged) [''rejected''] = 1"
proof -
  let ?log = "serve_log (\<lambda>_. None) id ex_externs ex_snapshots ex_events app_new"
  obtain es st where run: "serve_all (\<lambda>_. None) id ex_externs ex_snapshots ex_events app_new = (es, st)" by fastforce
  have "oversized ex_externs ex_update = None"
    by (simp add: oversized_def ex_externs_def ref_externs_def ex_update_def str_bytes_def MAX_DELTA_SIZE_def)
  moreover obtain rr where "resolve ex_externs ex_doc = Inr rr" using ex_resolves by blast
  ultimately have "length (filter accepted_answer ?log) = 1" "length (filter rejected_answer ?log) = 1"
    by (simp_all add: ex_events_def submit_delta_def create_did_def app_new_def ex_new Let_def accepted_answer_def
        rejected_answer_def)
  with metrics_account [OF ex_prom_laws run, of "()"] obtain g0 where "metrics_new ex_prom = Some g0"
    "pr_counter ex_prom (fold (record_effect ex_prom ()) es g0) (md_name deltas_merged) [''accepted''] = 1"
    "pr_counter ex_prom (fold (record_effect ex_prom ()) es g0) (md_name deltas_merged) [''rejected''] = 1"
    by (metis One_nat_def of_nat_1)
  with run show ?thesis by blast
qed

end
