(* ===== verification/Dht.thy ===== *)
theory Dht
  imports Validate
begin

unbundle bit_operations_syntax

text \<open>
  Peer discovery (\<open>src/sync/dht.rs\<close>): the key pair of an identifier, the text record that
  advertises a node, its publication with the deduplication window, and the lookup.  The pkarr and
  DNS crates, the relay and the text forms of node ids, relay URLs and socket addresses are
  parameters; the clock is an argument in milliseconds.
\<close>

section \<open>Parameters\<close>

text \<open>An iroh node address, with \<open>'n\<close> for node ids, \<open>'u\<close> for relay URLs and \<open>'a\<close> for socket addresses.\<close>

record ('n, 'u, 'a) node_addr =
  na_node_id :: 'n
  na_relay_url :: "'u option"
  na_direct_addresses :: "'a fset"

record ('n, 'u, 'a, 'p, 'h) dht_env =
  nid_to_string :: "'n \<Rightarrow> string"
  nid_parse :: "string \<Rightarrow> 'n option"
  relay_to_string :: "'u \<Rightarrow> string"
  relay_parse :: "string \<Rightarrow> 'u option"
  sock_to_string :: "'a \<Rightarrow> string"
  sock_parse :: "string \<Rightarrow> 'a option"
  public_key_of :: "bytes \<Rightarrow> bytes"
  txt_add_string :: "string list \<Rightarrow> string \<Rightarrow> string list option"
  txt_attributes :: "string list \<Rightarrow> string \<rightharpoonup> string option"
  sign_packet :: "bytes \<Rightarrow> string \<Rightarrow> u32 \<Rightarrow> string list \<Rightarrow> 'p option"
  packet_public_key :: "'p \<Rightarrow> bytes"
  packet_txts :: "'p \<Rightarrow> string \<Rightarrow> string list list"
  relay_publish :: "'h \<Rightarrow> 'p \<Rightarrow> (unit + unit) \<times> 'h"
  relay_resolve :: "'h \<Rightarrow> bytes \<Rightarrow> unit + 'p option"

section \<open>Constants and key derivation\<close>

definition RECORD_NAME :: string where "RECORD_NAME = ''_did-crdt''"
definition RECORD_TTL :: u32 where "RECORD_TTL = 3600"
definition KDF_DOMAIN :: bytes where "KDF_DOMAIN = str_bytes ''did-crdt/discovery/v1''"
definition MAX_TXT_ADDRS :: nat where "MAX_TXT_ADDRS = 4"
definition PUBLISH_DEDUP_WINDOW :: nat where "PUBLISH_DEDUP_WINDOW = 30 * 60 * 1000"

definition hex_nibble :: "u8 \<Rightarrow> u8 option" where
  "hex_nibble b =
     (if 48 \<le> b \<and> b \<le> 57 then Some (b - 48)
      else if 97 \<le> b \<and> b \<le> 102 then Some (b - 97 + 10)
      else if 65 \<le> b \<and> b \<le> 70 then Some (b - 65 + 10)
      else None)"

text \<open>The loop over the pairs of digits.\<close>

fun decode_pairs :: "bytes \<Rightarrow> bytes option" where
  "decode_pairs (a # b # bs) =
     (case hex_nibble a of
        None \<Rightarrow> None
      | Some hi \<Rightarrow>
          (case hex_nibble b of
             None \<Rightarrow> None
           | Some lo \<Rightarrow>
               (case decode_pairs bs of
                  None \<Rightarrow> None
                | Some out \<Rightarrow> Some ((push_bit 4 hi OR lo) # out))))"
| "decode_pairs _ = Some []"

definition decode_hex32 :: "string \<Rightarrow> bytes option" where
  "decode_hex32 hex = (if length hex \<noteq> 64 then None else decode_pairs (str_bytes hex))"

text \<open>The seed of the key pair; \<open>None\<close> is the panic of the two \<open>expect\<close> calls.\<close>

definition derive_keypair :: "externs \<Rightarrow> did \<Rightarrow> bytes option" where
  "derive_keypair E i =
     (case method_specific_id i of
        None \<Rightarrow> None
      | Some hex \<Rightarrow> map_option (\<lambda>h. blake3 E (KDF_DOMAIN @ h)) (decode_hex32 hex))"

section \<open>The node\<close>

datatype ('h, 'p) pkarr_backend = Http 'h | InProcess "(bytes, 'p) fmap"

definition backend_publish ::
    "('n, 'u, 'a, 'p, 'h) dht_env \<Rightarrow> ('h, 'p) pkarr_backend \<Rightarrow> 'p \<Rightarrow> (unit + unit) \<times> ('h, 'p) pkarr_backend" where
  "backend_publish V k packet =
     (case k of
        Http h \<Rightarrow> (case relay_publish V h packet of (r, h') \<Rightarrow> (r, Http h'))
      | InProcess m \<Rightarrow> (Inr (), InProcess (fmupd (packet_public_key V packet) packet m)))"

definition backend_resolve ::
    "('n, 'u, 'a, 'p, 'h) dht_env \<Rightarrow> ('h, 'p) pkarr_backend \<Rightarrow> bytes \<Rightarrow> unit + 'p option" where
  "backend_resolve V k key =
     (case k of Http h \<Rightarrow> relay_resolve V h key | InProcess m \<Rightarrow> Inr (fmlookup m key))"

record ('n, 'u, 'a, 'p, 'h) dht_node =
  dn_backend :: "('h, 'p) pkarr_backend"
  dn_addr_store :: "(bytes, ('n, 'u, 'a) node_addr) fmap option"
  dn_published :: "(did, nat \<times> ('n, 'u, 'a) node_addr) fmap"

definition new_http :: "'h \<Rightarrow> ('n, 'u, 'a, 'p, 'h) dht_node" where
  "new_http h = \<lparr>dn_backend = Http h, dn_addr_store = None, dn_published = fmempty\<rparr>"

definition new_in_process ::
    "(bytes, 'p) fmap \<Rightarrow> (bytes, ('n, 'u, 'a) node_addr) fmap \<Rightarrow> ('n, 'u, 'a, 'p, 'h) dht_node" where
  "new_in_process m addrs = \<lparr>dn_backend = InProcess m, dn_addr_store = Some addrs, dn_published = fmempty\<rparr>"

text \<open>The character strings of the record, in the order they are added.\<close>

definition txt_strings ::
    "('n, 'u, 'a::linorder, 'p, 'h) dht_env \<Rightarrow> ('n, 'u, 'a) node_addr \<Rightarrow> string list" where
  "txt_strings V addr =
     [''v=1'', ''nid='' @ nid_to_string V (na_node_id addr)] @
     (case na_relay_url addr of None \<Rightarrow> [] | Some u \<Rightarrow> [''relay='' @ relay_to_string V u]) @
     (if na_direct_addresses addr = {||} then []
      else [''addrs='' @ join_sep '','' (map (sock_to_string V)
              (take MAX_TXT_ADDRS (sorted_list_of_fset (na_direct_addresses addr))))])"

fun txt_build :: "('n, 'u, 'a, 'p, 'h) dht_env \<Rightarrow> string list \<Rightarrow> string list \<Rightarrow> string list option" where
  "txt_build V txt [] = Some txt"
| "txt_build V txt (s # ss) =
     (case txt_add_string V txt s of None \<Rightarrow> None | Some txt' \<Rightarrow> txt_build V txt' ss)"

text \<open>The outer option is a panic; \<open>Inl ()\<close> is an error.\<close>

definition publish_force ::
    "externs \<Rightarrow> ('n, 'u, 'a::linorder, 'p, 'h) dht_env \<Rightarrow> nat \<Rightarrow> ('n, 'u, 'a, 'p, 'h) dht_node \<Rightarrow> did
     \<Rightarrow> ('n, 'u, 'a) node_addr \<Rightarrow> ((unit + unit) \<times> ('n, 'u, 'a, 'p, 'h) dht_node) option" where
  "publish_force E V now n i addr =
     (case derive_keypair E i of
        None \<Rightarrow> None
      | Some seed \<Rightarrow>
          Some (case txt_build V [] (txt_strings V addr) of
             None \<Rightarrow> (Inl (), n)
           | Some txt \<Rightarrow>
               (case sign_packet V seed RECORD_NAME RECORD_TTL txt of
                  None \<Rightarrow> (Inl (), n)
                | Some packet \<Rightarrow>
                    (case backend_publish V (dn_backend n) packet of
                       (Inl _, k) \<Rightarrow> (Inl (), n\<lparr>dn_backend := k\<rparr>)
                     | (Inr _, k) \<Rightarrow>
                         (Inr (), n\<lparr>dn_backend := k,
                            dn_addr_store := map_option (fmupd (public_key_of V seed) addr) (dn_addr_store n),
                            dn_published := fmupd i (now, addr) (dn_published n)\<rparr>)))))"

definition recently_published ::
    "nat \<Rightarrow> ('n, 'u, 'a, 'p, 'h) dht_node \<Rightarrow> did \<Rightarrow> ('n, 'u, 'a) node_addr \<Rightarrow> bool" where
  "recently_published now n i addr =
     (case fmlookup (dn_published n) i of
        None \<Rightarrow> False
      | Some (at, addr') \<Rightarrow> addr' = addr \<and> now - at < PUBLISH_DEDUP_WINDOW)"

definition publish ::
    "externs \<Rightarrow> ('n, 'u, 'a::linorder, 'p, 'h) dht_env \<Rightarrow> nat \<Rightarrow> ('n, 'u, 'a, 'p, 'h) dht_node \<Rightarrow> did
     \<Rightarrow> ('n, 'u, 'a) node_addr \<Rightarrow> ((unit + bool) \<times> ('n, 'u, 'a, 'p, 'h) dht_node) option" where
  "publish E V now n i addr =
     (if recently_published now n i addr then Some (Inr False, n)
      else map_option (\<lambda>(r, n'). (map_sum id (\<lambda>_. True) r, n')) (publish_force E V now n i addr))"

section \<open>Lookup\<close>

text \<open>\<open>str::split\<close> at a character.\<close>

fun split_on :: "char \<Rightarrow> string \<Rightarrow> string list" where
  "split_on c [] = [[]]"
| "split_on c (x # xs) = (if x = c then [] # split_on c xs else (x # hd (split_on c xs)) # tl (split_on c xs))"

definition parse_txt ::
    "('n, 'u, 'a::linorder, 'p, 'h) dht_env \<Rightarrow> ('n, 'u, 'a) node_addr option \<Rightarrow> string list \<Rightarrow> ('n, 'u, 'a) node_addr option" where
  "parse_txt V full_addr txt =
     (let attrs = txt_attributes V txt
      in if attrs ''v'' \<noteq> Some (Some ''1'') then None
         else case attrs ''nid'' of
           Some (Some s) \<Rightarrow>
             (case nid_parse V s of
                None \<Rightarrow> None
              | Some nid \<Rightarrow>
                  Some (case full_addr of
                     Some a \<Rightarrow> a
                   | None \<Rightarrow>
                       \<lparr>na_node_id = nid,
                        na_relay_url = (case attrs ''relay'' of Some (Some u) \<Rightarrow> relay_parse V u | _ \<Rightarrow> None),
                        na_direct_addresses =
                          (case attrs ''addrs'' of
                             Some (Some l) \<Rightarrow> fset_of_list (List.map_filter (sock_parse V) (split_on (CHR '','') l))
                           | _ \<Rightarrow> {||})\<rparr>))
         | _ \<Rightarrow> None)"

definition dht_lookup ::
    "externs \<Rightarrow> ('n, 'u, 'a::linorder, 'p, 'h) dht_env \<Rightarrow> ('n, 'u, 'a, 'p, 'h) dht_node \<Rightarrow> did
     \<Rightarrow> (unit + ('n, 'u, 'a) node_addr list) option" where
  "dht_lookup E V n i =
     (case derive_keypair E i of
        None \<Rightarrow> None
      | Some seed \<Rightarrow>
          let key = public_key_of V seed
          in Some (case backend_resolve V (dn_backend n) key of
               Inl _ \<Rightarrow> Inl ()
             | Inr None \<Rightarrow> Inr []
             | Inr (Some packet) \<Rightarrow>
                 Inr (List.map_filter
                   (parse_txt V (Option.bind (dn_addr_store n) (\<lambda>m. fmlookup m key)))
                   (packet_txts V packet RECORD_NAME))))"

section \<open>What the parameters promise\<close>

definition attribute :: "string \<times> string \<Rightarrow> string" where
  "attribute kv = fst kv @ ''='' @ snd kv"

definition dht_laws :: "('n, 'u, 'a::linorder, 'p, 'h) dht_env \<Rightarrow> bool" where
  "dht_laws V \<longleftrightarrow>
     (\<forall>n. nid_parse V (nid_to_string V n) = Some n) \<and>
     (\<forall>u. relay_parse V (relay_to_string V u) = Some u) \<and>
     (\<forall>a. sock_parse V (sock_to_string V a) = Some a \<and> CHR '','' \<notin> set (sock_to_string V a)) \<and>
     (\<forall>txt s txt'. txt_add_string V txt s = Some txt' \<longrightarrow> txt' = txt @ [s]) \<and>
     (\<forall>kvs. distinct (map fst kvs) \<and> (\<forall>kv\<in>set kvs. CHR ''='' \<notin> set (fst kv)) \<longrightarrow>
        txt_attributes V (map attribute kvs) = (\<lambda>k. map_option Some (map_of kvs k))) \<and>
     (\<forall>seed name ttl txt p. sign_packet V seed name ttl txt = Some p \<longrightarrow>
        packet_public_key V p = public_key_of V seed \<and> packet_txts V p name = [txt]) \<and>
     (\<forall>h p h'. relay_publish V h p = (Inr (), h') \<longrightarrow> relay_resolve V h' (packet_public_key V p) = Inr (Some p))"

lemma dht_lawsD:
  assumes "dht_laws V"
  shows "nid_parse V (nid_to_string V n) = Some n" "relay_parse V (relay_to_string V u) = Some u"
    "sock_parse V (sock_to_string V a) = Some a" "CHR '','' \<notin> set (sock_to_string V a)"
    "txt_add_string V txt s = Some txt' \<Longrightarrow> txt' = txt @ [s]"
    "distinct (map fst kvs) \<Longrightarrow> (\<And>kv. kv \<in> set kvs \<Longrightarrow> CHR ''='' \<notin> set (fst kv)) \<Longrightarrow>
      txt_attributes V (map attribute kvs) = (\<lambda>k. map_option Some (map_of kvs k))"
    "sign_packet V seed name ttl txt = Some p \<Longrightarrow> packet_public_key V p = public_key_of V seed"
    "sign_packet V seed name ttl txt = Some p \<Longrightarrow> packet_txts V p name = [txt]"
    "relay_publish V h p = (Inr (), h') \<Longrightarrow> relay_resolve V h' (packet_public_key V p) = Inr (Some p)"
  using assms unfolding dht_laws_def by blast+

section \<open>Lemmas\<close>

lemma hex_nibble_digit:
  assumes "is_ascii_hexdigit c"
  shows "hex_nibble (word_of_nat (of_char c)) \<noteq> None"
  using assms by (auto simp: is_ascii_hexdigit_def hex_nibble_def)

lemma decode_pairs_digits:
  "list_all is_ascii_hexdigit s \<Longrightarrow> even (length s) \<Longrightarrow>
    \<exists>b. decode_pairs (str_bytes s) = Some b \<and> length b = length s div 2"
proof (induction s rule: induct_list012)
  case (3 x y zs)
  then show ?case
    using hex_nibble_digit [of x] hex_nibble_digit [of y] by (auto simp: str_bytes_def)
qed (simp_all add: str_bytes_def)

lemma derive_keypair_wf: "did_wf i \<Longrightarrow> \<exists>seed. derive_keypair E i = Some seed"
  using decode_pairs_digits
  by (fastforce simp: did_wf_def derive_keypair_def method_specific_id_def decode_hex32_def)

lemma split_on_plain: "c \<notin> set x \<Longrightarrow> split_on c x = [x]"
  by (induction x) auto

lemma split_on_append: "c \<notin> set x \<Longrightarrow> split_on c (x @ c # ys) = x # split_on c ys"
  by (induction x) auto

lemma split_on_join:
  "xs \<noteq> [] \<Longrightarrow> (\<And>x. x \<in> set xs \<Longrightarrow> c \<notin> set x) \<Longrightarrow> split_on c (join_sep [c] xs) = xs"
  by (induction "[c]" xs rule: join_sep.induct) (simp_all add: split_on_plain split_on_append)

lemma txt_build_Some: "dht_laws V \<Longrightarrow> txt_build V t ss = Some t' \<Longrightarrow> t' = t @ ss"
proof (induction ss arbitrary: t)
  case (Cons s ss)
  then obtain t1 where "txt_add_string V t s = Some t1" "txt_build V t1 ss = Some t'"
    by (auto split: option.splits)
  with dht_lawsD(5) [OF Cons.prems(1)] Cons.IH [OF Cons.prems(1)] show ?case by fastforce
qed simp

text \<open>The record as attributes.\<close>

definition txt_kvs :: "('n, 'u, 'a::linorder, 'p, 'h) dht_env \<Rightarrow> ('n, 'u, 'a) node_addr \<Rightarrow> (string \<times> string) list" where
  "txt_kvs V addr =
     [(''v'', ''1''), (''nid'', nid_to_string V (na_node_id addr))] @
     (case na_relay_url addr of None \<Rightarrow> [] | Some u \<Rightarrow> [(''relay'', relay_to_string V u)]) @
     (if na_direct_addresses addr = {||} then []
      else [(''addrs'', join_sep '','' (map (sock_to_string V)
              (take MAX_TXT_ADDRS (sorted_list_of_fset (na_direct_addresses addr)))))])"

lemma txt_strings_kvs: "txt_strings V addr = map attribute (txt_kvs V addr)"
  by (simp add: txt_strings_def txt_kvs_def attribute_def split: option.splits)

lemma txt_attributes_strings:
  assumes "dht_laws V"
  shows "txt_attributes V (txt_strings V addr) = (\<lambda>k. map_option Some (map_of (txt_kvs V addr) k))"
  unfolding txt_strings_kvs
  by (rule dht_lawsD(6) [OF assms]) (auto simp: txt_kvs_def split: option.splits if_splits)

text \<open>What a reader of the record gets: the address with at most four direct addresses.\<close>

definition advertised :: "('n, 'u, 'a::linorder) node_addr \<Rightarrow> ('n, 'u, 'a) node_addr" where
  "advertised addr = \<lparr>na_node_id = na_node_id addr, na_relay_url = na_relay_url addr,
     na_direct_addresses = fset_of_list (take MAX_TXT_ADDRS (sorted_list_of_fset (na_direct_addresses addr)))\<rparr>"

lemma map_filter_inverse: "(\<And>x. f (g x) = Some x) \<Longrightarrow> List.map_filter f (map g xs) = xs"
  by (induction xs) (simp_all add: List.map_filter_def)

lemma parse_txt_strings:
  assumes "dht_laws V"
  shows "parse_txt V full (txt_strings V addr) = Some (case full of Some a \<Rightarrow> a | None \<Rightarrow> advertised addr)"
proof -
  let ?as = "take MAX_TXT_ADDRS (sorted_list_of_fset (na_direct_addresses addr))"
  have addrs: "List.map_filter (sock_parse V) (split_on (CHR '','') (join_sep '','' (map (sock_to_string V) ?as))) = ?as"
    if "na_direct_addresses addr \<noteq> {||}"
  proof -
    have "fset (na_direct_addresses addr) \<noteq> {}" using that by (metis bot_fset.rep_eq fset_inject)
    then have "?as \<noteq> []" by (simp add: MAX_TXT_ADDRS_def sorted_list_of_fset.rep_eq)
    then have "split_on (CHR '','') (join_sep '','' (map (sock_to_string V) ?as)) = map (sock_to_string V) ?as"
      by (intro split_on_join) (auto simp: dht_lawsD(4) [OF assms])
    moreover have "List.map_filter (sock_parse V) (map (sock_to_string V) ?as) = ?as"
      by (rule map_filter_inverse) (rule dht_lawsD(3) [OF assms])
    ultimately show ?thesis by (simp only:)
  qed
  have "sorted_list_of_fset {||} = ([] :: 'c list)" by (simp add: sorted_list_of_fset.rep_eq)
  with addrs show ?thesis
    unfolding parse_txt_def txt_attributes_strings [OF assms]
    by (simp add: txt_kvs_def Let_def dht_lawsD(1,2) [OF assms] advertised_def split: option.split)
qed

lemma backend_publish_resolve:
  assumes "dht_laws V" "backend_publish V k p = (Inr (), k')"
  shows "backend_resolve V k' (packet_public_key V p) = Inr (Some p)"
  using assms by (cases k) (auto simp: backend_publish_def backend_resolve_def dht_lawsD(9) split: prod.splits)

lemma publish_force_lookup:
  assumes laws: "dht_laws V" and pub: "publish_force E V now n i addr = Some (Inr (), n')"
  shows "dht_lookup E V n' i = Some (Inr [if dn_addr_store n = None then advertised addr else addr])"
    "fmlookup (dn_published n') i = Some (now, addr)"
proof -
  obtain seed t p k where s: "derive_keypair E i = Some seed" "txt_build V [] (txt_strings V addr) = Some t"
    "sign_packet V seed RECORD_NAME RECORD_TTL t = Some p" "backend_publish V (dn_backend n) p = (Inr (), k)"
    "n' = n\<lparr>dn_backend := k, dn_addr_store := map_option (fmupd (public_key_of V seed) addr) (dn_addr_store n),
        dn_published := fmupd i (now, addr) (dn_published n)\<rparr>"
    using pub by (auto simp: publish_force_def split: option.splits prod.splits sum.splits)
  have t: "t = txt_strings V addr" using txt_build_Some [OF laws s(2)] by simp
  have "backend_resolve V k (public_key_of V seed) = Inr (Some p)"
    using backend_publish_resolve [OF laws s(4)] dht_lawsD(7) [OF laws s(3)] by simp
  then show "dht_lookup E V n' i = Some (Inr [if dn_addr_store n = None then advertised addr else addr])"
    using parse_txt_strings [OF laws, of _ addr]
    by (cases "dn_addr_store n")
      (simp_all add: dht_lookup_def s(1,5) Let_def dht_lawsD(8) [OF laws s(3)] t List.map_filter_def)
  show "fmlookup (dn_published n') i = Some (now, addr)" by (simp add: s(5))
qed

lemma publish_total:
  assumes "did_wf i"
  shows "\<exists>r. publish E V now n i addr = Some r"
proof -
  obtain seed where "derive_keypair E i = Some seed" using derive_keypair_wf [OF assms] by blast
  then have "publish_force E V now n i addr \<noteq> None" by (simp add: publish_force_def)
  then show ?thesis by (auto simp: publish_def)
qed

lemma dht_lookup_total: "did_wf i \<Longrightarrow> \<exists>found. dht_lookup E V n i = Some found"
  using derive_keypair_wf [of i E] by (auto simp: dht_lookup_def Let_def)

lemma publish_cases:
  assumes "publish E V now n i addr = Some (r, n')"
  obtains (skipped) "recently_published now n i addr" "r = Inr False" "n' = n"
  | (failed) "\<not> recently_published now n i addr" "r = Inl ()" "dn_published n' = dn_published n"
  | (sent) "r = Inr True" "publish_force E V now n i addr = Some (Inr (), n')"
proof (cases "recently_published now n i addr")
  case True
  with assms show ?thesis by (intro skipped) (simp_all add: publish_def)
next
  case False
  with assms obtain r0 where r: "publish_force E V now n i addr = Some (r0, n')" "r = map_sum id (\<lambda>_. True) r0"
    by (auto simp: publish_def)
  show ?thesis
  proof (cases r0)
    case (Inl u)
    with r have "dn_published n' = dn_published n"
      by (auto simp: publish_force_def split: option.splits prod.splits sum.splits)
    with False r Inl show ?thesis by (intro failed) simp_all
  qed (use r in \<open>intro sent; simp\<close>)
qed

section \<open>Properties\<close>

text \<open>
  C32: A published node is found.  Neither publication nor lookup panics on a well-formed identifier,
  whatever the node has published before.  After a publication that reached the relay a lookup of
  the identifier returns the node with its relay and its first four direct addresses (with all of
  them in process), and publishing the same address again within the window is skipped without
  contacting the relay.  A publication is skipped only when that address was published within the
  window, and then changes nothing; a failed one is not remembered, so that the next attempt is not
  skipped on its account.
\<close>

theorem publish_then_lookup:
  assumes "dht_laws V" "did_wf i"
  shows "\<exists>r n' found. publish E V now n i addr = Some (r, n') \<and> dht_lookup E V n' i = Some found \<and>
    (case r of
       Inr True \<Rightarrow> found = Inr [if dn_addr_store n = None then advertised addr else addr] \<and>
         (\<forall>now'. now' - now < PUBLISH_DEDUP_WINDOW \<longrightarrow> publish E V now' n' i addr = Some (Inr False, n'))
     | Inr False \<Rightarrow> recently_published now n i addr \<and> n' = n
     | Inl _ \<Rightarrow> \<not> recently_published now n i addr \<and> dn_published n' = dn_published n)"
proof -
  obtain r n' where p: "publish E V now n i addr = Some (r, n')"
    using publish_total [OF assms(2), of E V now n addr] by (metis surj_pair)
  obtain found where l: "dht_lookup E V n' i = Some found" using dht_lookup_total [OF assms(2)] by blast
  from p show ?thesis
  proof (cases rule: publish_cases)
    case skipped
    with p l show ?thesis by auto
  next
    case failed
    with p l show ?thesis by auto
  next
    case sent
    note found = publish_force_lookup [OF assms(1) sent(2)]
    have "publish E V now' n' i addr = Some (Inr False, n')" if "now' - now < PUBLISH_DEDUP_WINDOW" for now'
      using found(2) that by (simp add: publish_def recently_published_def)
    with p l found(1) sent(1) show ?thesis by auto
  qed
qed

section \<open>Example\<close>

text \<open>An environment whose texts are strings themselves and whose relay is a map.\<close>

definition ex_env :: "(string, string, nat, bytes \<times> string list, (bytes, bytes \<times> string list) fmap) dht_env" where
  "ex_env = \<lparr>nid_to_string = id, nid_parse = Some, relay_to_string = id, relay_parse = Some,
     sock_to_string = (\<lambda>a. replicate a (CHR ''1'')), sock_parse = (\<lambda>s. Some (length s)), public_key_of = id,
     txt_add_string = (\<lambda>t s. if length s \<le> 255 then Some (t @ [s]) else None),
     txt_attributes = (\<lambda>t. map_of (map (\<lambda>s. case split_once (CHR ''='') s of
        None \<Rightarrow> (s, None) | Some (k, v) \<Rightarrow> (k, Some v)) t)),
     sign_packet = (\<lambda>seed name ttl t. Some (seed, t)), packet_public_key = fst,
     packet_txts = (\<lambda>p name. [snd p]), relay_publish = (\<lambda>h p. (Inr (), fmupd (fst p) p h)),
     relay_resolve = (\<lambda>h key. Inr (fmlookup h key))\<rparr>"

lemma split_once_append: "c \<notin> set x \<Longrightarrow> split_once c (x @ c # y) = Some (x, y)"
  by (induction x) auto

lemma ex_env_laws: "dht_laws ex_env"
proof -
  have "map_of (map (\<lambda>s. case split_once (CHR ''='') s of None \<Rightarrow> (s, None) | Some (k, v) \<Rightarrow> (k, Some v))
      (map attribute kvs)) = (\<lambda>k. map_option Some (map_of kvs k))"
    if "\<forall>kv\<in>set kvs. CHR ''='' \<notin> set (fst kv)" for kvs
    using that by (induction kvs) (auto simp: attribute_def split_once_append)
  then show ?thesis by (auto simp: dht_laws_def ex_env_def split: if_splits)
qed

definition ex_addr :: "(string, string, nat) node_addr" where
  "ex_addr = \<lparr>na_node_id = ''n'', na_relay_url = None, na_direct_addresses = {|1, 2, 3, 4, 5|}\<rparr>"

definition ex_held :: "u8 \<Rightarrow> did" where
  "ex_held b = from_creation_hash ref_externs (blake3 ref_externs [b])"

lemma ex_held_wf: "did_wf (ex_held b)"
  using ref_blake3_laws by (simp add: ex_held_def did_wf_def from_creation_hash_def blake3_laws_def)

text \<open>The relay of the example accepts every publication of the example address.\<close>

lemma ex_publishes:
  assumes "did_wf i" "dn_backend n = Http h"
  shows "\<exists>n' h'. publish_force ref_externs ex_env now n i ex_addr = Some (Inr (), n') \<and> dn_backend n' = Http h'"
proof -
  obtain seed where seed: "derive_keypair ref_externs i = Some seed" using derive_keypair_wf [OF assms(1)] by blast
  have small: "list_all (\<lambda>s. length s \<le> 255) (txt_strings ex_env ex_addr)"
    by (simp add: txt_strings_def ex_env_def ex_addr_def MAX_TXT_ADDRS_def sorted_list_of_fset.rep_eq)
  have "list_all (\<lambda>s. length s \<le> 255) ss \<Longrightarrow> txt_build ex_env t ss = Some (t @ ss)" for t ss
    by (induction ss arbitrary: t) (simp_all add: ex_env_def)
  note built = this [OF small, of "[]"]
  have packet: "sign_packet ex_env s nm ttl t = Some (s, t)" "relay_publish ex_env h p = (Inr (), fmupd (fst p) p h)"
    for s nm ttl t h p by (simp_all add: ex_env_def)
  show ?thesis by (simp add: publish_force_def seed backend_publish_def built packet assms(2))
qed

theorem publish_then_lookup_witness:
  "\<exists>n'. publish ref_externs ex_env 0 (new_http fmempty) (ex_held 0) ex_addr = Some (Inr True, n') \<and>
     dht_lookup ref_externs ex_env n' (ex_held 0) = Some (Inr [advertised ex_addr]) \<and>
     publish ref_externs ex_env 1000 n' (ex_held 0) ex_addr = Some (Inr False, n')"
proof -
  obtain n1 where "publish_force ref_externs ex_env 0 (new_http fmempty) (ex_held 0) ex_addr = Some (Inr (), n1)"
    using ex_publishes [OF ex_held_wf, of "new_http fmempty" fmempty] by (auto simp: new_http_def)
  then have pub: "publish ref_externs ex_env 0 (new_http fmempty) (ex_held 0) ex_addr = Some (Inr True, n1)"
    by (simp add: publish_def recently_published_def new_http_def)
  have "(1000::nat) - 0 < PUBLISH_DEDUP_WINDOW" by (simp add: PUBLISH_DEDUP_WINDOW_def)
  with publish_then_lookup [OF ex_env_laws ex_held_wf, of ref_externs 0 "new_http fmempty" 0 ex_addr] pub
  show ?thesis by (auto simp: new_http_def)
qed

end
