(* ===== verification/Server.thy ===== *)
theory Server
  imports Service Dht
begin

text \<open>
  The start of the service: the configuration (\<open>ServerConfig\<close> of \<open>src/service/server.rs\<close>) and its
  reading from the environment (\<open>src/bin/did-crdt-service.rs\<close>), the strings that name peers, the
  sequence of \<open>Server::run\<close> with its errors, the routes, and the publication of the held identifiers
  at startup and in every refresh (\<open>src/sync/dht.rs\<close>).  Opening the store, binding, dialling and
  listening are outcomes given by an environment.
\<close>

section \<open>Configuration\<close>

text \<open>\<open>'a\<close> is a socket address.\<close>

record 'a server_config =
  sc_listen_addr :: 'a
  sc_peers :: "string list"
  sc_storage_path :: "string option"
  sc_dht_relay_url :: string
  sc_disable_dht_publish :: bool
  sc_resolve_timeout_ms :: u64
  sc_dht_lookup_timeout_ms :: u64
  sc_replicate_all :: bool

definition DEFAULT_RELAY :: string where "DEFAULT_RELAY = ''https://relay.pkarr.org''"

text \<open>\<open>ServerConfig::default\<close>; \<open>None\<close> is the panic on an address that does not parse.\<close>

definition config_default :: "('n, 'u, 'a, 'p, 'h) dht_env \<Rightarrow> 'a server_config option" where
  "config_default V =
     (case sock_parse V ''127.0.0.1:8080'' of
        None \<Rightarrow> None
      | Some a \<Rightarrow> Some \<lparr>sc_listen_addr = a, sc_peers = [], sc_storage_path = None,
          sc_dht_relay_url = ''https://relay.pkarr.org'', sc_disable_dht_publish = False,
          sc_resolve_timeout_ms = 1500, sc_dht_lookup_timeout_ms = 1000, sc_replicate_all = False\<rparr>)"

text \<open>\<open>str::parse\<close> of an unsigned 64-bit number: an optional plus sign and digits, without overflow.\<close>

definition digit_value :: "char \<Rightarrow> nat option" where
  "digit_value c = (if 48 \<le> (of_char c :: nat) \<and> (of_char c :: nat) \<le> 57 then Some (of_char c - 48) else None)"

fun parse_digits :: "nat \<Rightarrow> string \<Rightarrow> nat option" where
  "parse_digits acc [] = Some acc"
| "parse_digits acc (c # cs) =
     (case digit_value c of
        None \<Rightarrow> None
      | Some d \<Rightarrow> if acc * 10 + d < 2 ^ 64 then parse_digits (acc * 10 + d) cs else None)"

definition parse_u64 :: "string \<Rightarrow> u64 option" where
  "parse_u64 s =
     (case s of
        [] \<Rightarrow> None
      | c # cs \<Rightarrow>
          if c = CHR ''+'' then (if cs = [] then None else map_option of_nat (parse_digits 0 cs))
          else map_option of_nat (parse_digits 0 s))"

text \<open>The environment variables, \<open>None\<close> where one is not set.\<close>

definition config_from_env ::
    "('n, 'u, 'a, 'p, 'h) dht_env \<Rightarrow> (string \<Rightarrow> string option) \<Rightarrow> (unit + 'a server_config) option" where
  "config_from_env V env =
     (case sock_parse V (case env ''LISTEN_ADDR'' of Some s \<Rightarrow> s | None \<Rightarrow> ''0.0.0.0:8080'') of
        None \<Rightarrow> Some (Inl ())
      | Some listen_addr \<Rightarrow>
          (case config_default V of
             None \<Rightarrow> None
           | Some defaults \<Rightarrow>
               Some (Inr
                 \<lparr>sc_listen_addr = listen_addr,
                  sc_peers = filter (\<lambda>s. s \<noteq> []) (split_on (CHR '','') (case env ''PEERS'' of Some s \<Rightarrow> s | None \<Rightarrow> [])),
                  sc_storage_path = env ''STORAGE_PATH'',
                  sc_dht_relay_url = (case env ''DHT_RELAY_URL'' of Some s \<Rightarrow> s | None \<Rightarrow> sc_dht_relay_url defaults),
                  sc_disable_dht_publish = (env ''DISABLE_DHT_PUBLISH'' = Some ''true''),
                  sc_resolve_timeout_ms =
                    (case Option.bind (env ''RESOLVE_TIMEOUT_MS'') parse_u64 of
                       Some n \<Rightarrow> n | None \<Rightarrow> sc_resolve_timeout_ms defaults),
                  sc_dht_lookup_timeout_ms =
                    (case Option.bind (env ''DHT_LOOKUP_TIMEOUT_MS'') parse_u64 of
                       Some n \<Rightarrow> n | None \<Rightarrow> sc_dht_lookup_timeout_ms defaults),
                  sc_replicate_all = (env ''REPLICATE_ALL'' = Some ''true'')\<rparr>)))"

section \<open>Peers\<close>

datatype peer_error = NoAtSign | BadNodeId | BadSocket

definition parse_peer_addr ::
    "('n, 'u, 'a, 'p, 'h) dht_env \<Rightarrow> string \<Rightarrow> peer_error + ('n, 'u, 'a) node_addr" where
  "parse_peer_addr V s =
     (case split_once (CHR ''@'') s of
        None \<Rightarrow> Inl NoAtSign
      | Some (node_id_str, addr_str) \<Rightarrow>
          (case nid_parse V node_id_str of
             None \<Rightarrow> Inl BadNodeId
           | Some nid \<Rightarrow>
               (case sock_parse V addr_str of
                  None \<Rightarrow> Inl BadSocket
                | Some socket \<Rightarrow>
                    Inr \<lparr>na_node_id = nid, na_relay_url = None, na_direct_addresses = {|socket|}\<rparr>)))"

text \<open>The strings that a node prints at its start, in the order of its addresses.\<close>

definition peer_strings :: "('n, 'u, 'a::linorder, 'p, 'h) dht_env \<Rightarrow> ('n, 'u, 'a) node_addr \<Rightarrow> string list" where
  "peer_strings V addr =
     map (\<lambda>socket. nid_to_string V (na_node_id addr) @ ''@'' @ sock_to_string V socket)
       (sorted_list_of_fset (na_direct_addresses addr))"

section \<open>Publication of held identifiers\<close>

text \<open>The loop of the publication at startup; a panic ends the task.  The clock gives the time of each publication.\<close>

fun publish_each ::
    "externs \<Rightarrow> ('n, 'u, 'a::linorder, 'p, 'h) dht_env \<Rightarrow> (did \<Rightarrow> nat) \<Rightarrow> did list \<Rightarrow> ('n, 'u, 'a) node_addr
     \<Rightarrow> ('n, 'u, 'a, 'p, 'h) dht_node \<Rightarrow> ((unit + bool) list \<times> ('n, 'u, 'a, 'p, 'h) dht_node) option" where
  "publish_each E V clock [] addr n = Some ([], n)"
| "publish_each E V clock (i # dids) addr n =
     (case publish E V (clock i) n i addr of
        None \<Rightarrow> None
      | Some (r, n1) \<Rightarrow> map_option (\<lambda>(rs, n2). (r # rs, n2)) (publish_each E V clock dids addr n1))"

text \<open>
  The background task: it takes the keys of the documents that are held when it first runs, in the
  iteration order of the hash map, which is a parameter, and publishes them one after the other.
\<close>

definition startup_dids :: "(did fset \<Rightarrow> did list) \<Rightarrow> doc_store \<Rightarrow> did list" where
  "startup_dids order docs = order (fmdom docs)"

definition startup_task ::
    "externs \<Rightarrow> ('n, 'u, 'a::linorder, 'p, 'h) dht_env \<Rightarrow> (did \<Rightarrow> nat) \<Rightarrow> (did fset \<Rightarrow> did list) \<Rightarrow> ('n, 'u, 'a) node_addr
     \<Rightarrow> doc_store \<Rightarrow> ('n, 'u, 'a, 'p, 'h) dht_node \<Rightarrow> ((unit + bool) list \<times> ('n, 'u, 'a, 'p, 'h) dht_node) option" where
  "startup_task E V clock order addr docs n = publish_each E V clock (startup_dids order docs) addr n"


text \<open>One cycle of the refresh task, which skips when the own address is unknown.\<close>

fun refresh_each ::
    "externs \<Rightarrow> ('n, 'u, 'a::linorder, 'p, 'h) dht_env \<Rightarrow> (did \<Rightarrow> nat) \<Rightarrow> did list \<Rightarrow> ('n, 'u, 'a) node_addr
     \<Rightarrow> ('n, 'u, 'a, 'p, 'h) dht_node \<Rightarrow> ((unit + unit) list \<times> ('n, 'u, 'a, 'p, 'h) dht_node) option" where
  "refresh_each E V clock [] addr n = Some ([], n)"
| "refresh_each E V clock (i # dids) addr n =
     (case publish_force E V (clock i) n i addr of
        None \<Rightarrow> None
      | Some (r, n1) \<Rightarrow> map_option (\<lambda>(rs, n2). (r # rs, n2)) (refresh_each E V clock dids addr n1))"

definition refresh_cycle ::
    "externs \<Rightarrow> ('n, 'u, 'a::linorder, 'p, 'h) dht_env \<Rightarrow> (did \<Rightarrow> nat) \<Rightarrow> did list \<Rightarrow> ('n, 'u, 'a) node_addr option
     \<Rightarrow> ('n, 'u, 'a, 'p, 'h) dht_node \<Rightarrow> ((unit + unit) list \<times> ('n, 'u, 'a, 'p, 'h) dht_node) option" where
  "refresh_cycle E V clock dids node_addr n =
     (case node_addr of None \<Rightarrow> Some ([], n) | Some addr \<Rightarrow> refresh_each E V clock dids addr n)"

text \<open>The period of the refresh, in milliseconds.\<close>

definition REFRESH_INTERVAL :: nat where "REFRESH_INTERVAL = 60 * 60 * 1000"

section \<open>The run of the server\<close>

datatype server_error = StorageUnavailable | BindFailed | SeedFailed | ListenFailed

text \<open>What the outside does at the start, with \<open>'s\<close> for the opened store.\<close>

record ('s, 'n, 'u, 'a) start_env =
  se_create_dir_all :: "string \<Rightarrow> bool"
  se_load :: "string \<Rightarrow> 's option"
  se_dht_ok :: "string \<Rightarrow> bool"
  se_bind :: bool
  se_mesh :: "(('n, 'u, 'a) node_addr, 'n) mesh"
  se_node_id :: 'n
  se_node_addr :: "('n, 'u, 'a) node_addr option"
  se_listen :: "'a \<Rightarrow> bool"


text \<open>The peers that are dialled, with the outcome; a peer string that does not parse is skipped.\<close>

definition dial_peers ::
    "('n, 'u, 'a, 'p, 'h) dht_env \<Rightarrow> ('s, 'n, 'u, 'a) start_env \<Rightarrow> string list \<Rightarrow> (('n, 'u, 'a) node_addr \<times> (unit + unit)) list" where
  "dial_peers V W peers =
     List.map_filter (\<lambda>s. case parse_peer_addr V s of
         Inl _ \<Rightarrow> None
       | Inr addr \<Rightarrow> Some (addr, node_connect (se_mesh W) na_node_id addr)) peers"




text \<open>A router on a port of the operating system, with an empty state.\<close>

definition bind_ephemeral :: "'a option \<Rightarrow> server_error + app_state \<times> 'a" where
  "bind_ephemeral local_addr = (case local_addr of None \<Rightarrow> Inl ListenFailed | Some a \<Rightarrow> Inr (app_new, a))"

text \<open>
  When the server is asked to stop: \<open>ctrl_c\<close> is the time at which that future is ready, \<open>sigterm\<close> the
  time of the signal, or the failure to listen for it.
\<close>

definition shutdown_signal :: "unit + nat option \<Rightarrow> nat option \<Rightarrow> nat option" where
  "shutdown_signal sigterm ctrl_c =
     (case sigterm of
        Inl _ \<Rightarrow> ctrl_c
      | Inr None \<Rightarrow> ctrl_c
      | Inr (Some t) \<Rightarrow> (case ctrl_c of None \<Rightarrow> Some t | Some t' \<Rightarrow> Some (min t t')))"

text \<open>The server stops at the first signal it can hear, and never without one.\<close>

lemma shutdown_signal_first:
  "shutdown_signal sigterm ctrl_c = Some t \<longleftrightarrow>
     (ctrl_c = Some t \<or> sigterm = Inr (Some t)) \<and> (\<forall>t'. ctrl_c = Some t' \<or> sigterm = Inr (Some t') \<longrightarrow> t \<le> t')"
  by (auto simp: shutdown_signal_def min_def split: sum.splits option.splits)

definition tracing_log :: "('n, 'u, 'a, 'p, 'h) dht_env \<Rightarrow> 'a server_config \<Rightarrow> string" where
  "tracing_log V config =
     ''did-crdt service listening on '' @ sock_to_string V (sc_listen_addr config) @ '' (peers: '' @
     (if sc_peers config = [] then ''none'' else join_sep '', '' (sc_peers config)) @ '', storage: '' @
     (case sc_storage_path config of Some path \<Rightarrow> path | None \<Rightarrow> ''in-memory'') @ '')''"

section \<open>Routes\<close>

datatype http_method = GET | POST | PUT | DELETE

datatype handler = HCreateDid | HMetrics | HHealth | HResolve string | HSubmit string

datatype routed = Routed handler | MethodNotAllowed | NotFound

text \<open>The routes of \<open>build_router\<close> on the segments of a path; a static segment goes before a parameter.\<close>

fun route :: "http_method \<Rightarrow> string list \<Rightarrow> routed" where
  "route m [s] =
     (if s = ''dids'' then (if m = POST then Routed HCreateDid else MethodNotAllowed)
      else if s = ''metrics'' then (if m = GET then Routed HMetrics else MethodNotAllowed)
      else if s = ''health'' then (if m = GET then Routed HHealth else MethodNotAllowed)
      else if s = [] then NotFound
      else if m = GET then Routed (HResolve s) else MethodNotAllowed)"
| "route m [a, s, b] =
     (if a = ''dids'' \<and> b = ''deltas'' \<and> s \<noteq> [] then (if m = POST then Routed (HSubmit s) else MethodNotAllowed) else NotFound)"
| "route m _ = NotFound"

lemma route_did:
  assumes "did_wf i"
  shows "route GET [did_str i] = Routed (HResolve (did_str i))" "route POST [''dids'', did_str i, ''deltas''] = Routed (HSubmit (did_str i))"
  using assms by (auto simp: did_wf_def did_prefix_def)

section \<open>The relay stub\<close>

text \<open>The relay of the end-to-end tests (\<open>src/bin/pkarr-relay-stub.rs\<close>): a map from keys to payloads.\<close>

type_synonym stub_store = "(string, bytes) fmap"

definition put_packet :: "stub_store \<Rightarrow> string \<Rightarrow> bytes \<Rightarrow> nat \<times> stub_store" where
  "put_packet m pubkey bs = (200, fmupd pubkey bs m)"

definition get_packet :: "stub_store \<Rightarrow> string \<Rightarrow> nat \<times> bytes option" where
  "get_packet m pubkey = (case fmlookup m pubkey of Some b \<Rightarrow> (200, Some b) | None \<Rightarrow> (404, None))"

text \<open>The stub answers with what was stored last under a key and keeps the other keys, as a relay should.\<close>

lemma stub_relay:
  "get_packet (snd (put_packet m k b)) k' = (if k' = k then (200, Some b) else get_packet m k')"
  by (simp add: get_packet_def put_packet_def)

section \<open>Numbers and lists in the environment\<close>

lemma digit_value_char: "d < 10 \<Longrightarrow> digit_value (char_of (48 + d)) = Some d"
  by (simp add: digit_value_def)

lemma parse_digits_dec:
  "n < 2 ^ 64 \<Longrightarrow> parse_digits 0 (dec_string n @ s) = parse_digits n s"
proof (induction n arbitrary: s rule: dec_string.induct)
  case (1 n)
  show ?case
  proof (cases "n < 10")
    case True
    with 1(2) show ?thesis by (simp add: dec_string.simps [of n] digit_value_char)
  next
    case False
    have "n div 10 < 2 ^ 64" using 1(2) by simp
    moreover have "n div 10 * 10 + n mod 10 = n" by simp
    ultimately show ?thesis
      using 1 False by (simp add: dec_string.simps [of n] digit_value_char)
  qed
qed

lemma dec_string_head: "\<exists>c cs. dec_string n = c # cs \<and> c \<noteq> CHR ''+''"
proof (induction n rule: dec_string.induct)
  case (1 n)
  have "char_of (48 + n) \<noteq> CHR ''+''" if "n < 10"
  proof
    assume "char_of (48 + n) = CHR ''+''"
    then have "(of_char (char_of (48 + n) :: char) :: nat) = of_char (CHR ''+'')" by simp
    with that show False by simp
  qed
  with 1 show ?case by (cases "n < 10") (auto simp: dec_string.simps [of n])
qed

lemma parse_u64_dec: "parse_u64 (dec_string (unat w)) = Some w"
proof -
  obtain c cs where c: "dec_string (unat w) = c # cs" "c \<noteq> CHR ''+''" using dec_string_head by blast
  have "unat w < 2 ^ 64" using unsigned_less [of w, where 'a = nat] by simp
  from parse_digits_dec [OF this, of "[]"] c show ?thesis by (simp add: parse_u64_def)
qed

text \<open>The environment that says a configuration.\<close>

definition env_of :: "('n, 'u, 'a, 'p, 'h) dht_env \<Rightarrow> 'a server_config \<Rightarrow> string \<Rightarrow> string option" where
  "env_of V c k = Option.bind (map_of
     [(''LISTEN_ADDR'', Some (sock_to_string V (sc_listen_addr c))), (''PEERS'', Some (join_sep '','' (sc_peers c))),
      (''STORAGE_PATH'', sc_storage_path c), (''DHT_RELAY_URL'', Some (sc_dht_relay_url c)),
      (''DISABLE_DHT_PUBLISH'', if sc_disable_dht_publish c then Some ''true'' else None),
      (''RESOLVE_TIMEOUT_MS'', Some (dec_string (unat (sc_resolve_timeout_ms c)))),
      (''DHT_LOOKUP_TIMEOUT_MS'', Some (dec_string (unat (sc_dht_lookup_timeout_ms c)))),
      (''REPLICATE_ALL'', if sc_replicate_all c then Some ''true'' else None)] k) id"

lemma peers_join:
  assumes "\<forall>s\<in>set peers. s \<noteq> [] \<and> CHR '','' \<notin> set s"
  shows "filter (\<lambda>s. s \<noteq> []) (split_on (CHR '','') (join_sep '','' peers)) = peers"
proof (cases "peers = []")
  case False
  then have "split_on (CHR '','') (join_sep '','' peers) = peers" using assms by (intro split_on_join) auto
  with assms show ?thesis by (simp add: filter_id_conv)
qed simp

lemma config_peers:
  assumes "config_from_env V env = Some (Inr config)" "env ''PEERS'' = Some (join_sep '','' peers)"
    "\<forall>s\<in>set peers. s \<noteq> [] \<and> CHR '','' \<notin> set s"
  shows "sc_peers config = peers"
  using assms(1,2) peers_join [OF assms(3)] by (auto simp: config_from_env_def split: option.splits)

section \<open>Records on the relay\<close>

text \<open>A publication leaves the records under other keys alone.\<close>

definition relay_keeps :: "('n, 'u, 'a, 'p, 'h) dht_env \<Rightarrow> bool" where
  "relay_keeps V \<longleftrightarrow> (\<forall>h p r h' key. relay_publish V h p = (r, h') \<and> key \<noteq> packet_public_key V p \<longrightarrow>
     relay_resolve V h' key = relay_resolve V h key)"

text \<open>The record under a key is one of this address.\<close>

definition record_of ::
    "('n, 'u, 'a::linorder, 'p, 'h) dht_env \<Rightarrow> ('n, 'u, 'a) node_addr \<Rightarrow> ('h, 'p) pkarr_backend \<Rightarrow> bytes \<Rightarrow> bool" where
  "record_of V addr k key \<longleftrightarrow>
     (\<exists>p. backend_resolve V k key = Inr (Some p) \<and> packet_txts V p RECORD_NAME = [txt_strings V addr])"

lemma publish_force_record:
  assumes laws: "dht_laws V" "relay_keeps V" and pub: "publish_force E V now n i addr = Some (Inr (), n')"
    and seed: "derive_keypair E i = Some seed"
  shows "record_of V addr (dn_backend n') (public_key_of V seed)"
    "record_of V addr (dn_backend n) key \<Longrightarrow> record_of V addr (dn_backend n') key"
    "(dn_addr_store n' = None) = (dn_addr_store n = None)"
proof -
  obtain t p k where s: "txt_build V [] (txt_strings V addr) = Some t"
    "sign_packet V seed RECORD_NAME RECORD_TTL t = Some p" "backend_publish V (dn_backend n) p = (Inr (), k)"
    "n' = n\<lparr>dn_backend := k, dn_addr_store := map_option (fmupd (public_key_of V seed) addr) (dn_addr_store n),
        dn_published := fmupd i (now, addr) (dn_published n)\<rparr>"
    using pub seed by (auto simp: publish_force_def split: option.splits prod.splits sum.splits)
  have t: "t = txt_strings V addr" using txt_build_Some [OF laws(1) s(1)] by simp
  have key: "packet_public_key V p = public_key_of V seed" by (rule dht_lawsD(7) [OF laws(1) s(2)])
  show new: "record_of V addr (dn_backend n') (public_key_of V seed)"
    using backend_publish_resolve [OF laws(1) s(3)] dht_lawsD(8) [OF laws(1) s(2)] key t s(4) by (auto simp: record_of_def)
  have other: "backend_resolve V k key = backend_resolve V (dn_backend n) key" if "key \<noteq> public_key_of V seed"
    using s(3) laws(2) that key
    by (cases "dn_backend n") (auto simp: backend_publish_def backend_resolve_def relay_keeps_def split: prod.splits, metis)
  show "record_of V addr (dn_backend n') key" if "record_of V addr (dn_backend n) key"
  proof (cases "key = public_key_of V seed")
    case True
    with new show ?thesis by simp
  next
    case False
    with that other s(4) show ?thesis by (simp add: record_of_def)
  qed
  show "(dn_addr_store n' = None) = (dn_addr_store n = None)" by (simp add: s(4))
qed

lemma record_lookup:
  assumes "dht_laws V" "derive_keypair E i = Some seed" "record_of V addr (dn_backend n) (public_key_of V seed)"
    "dn_addr_store n = None"
  shows "dht_lookup E V n i = Some (Inr [advertised addr])"
  using assms(2-) parse_txt_strings [OF assms(1), of None addr]
  by (auto simp: record_of_def dht_lookup_def Let_def List.map_filter_def)

text \<open>What a node has recorded as published at this address is on the relay.\<close>

definition published_ok ::
    "externs \<Rightarrow> ('n, 'u, 'a::linorder, 'p, 'h) dht_env \<Rightarrow> ('n, 'u, 'a) node_addr \<Rightarrow> ('n, 'u, 'a, 'p, 'h) dht_node \<Rightarrow> bool" where
  "published_ok E V addr n \<longleftrightarrow> dn_addr_store n = None \<and>
     (\<forall>i at seed. fmlookup (dn_published n) i = Some (at, addr) \<and> derive_keypair E i = Some seed \<longrightarrow>
        record_of V addr (dn_backend n) (public_key_of V seed))"

lemma publish_force_ok:
  assumes "dht_laws V" "relay_keeps V" "publish_force E V now n i addr = Some (Inr (), n')" "published_ok E V addr n"
  shows "published_ok E V addr n'"
proof -
  obtain seed where seed: "derive_keypair E i = Some seed"
    using assms(3) by (auto simp: publish_force_def split: option.splits)
  note rec = publish_force_record [OF assms(1-3) seed]
  have other: "fmlookup (dn_published n') j = fmlookup (dn_published n) j" if "j \<noteq> i" for j
    using assms(3) that by (auto simp: publish_force_def split: option.splits prod.splits sum.splits)
  show ?thesis
    unfolding published_ok_def
  proof (intro conjI allI impI)
    show "dn_addr_store n' = None" using rec(3) assms(4) by (simp add: published_ok_def)
    fix j at s
    assume j: "fmlookup (dn_published n') j = Some (at, addr) \<and> derive_keypair E j = Some s"
    show "record_of V addr (dn_backend n') (public_key_of V s)"
    proof (cases "j = i")
      case True
      with j seed rec(1) show ?thesis by simp
    next
      case False
      with j other assms(4) show ?thesis by (intro rec(2)) (auto simp: published_ok_def)
    qed
  qed
qed

text \<open>One publication that did not fail: the record is there, and so are the others.\<close>

lemma publish_record:
  assumes "dht_laws V" "relay_keeps V" "publish E V now n i addr = Some (Inr b, n')" "published_ok E V addr n"
    "derive_keypair E i = Some seed"
  shows "record_of V addr (dn_backend n') (public_key_of V seed)" "published_ok E V addr n'"
    "record_of V addr (dn_backend n) key \<Longrightarrow> record_of V addr (dn_backend n') key"
proof -
  consider "n' = n" "recently_published now n i addr" | "publish_force E V now n i addr = Some (Inr (), n')"
  proof (cases "recently_published now n i addr")
    case True
    with assms(3) that(1) show ?thesis by (simp add: publish_def)
  next
    case False
    then obtain r where "publish_force E V now n i addr = Some (r, n')" "map_sum id (\<lambda>_. True) r = Inr b"
      using assms(3) by (auto simp: publish_def)
    with that(2) show ?thesis by (cases r) auto
  qed
  then have "record_of V addr (dn_backend n') (public_key_of V seed) \<and> published_ok E V addr n' \<and>
      (record_of V addr (dn_backend n) key \<longrightarrow> record_of V addr (dn_backend n') key)"
  proof cases
    case 1
    then have "\<exists>at. fmlookup (dn_published n) i = Some (at, addr)"
      by (auto simp: recently_published_def split: option.splits)
    with 1 assms(4,5) show ?thesis by (auto simp: published_ok_def)
  next
    case 2
    with publish_force_record [OF assms(1,2) 2 assms(5)] publish_force_ok [OF assms(1,2) 2 assms(4)] show ?thesis by blast
  qed
  then show "record_of V addr (dn_backend n') (public_key_of V seed)" "published_ok E V addr n'"
    "record_of V addr (dn_backend n) key \<Longrightarrow> record_of V addr (dn_backend n') key" by blast+
qed

lemma publish_each_records:
  assumes "dht_laws V" "relay_keeps V"
  shows "publish_each E V clock dids addr n = Some (rs, n') \<Longrightarrow> published_ok E V addr n \<Longrightarrow> Inl () \<notin> set rs \<Longrightarrow>
    \<forall>i\<in>set dids. did_wf i \<Longrightarrow>
    published_ok E V addr n' \<and> (\<forall>key. record_of V addr (dn_backend n) key \<longrightarrow> record_of V addr (dn_backend n') key) \<and>
    (\<forall>i\<in>set dids. \<forall>seed. derive_keypair E i = Some seed \<longrightarrow> record_of V addr (dn_backend n') (public_key_of V seed))"
proof (induction dids arbitrary: n rs)
  case (Cons i dids)
  obtain r n1 rs' where p: "publish E V (clock i) n i addr = Some (r, n1)"
    "publish_each E V clock dids addr n1 = Some (rs', n')" "rs = r # rs'"
    using Cons.prems(1) by (auto split: option.splits)
  obtain b where r: "r = Inr b" using Cons.prems(3) p(3) by (cases r) auto
  obtain seed where seed: "derive_keypair E i = Some seed" using derive_keypair_wf Cons.prems(4) by fastforce
  note rec = publish_record [OF assms p(1) [unfolded r] Cons.prems(2) seed]
  have "published_ok E V addr n' \<and> (\<forall>key. record_of V addr (dn_backend n1) key \<longrightarrow> record_of V addr (dn_backend n') key) \<and>
      (\<forall>i\<in>set dids. \<forall>seed. derive_keypair E i = Some seed \<longrightarrow> record_of V addr (dn_backend n') (public_key_of V seed))"
    by (rule Cons.IH [OF p(2) rec(2)]) (use Cons.prems p(3) in auto)
  with rec seed show ?case by auto
qed simp

lemma publish_each_total:
  "\<forall>i\<in>set dids. did_wf i \<Longrightarrow> \<exists>rs n'. publish_each E V clock dids addr n = Some (rs, n') \<and> length rs = length dids"
proof (induction dids arbitrary: n)
  case (Cons i dids)
  obtain r n1 where "publish E V (clock i) n i addr = Some (r, n1)" using publish_total [of i E V "clock i" n addr] Cons.prems by auto
  with Cons show ?case by fastforce
qed simp

section \<open>Properties\<close>

text \<open>
  C34: The environment variables say every configuration.  A configuration whose peers are non-empty
  strings without commas is read back exactly from the variables that print it; in particular a
  timeout of 64 bits is read without loss, and a flag is set only by the word true.
\<close>

theorem config_roundtrip:
  assumes "dht_laws V" "\<forall>s\<in>set (sc_peers c). s \<noteq> [] \<and> CHR '','' \<notin> set s" "sock_parse V ''127.0.0.1:8080'' \<noteq> None"
  shows "config_from_env V (env_of V c) = Some (Inr c)"
proof -
  obtain d where d: "config_default V = Some d" using assms(3) by (auto simp: config_default_def)
  show ?thesis
    unfolding config_from_env_def d
    by (cases c) (use assms(2) in \<open>simp add: env_of_def dht_lawsD(3) [OF assms(1)] peers_join parse_u64_dec\<close>)
qed


lemma publish_each_found:
  assumes "dht_laws V" "relay_keeps V" "\<forall>i\<in>set dids. did_wf i"
  shows "\<exists>rs n. publish_each E V clock dids addr (new_http h) = Some (rs, n) \<and> length rs = length dids \<and>
    (Inl () \<notin> set rs \<longrightarrow> (\<forall>i\<in>set dids. dht_lookup E V n i = Some (Inr [advertised addr])))"
proof -
  obtain rs n where p: "publish_each E V clock dids addr (new_http h) = Some (rs, n)" "length rs = length dids"
    using publish_each_total [OF assms(3)] by blast
  have "dht_lookup E V n i = Some (Inr [advertised addr])" if "Inl () \<notin> set rs" and i: "i \<in> set dids" for i
  proof -
    obtain seed where seed: "derive_keypair E i = Some seed" using derive_keypair_wf assms(3) i by fastforce
    have "published_ok E V addr (new_http h)" by (simp add: published_ok_def new_http_def)
    from publish_each_records [OF assms(1,2) p(1) this that(1) assms(3)] seed i
    have "published_ok E V addr n" "record_of V addr (dn_backend n) (public_key_of V seed)" by auto
    with record_lookup [OF assms(1) seed] show ?thesis by (simp add: published_ok_def)
  qed
  with p show ?thesis by blast
qed


text \<open>
  C18: After the publication at startup every held identifier leads to this node.  The publication
  over well-formed identifiers never panics, and when no publication failed, a lookup of each of them
  returns the address of this node, even though later publications went to the same relay.
\<close>

theorem startup_publication:
  assumes "dht_laws V" "relay_keeps V" "\<forall>i\<in>set dids. did_wf i"
  shows "\<exists>rs n. publish_each E V clock dids addr (new_http h) = Some (rs, n) \<and> length rs = length dids \<and>
    (Inl () \<notin> set rs \<longrightarrow> (\<forall>i\<in>set dids. dht_lookup E V n i = Some (Inr [advertised addr])))"
  by (rule publish_each_found [OF assms])

text \<open>
  The peer strings that a node prints lead back to it.  A node that is given them in its
  environment dials exactly the printed addresses, each with the id of the printing node.
\<close>

theorem printed_peers_dialled:
  assumes "dht_laws V" "CHR ''@'' \<notin> set (nid_to_string V (na_node_id addr))" "CHR '','' \<notin> set (nid_to_string V (na_node_id addr))"
    "env ''PEERS'' = Some (join_sep '','' (peer_strings V addr))" "config_from_env V env = Some (Inr config)"
  shows "map fst (dial_peers V W (sc_peers config)) =
    map (\<lambda>a. \<lparr>na_node_id = na_node_id addr, na_relay_url = None, na_direct_addresses = {|a|}\<rparr>)
      (sorted_list_of_fset (na_direct_addresses addr))"
proof -
  have "\<forall>s\<in>set (peer_strings V addr). s \<noteq> [] \<and> CHR '','' \<notin> set s"
    using assms(3) dht_lawsD(4) [OF assms(1)] by (auto simp: peer_strings_def)
  from config_peers [OF assms(5,4) this] have peers: "sc_peers config = peer_strings V addr" .
  have parse: "parse_peer_addr V (nid_to_string V (na_node_id addr) @ CHR ''@'' # sock_to_string V a) =
      Inr \<lparr>na_node_id = na_node_id addr, na_relay_url = None, na_direct_addresses = {|a|}\<rparr>" for a
    using assms(2) by (simp add: parse_peer_addr_def split_once_append dht_lawsD [OF assms(1)])
  show ?thesis
    unfolding dial_peers_def peers peer_strings_def by (simp add: List.map_filter_def parse comp_def)
qed

section \<open>Example\<close>

definition ex_config :: "nat server_config" where
  "ex_config = \<lparr>sc_listen_addr = 7, sc_peers = [''n@1'', ''n@11''], sc_storage_path = Some ''data'', sc_dht_relay_url = ''r'',
     sc_disable_dht_publish = False, sc_resolve_timeout_ms = - 1, sc_dht_lookup_timeout_ms = 0, sc_replicate_all = True\<rparr>"

theorem config_roundtrip_witness:
  "config_from_env ex_env (env_of ex_env ex_config) = Some (Inr ex_config)"
  by (rule config_roundtrip [OF ex_env_laws]) (simp_all add: ex_config_def ex_env_def)

definition ex_start :: "(ex_mem, string, string, nat) start_env" where
  "ex_start = \<lparr>se_create_dir_all = (\<lambda>_. True), se_load = (\<lambda>_. Some ex_disk), se_dht_ok = (\<lambda>_. True), se_bind = True,
     se_mesh = \<lparr>me_add_node_addr = (\<lambda>_. True), me_join = (\<lambda>_. True), me_joined = (\<lambda>_. True)\<rparr>, se_node_id = ''n'', se_node_addr = None, se_listen = (\<lambda>_. True)\<rparr>"




lemma ex_relay_keeps: "relay_keeps ex_env"
  by (simp add: relay_keeps_def ex_env_def)

lemma ex_publish_each:
  "\<forall>i\<in>set dids. did_wf i \<Longrightarrow> dn_backend n = Http h \<Longrightarrow>
    publish_each ref_externs ex_env clock dids ex_addr n = Some (rs, n') \<Longrightarrow> Inl () \<notin> set rs"
proof (induction dids arbitrary: n h rs)
  case (Cons i dids)
  obtain n1 h1 where f: "publish_force ref_externs ex_env (clock i) n i ex_addr = Some (Inr (), n1)" "dn_backend n1 = Http h1"
    using ex_publishes [of i n h "clock i"] Cons.prems(1,2) by auto
  show ?case
  proof (cases "recently_published (clock i) n i ex_addr")
    case True
    with Cons show ?thesis by (auto simp: publish_def)
  next
    case False
    with Cons.prems Cons.IH [of n1 h1] f show ?thesis by (auto simp: publish_def)
  qed
qed simp

theorem startup_publication_witness:
  "\<exists>rs n. publish_each ref_externs ex_env (\<lambda>_. 0) [ex_held 0, ex_held 1] ex_addr (new_http fmempty) = Some (rs, n) \<and>
     dht_lookup ref_externs ex_env n (ex_held 0) = Some (Inr [advertised ex_addr]) \<and>
     dht_lookup ref_externs ex_env n (ex_held 1) = Some (Inr [advertised ex_addr])"
proof -
  have wf: "\<forall>i\<in>set [ex_held 0, ex_held 1]. did_wf i" by (simp add: ex_held_wf)
  from startup_publication [OF ex_env_laws ex_relay_keeps wf, of ref_externs "\<lambda>_. 0" ex_addr fmempty]
  obtain rs n where p: "publish_each ref_externs ex_env (\<lambda>_. 0) [ex_held 0, ex_held 1] ex_addr (new_http fmempty) = Some (rs, n)"
    "Inl () \<notin> set rs \<longrightarrow> (\<forall>i\<in>set [ex_held 0, ex_held 1]. dht_lookup ref_externs ex_env n i = Some (Inr [advertised ex_addr]))"
    by blast
  have "Inl () \<notin> set rs" by (rule ex_publish_each [OF wf _ p(1)]) (simp add: new_http_def)
  with p show ?thesis by auto
qed

theorem printed_peers_dialled_witness:
  "map fst (dial_peers ex_env ex_start [''n@1'', ''n@11'', ''n@111'', ''n@1111'', ''n@11111'']) =
     map (\<lambda>a. \<lparr>na_node_id = ''n'', na_relay_url = None, na_direct_addresses = {|a|}\<rparr>) [1, 2, 3, 4, 5]"
proof -
  have sorted: "sorted_list_of_fset (na_direct_addresses ex_addr) = [1, 2, 3, 4, 5]"
    by (simp add: sorted_list_of_fset.rep_eq ex_addr_def)
  have peers: "peer_strings ex_env ex_addr = [''n@1'', ''n@11'', ''n@111'', ''n@1111'', ''n@11111'']"
    by (simp add: peer_strings_def sorted) (simp add: ex_env_def ex_addr_def numeral_eq_Suc)
  let ?env = "(\<lambda>_. None)(''PEERS'' := Some (join_sep '','' (peer_strings ex_env ex_addr)))"
  obtain config where c: "config_from_env ex_env ?env = Some (Inr config)"
    by (simp add: config_from_env_def config_default_def ex_env_def)
  have "sc_peers config = peer_strings ex_env ex_addr"
    by (rule config_peers [OF c]) (simp, simp add: peers)
  moreover have "na_node_id ex_addr = ''n''" "nid_to_string ex_env ''n'' = ''n''" by (simp_all add: ex_addr_def ex_env_def)
  ultimately show ?thesis
    using printed_peers_dialled [OF ex_env_laws _ _ _ c, of ex_addr ex_start] peers by (simp add: sorted)
qed

end
