(* ===== verification/Mesh.thy ===== *)
theory Mesh
  imports Service
begin

text \<open>
  Services on one gossip topic.  A node is a service; what it broadcasts stays on the air and may be
  delivered to any node, in any order, many times or never, and anybody on the topic may send any
  bytes to any node.  The handlers are those of \<open>Service\<close> and \<open>Gossip\<close>; this theory adds only the
  network between them.
\<close>

section \<open>The network\<close>

record 'n network =
  nw_node :: "'n \<Rightarrow> app_state"
  nw_air :: "sync_message set"

text \<open>The messages among the effects of a handler.\<close>

definition sent :: "service_effect list \<Rightarrow> sync_message set" where
  "sent es = {m. BroadcastAnnounce m \<in> set es}"

definition post :: "'n network \<Rightarrow> 'n \<Rightarrow> app_state \<Rightarrow> service_effect list \<Rightarrow> 'n network" where
  "post z n st es = \<lparr>nw_node = (nw_node z)(n := st), nw_air = nw_air z \<union> sent es\<rparr>"

text \<open>A node handles a payload: one turn of its message loop.\<close>

definition receive ::
    "(bytes \<Rightarrow> sync_message option) \<Rightarrow> externs \<Rightarrow> 'n network \<Rightarrow> 'n \<Rightarrow> bytes \<Rightarrow> 'n network" where
  "receive decode E z n raw =
     (if as_live (nw_node z n)
      then (case run_loop_step decode E (as_node (nw_node z n)) raw of
              (es, n') \<Rightarrow> post z n ((nw_node z n)\<lparr>as_node := n'\<rparr>) (live_effects es))
      else z)"

text \<open>What an honest network may do: deliver a message that was broadcast.\<close>

inductive delivery ::
    "(bytes \<Rightarrow> sync_message option) \<Rightarrow> externs \<Rightarrow> 'n network \<Rightarrow> 'n network \<Rightarrow> bool" for decode E where
  deliver_msg: "m \<in> nw_air z \<Longrightarrow> decode raw = Some m \<Longrightarrow> delivery decode E z (receive decode E z n raw)"

text \<open>
  What can happen at all: a request of a client, where \<open>clients\<close> says which requests may arrive at a
  node, and any payload to any node.
\<close>

inductive net_step ::
    "('n \<Rightarrow> 'p event \<Rightarrow> bool) \<Rightarrow> (bytes \<Rightarrow> sync_message option) \<Rightarrow> (string \<Rightarrow> string) \<Rightarrow> externs \<Rightarrow> snapshots
     \<Rightarrow> 'n network \<Rightarrow> 'n network \<Rightarrow> bool"
  for clients decode dbg E X where
  net_request: "clients n ev \<Longrightarrow> serve decode dbg E X ev (nw_node z n) = (r, es, st) \<Longrightarrow>
    net_step clients decode dbg E X z (post z n st es)"
| net_inject: "net_step clients decode dbg E X z (receive decode E z n raw)"

text \<open>The document that a node holds.\<close>

abbreviation doc_at :: "'n network \<Rightarrow> 'n \<Rightarrow> did \<Rightarrow> document option" where
  "doc_at z n i \<equiv> fmlookup (as_docs (nw_node z n)) i"

definition net_ok :: "externs \<Rightarrow> 'n network \<Rightarrow> bool" where
  "net_ok E z \<longleftrightarrow> (\<forall>n. store_ok E (as_docs (nw_node z n)))"

lemma post_simps [simp]:
  "nw_node (post z n st es) = (nw_node z)(n := st)" "nw_air (post z n st es) = nw_air z \<union> sent es"
  by (simp_all add: post_def)

lemma sent_simps [simp]:
  "sent [] = {}" "sent (es @ es') = sent es \<union> sent es'"
  by (auto simp: sent_def)

lemma sent_live [simp]: "sent (live_effects es) = {m. Broadcast m \<in> set es}"
  by (induction es) (auto simp: sent_def live_effects_def List.map_filter_def split: live_effect.splits option.splits)

text \<open>Whatever happens on the topic, every document of every node keeps an authentic history.\<close>

lemma receive_ok: "net_ok E z \<Longrightarrow> net_ok E (receive decode E z n raw)"
  using run_loop_step_store_ok [of E "as_node (nw_node z n)" decode raw]
  by (auto simp: net_ok_def receive_def split: prod.splits)

lemma net_step_ok: "net_step clients decode dbg E X z z' \<Longrightarrow> net_ok E z \<Longrightarrow> net_ok E z'"
proof (induction rule: net_step.induct)
  case (net_request n ev z r es st)
  then show ?case using serve_durable [OF net_request(2)] by (auto simp: net_ok_def durable_def)
qed (rule receive_ok)

interpretation authentic_net: step_invariant "net_step clients decode dbg E X" "net_ok E"
  for clients decode dbg E X
  by unfold_locales (rule net_step_ok)

lemma delivery_net_step: "delivery decode E z z' \<Longrightarrow> net_step clients decode dbg E X z z'"
  by (induction rule: delivery.induct) (rule net_inject)

lemma delivery_run: "(delivery decode E)\<^sup>*\<^sup>* z z' \<Longrightarrow> (net_step clients decode dbg E X)\<^sup>*\<^sup>* z z'"
  by (induction rule: rtranclp.induct) (blast intro: rtranclp.rtrancl_into_rtrancl delivery_net_step)+

section \<open>Replicas of one identity\<close>

text \<open>
  The deltas of an identity: hashes and key ids are unique on them, and they have one creation.
\<close>

definition identity_ok :: "externs \<Rightarrow> signed_delta set \<Rightarrow> bool" where
  "identity_ok E D \<longleftrightarrow> crdts_laws E \<and> collision_free E D \<and> one_key_per_id D \<and>
     (\<forall>x\<in>D. \<forall>y\<in>D. sd_parents x = [] \<longrightarrow> sd_parents y = [] \<longrightarrow> payload x = payload y)"

definition replica_of :: "externs \<Rightarrow> did \<Rightarrow> signed_delta set \<Rightarrow> document \<Rightarrow> bool" where
  "replica_of E i D doc \<longleftrightarrow> authentic E doc \<and> doc_did doc = i \<and> set (doc_delta_log doc) \<subseteq> D"

abbreviation held_ids :: "document \<Rightarrow> delta_hash set" where
  "held_ids doc \<equiv> {h. dag_contains (doc_dag doc) h}"

lemma op_reach_creation:
  assumes "op_reach E doc"
  shows "\<exists>pk doc0. doc_new E pk = Inr (doc0, genesis_of doc) \<and> doc_did doc0 = doc_did doc \<and> doc_delta_log doc0 = [genesis_of doc]"
  using assms
proof (induction rule: op_reach.induct)
  case (op_new pk doc creation)
  from doc_new_effect [OF this] obtain i where "doc = apply_delta E (genesis_blank i) creation" by blast
  then have "doc_delta_log doc = [creation]" by (simp add: apply_delta_history doc_blank_def)
  with op_new show ?case by (auto simp: genesis_of_def)
next
  case (op_step doc d)
  have "doc_delta_log doc \<noteq> []" using op_reach_fold [OF op_step(1)] by simp
  then have "genesis_of (apply_delta E doc d) = genesis_of doc" by (simp add: genesis_of_def apply_delta_history)
  with op_step.IH show ?case by (simp add: apply_delta_history)
qed

lemma genesis_rootless:
  assumes "op_reach E doc"
  shows "sd_parents (genesis_of doc) = []" "genesis_of doc \<in> set (doc_delta_log doc)"
  using op_reach_creation [OF assms] doc_new_effect op_reach_fold [OF assms] by (fastforce simp: genesis_of_def)+

text \<open>Two replicas of one identity share their creation.\<close>

lemma replicas_sync:
  assumes "identity_ok E D" "replica_of E i D a" "replica_of E i D b"
  shows "sync_pair E a b"
proof -
  have sub: "set (doc_delta_log a) \<union> set (doc_delta_log b) \<subseteq> D" using assms(2,3) by (simp add: replica_of_def)
  have "op_reach E a" "op_reach E b" using assms(2,3) by (simp_all add: replica_of_def authentic_reach)
  from genesis_rootless [OF this(1)] genesis_rootless [OF this(2)] sub assms(1)
  have "payload (genesis_of a) = payload (genesis_of b)" unfolding identity_ok_def by blast
  with assms sub show ?thesis
    unfolding sync_pair_def identity_ok_def replica_of_def by (auto intro: collision_free_subset one_key_per_id_subset)
qed

lemma replica_chain:
  assumes "replica_of E i D a" "set ds \<subseteq> D"
  shows "replica_of E i D (merge_retry E ds a)"
proof -
  have chain: "verified_chain E (set ds) a (merge_retry E ds a)" using merge_retry_spec [OF subset_refl] by blast
  from verified_chain_log [OF this] obtain new where "doc_did (merge_retry E ds a) = doc_did a"
    "doc_delta_log (merge_retry E ds a) = doc_delta_log a @ new" "set new \<subseteq> set ds" by blast
  with authentic_chain [OF chain] assms show ?thesis
    unfolding replica_of_def by (simp add: subset_trans [of "set new" "set ds" D])
qed

lemma replica_frontier:
  assumes "replica_of E i D a"
  shows "set (doc_frontier a) \<subseteq> delta_id E ` D"
proof -
  have ok: "doc_ok E a" and D: "set (doc_delta_log a) \<subseteq> D" using assms by (simp_all add: replica_of_def authentic_ok)
  have "h \<in> delta_id E ` set (doc_delta_log a)" if "h \<in> set (doc_frontier a)" for h
    using that dag_okD(3) [OF doc_okD(5) [OF ok]] doc_held_iff [OF ok] by (simp add: doc_frontier_def frontier_of_def)
  with D show ?thesis by blast
qed

text \<open>Replicas with the same deltas answer alike.\<close>

lemma resolve_replicated:
  assumes "replicated doc = replicated doc'"
  shows "resolve E doc = resolve E doc'"
proof -
  have fields: "doc_did doc = doc_did doc'" "doc_verification_methods doc = doc_verification_methods doc'"
    "doc_service_endpoints doc = doc_service_endpoints doc'" "doc_document_data doc = doc_document_data doc'"
    "doc_also_known_as doc = doc_also_known_as doc'" "doc_active_key doc = doc_active_key doc'"
    "doc_revocations doc = doc_revocations doc'"
    "doc_revoked_verification_methods doc = doc_revoked_verification_methods doc'"
    "doc_deactivated doc = doc_deactivated doc'" "doc_created_ms doc = doc_created_ms doc'"
    "doc_updated_ms doc = doc_updated_ms doc'"
    using assms unfolding replicated_def by (cases doc; cases doc'; simp)+
  then have "project_entry E doc = project_entry E doc'"
    by (simp add: fun_eq_iff project_entry_def)
  with fields have "project_document E doc = project_document E doc'"
    by (simp add: project_document_def)
  moreover have "version_content_of E doc = version_content_of E doc'"
    using fields by (simp add: version_content_of_def)
  moreover have "genesis_public_key_multibase E doc = genesis_public_key_multibase E doc'"
    using fields by (simp add: genesis_public_key_multibase_def)
  ultimately show ?thesis unfolding resolve_def by (simp only: fields)
qed

lemma held_log: "op_reach E doc \<Longrightarrow> held_ids doc = delta_id E ` set (doc_delta_log doc)"
  using doc_held_iff [OF op_reach_ok] by blast

lemma same_held_payloads:
  assumes "op_reach E a" "op_reach E b" "held_ids a = held_ids b"
    "collision_free E (set (doc_delta_log a) \<union> set (doc_delta_log b))"
  shows "same_payloads a b"
proof -
  have "payload x \<in> payload ` set (doc_delta_log b)" if "x \<in> set (doc_delta_log a)"
    "delta_id E ` set (doc_delta_log a) = delta_id E ` set (doc_delta_log b)"
    "collision_free E (set (doc_delta_log a) \<union> set (doc_delta_log b))" for x a b
  proof -
    from that obtain y where "y \<in> set (doc_delta_log b)" "delta_id E x = delta_id E y" by (metis image_iff)
    with that(1) collision_freeD [OF that(3)] show ?thesis by (metis UnCI image_eqI)
  qed
  note sub = this
  have ids: "delta_id E ` set (doc_delta_log a) = delta_id E ` set (doc_delta_log b)"
    using assms(3) by (simp add: held_log [OF assms(1)] held_log [OF assms(2)])
  show ?thesis
    unfolding same_payloads_def
    using sub [OF _ ids assms(4)] sub [OF _ ids [symmetric]] assms(4) by (auto simp: Un_commute)
qed

lemma replicas_agree:
  assumes "identity_ok E D" "stamps_ok E (payload ` D)" "replica_of E i D a" "replica_of E i D b" "held_ids a = held_ids b"
  shows "replicated a = replicated b" "resolve E a = resolve E b" "doc_content_hash E a = doc_content_hash E b"
    "doc_frontier a = doc_frontier b"
proof -
  have reach: "op_reach E a" "op_reach E b" using assms(3,4) by (simp_all add: replica_of_def authentic_reach)
  have free: "collision_free E (set (doc_delta_log a) \<union> set (doc_delta_log b))"
    using replicas_sync [OF assms(1,3,4)] by (simp add: sync_pair_def)
  have "stamps_ok E (payload ` set (doc_delta_log a))"
    by (rule stamps_ok_subset [OF _ assms(2)]) (use assms(3) in \<open>auto simp: replica_of_def\<close>)
  moreover have "crdts_laws E" using assms(1) by (simp add: identity_ok_def)
  ultimately have "replicated a = replicated b \<and> doc_frontier a = doc_frontier b"
    using docs_converge [OF _ reach same_held_payloads [OF reach assms(5) free] _ free] by blast
  then show "replicated a = replicated b" "resolve E a = resolve E b" "doc_content_hash E a = doc_content_hash E b"
    "doc_frontier a = doc_frontier b"
    using resolve_replicated replicated_content_hash by blast+
qed

text \<open>Services that started empty hold replicas.\<close>

lemma fresh_replica:
  assumes "\<forall>n. as_docs (nw_node z0 n) = fmempty" "(net_step clients decode dbg E X)\<^sup>*\<^sup>* z0 z"
    "doc_at z n i = Some a" "set (doc_delta_log a) \<subseteq> D"
  shows "replica_of E i D a"
proof -
  have "net_ok E z0" using assms(1) by (simp add: net_ok_def store_ok_def)
  from authentic_net.run_inv [OF assms(2) this] assms(3) have "authentic E a \<and> doc_did a = i"
    by (auto simp: net_ok_def store_ok_def dest: fmpredD)
  with assms(4) show ?thesis by (simp add: replica_of_def)
qed

section \<open>Handling of single messages\<close>

text \<open>
  The decoder reads every message about these deltas: what nodes announce, ask for and answer can be
  put on the wire.
\<close>

definition wire_ok :: "(bytes \<Rightarrow> sync_message option) \<Rightarrow> externs \<Rightarrow> did \<Rightarrow> signed_delta set \<Rightarrow> bool" where
  "wire_ok decode E i D \<longleftrightarrow>
     (\<forall>h. \<exists>raw. decode raw = Some (Announce i h hlc_default)) \<and>
     (\<forall>f. set f \<subseteq> delta_id E ` D \<longrightarrow> (\<exists>raw. decode raw = Some (Request i f))) \<and>
     (\<forall>ds. set ds \<subseteq> D \<longrightarrow> (\<exists>raw. decode raw = Some (Deltas i ds)))"

text \<open>Steps that concern one node: the others stay, and nothing leaves the air.\<close>

definition only_at :: "'n \<Rightarrow> 'n network \<Rightarrow> 'n network \<Rightarrow> bool" where
  "only_at n z z' \<longleftrightarrow> (\<forall>k. k \<noteq> n \<longrightarrow> nw_node z' k = nw_node z k) \<and> nw_air z \<subseteq> nw_air z' \<and>
     as_live (nw_node z' n) = as_live (nw_node z n)"

lemma only_at_refl [simp]: "only_at n z z"
  by (simp add: only_at_def)

lemma only_at_trans: "only_at n z z' \<Longrightarrow> only_at n z' z'' \<Longrightarrow> only_at n z z''"
  by (auto simp: only_at_def)

text \<open>A running node that holds a replica of the identity.\<close>

definition hosts :: "externs \<Rightarrow> did \<Rightarrow> signed_delta set \<Rightarrow> 'n network \<Rightarrow> 'n \<Rightarrow> document \<Rightarrow> bool" where
  "hosts E i D z n doc \<longleftrightarrow> as_live (nw_node z n) \<and> doc_at z n i = Some doc \<and> replica_of E i D doc"

lemma only_at_hosts: "only_at n z z' \<Longrightarrow> k \<noteq> n \<Longrightarrow> hosts E i D z' k doc = hosts E i D z k doc"
  by (simp add: only_at_def hosts_def)

lemma receive_announce:
  assumes "as_live (nw_node z n)" "decode raw = Some (Announce i h c)" "doc_at z n i = Some a"
    "(i, h) |\<notin>| gossip_seen (ln_gossip (as_node (nw_node z n)))"
  shows "only_at n z (receive decode E z n raw)" "doc_at (receive decode E z n raw) n i = Some a"
    "Request i (doc_frontier a) \<in> nw_air (receive decode E z n raw)"
  using assms by (auto simp: receive_def run_loop_step_def handle_def mark_seen_def only_at_def)

lemma receive_request:
  assumes "as_live (nw_node z n)" "decode raw = Some (Request i f)" "doc_at z n i = Some b"
    "doc_deltas_for_peer E b f = Inr ds"
  shows "receive decode E z n raw = z\<lparr>nw_air := nw_air z \<union> (if ds = [] then {} else {Deltas i ds})\<rparr>"
proof -
  have "nw_node z = (nw_node z)(n := (nw_node z n)\<lparr>as_node := (as_node (nw_node z n))\<lparr>ln_gossip := ln_gossip (as_node (nw_node z n))\<rparr>\<rparr>)"
    by simp
  with assms show ?thesis by (cases z) (simp add: receive_def run_loop_step_def handle_def post_def)
qed

lemma receive_deltas:
  assumes "as_live (nw_node z n)" "decode raw = Some (Deltas i ds)" "doc_at z n i = Some a"
  shows "only_at n z (receive decode E z n raw)"
    "doc_at (receive decode E z n raw) n i = Some (merge_retry E ds a)"
proof -
  let ?st = "nw_node z n"
  obtain es where "run_loop_step decode E (as_node ?st) raw =
      (es, (as_node ?st)\<lparr>ln_docs := fmupd i (merge_retry E ds a) (as_docs ?st)\<rparr>)"
    using assms by (simp add: run_loop_step_def handle_def merge_inbound_def merge_known_def)
  with assms(1) show "only_at n z (receive decode E z n raw)"
    "doc_at (receive decode E z n raw) n i = Some (merge_retry E ds a)"
    by (simp_all add: receive_def only_at_def)
qed

section \<open>Catching up\<close>

text \<open>One responder: its answer to an earlier request completes the document of the requester.\<close>

lemma pull_one:
  assumes ok: "identity_ok E D" "wire_ok decode E i D"
    and req: "Request i (doc_frontier a0) \<in> nw_air z" "replica_of E i D a0" "held_ids a0 \<subseteq> held_ids a"
    and hosts: "hosts E i D z n a" "hosts E i D z m b"
  shows "\<exists>z' a'. (delivery decode E)\<^sup>*\<^sup>* z z' \<and> only_at n z z' \<and> hosts E i D z' n a' \<and> held_ids a' = held_ids a \<union> held_ids b"
proof -
  note a = hosts(1) [unfolded hosts_def] and b = hosts(2) [unfolded hosts_def]
  note pair = replicas_sync [OF ok(1)]
  obtain ds where ds: "doc_deltas_for_peer E b (doc_frontier a0) = Inr ds" "set ds \<subseteq> set (doc_delta_log b)"
    "held_ids (merge_retry E ds a) = held_ids a \<union> held_ids b"
    using deltas_for_peer_round [OF pair pair req(3)] req(2) a b by blast
  have D: "set ds \<subseteq> D" using ds(2) b by (auto simp: replica_of_def)
  obtain rq where rq: "decode rq = Some (Request i (doc_frontier a0))"
    using ok(2) replica_frontier [OF req(2)] unfolding wire_ok_def by blast
  let ?z = "receive decode E z m rq"
  have z: "?z = z\<lparr>nw_air := nw_air z \<union> (if ds = [] then {} else {Deltas i ds})\<rparr>"
    by (rule receive_request [where b = b and f = "doc_frontier a0"]) (use b rq ds(1) in auto)
  have step: "delivery decode E z ?z" by (rule deliver_msg) (rule req(1), rule rq)
  show ?thesis
  proof (cases "ds = []")
    case True
    then have "held_ids a = held_ids a \<union> held_ids b" using ds(3) by (simp add: merge_retry.simps)
    with hosts(1) show ?thesis by (intro exI [of _ z] exI [of _ a]) auto
  next
    case False
    obtain raw where raw: "decode raw = Some (Deltas i ds)" using ok(2) D unfolding wire_ok_def by blast
    let ?z' = "receive decode E ?z n raw"
    have "delivery decode E ?z ?z'" by (rule deliver_msg [where m = "Deltas i ds"]) (simp add: z False, rule raw)
    with step have run: "(delivery decode E)\<^sup>*\<^sup>* z ?z'" by (meson converse_rtranclp_into_rtranclp rtranclp.rtrancl_refl)
    have "only_at n z ?z" "as_live (nw_node ?z n)" "doc_at ?z n i = Some a" using a by (simp_all add: z only_at_def)
    note z1 = this
    have got: "only_at n ?z ?z'" "doc_at ?z' n i = Some (merge_retry E ds a)"
      by (rule receive_deltas; rule z1 raw)+
    then have at: "only_at n z ?z'" "doc_at ?z' n i = Some (merge_retry E ds a)"
      using only_at_trans [OF z1(1)] by blast+
    then have "hosts E i D ?z' n (merge_retry E ds a)"
      using a replica_chain [OF _ D] by (simp add: hosts_def only_at_def)
    with run at(1) ds(3) show ?thesis by blast
  qed
qed

text \<open>All responders, one after the other.\<close>

lemma pull_all:
  assumes ok: "identity_ok E D" "wire_ok decode E i D"
    and "Request i (doc_frontier a0) \<in> nw_air z" "replica_of E i D a0" "held_ids a0 \<subseteq> held_ids a" "hosts E i D z n a"
    "n \<notin> set ms" "\<forall>m\<in>set ms. hosts E i D z m (f m)"
  shows "\<exists>z' a'. (delivery decode E)\<^sup>*\<^sup>* z z' \<and> only_at n z z' \<and> hosts E i D z' n a' \<and>
    held_ids a' = held_ids a \<union> (\<Union>m\<in>set ms. held_ids (f m))"
  using assms(3-)
proof (induction ms arbitrary: z a)
  case Nil
  then show ?case by (intro exI [of _ z] exI [of _ a]) auto
next
  case (Cons m ms)
  have "hosts E i D z m (f m)" using Cons.prems(6) by simp
  from pull_one [OF ok Cons.prems(1-4) this] obtain z1 a1 where z1: "(delivery decode E)\<^sup>*\<^sup>* z z1" "only_at n z z1"
    "hosts E i D z1 n a1" "held_ids a1 = held_ids a \<union> held_ids (f m)" by blast
  have "\<exists>z' a'. (delivery decode E)\<^sup>*\<^sup>* z1 z' \<and> only_at n z1 z' \<and> hosts E i D z' n a' \<and>
      held_ids a' = held_ids a1 \<union> (\<Union>m\<in>set ms. held_ids (f m))"
  proof (rule Cons.IH [OF _ Cons.prems(2) _ z1(3)])
    show "Request i (doc_frontier a0) \<in> nw_air z1" using z1(2) Cons.prems(1) by (auto simp: only_at_def)
    show "held_ids a0 \<subseteq> held_ids a1" using Cons.prems(3) z1(4) by blast
    show "n \<notin> set ms" using Cons.prems(5) by simp
    show "\<forall>k\<in>set ms. hosts E i D z1 k (f k)" using Cons.prems(5,6) only_at_hosts [OF z1(2)] by (metis list.set_intros(2))
  qed
  then obtain z' a' where z': "(delivery decode E)\<^sup>*\<^sup>* z1 z'" "only_at n z1 z'" "hosts E i D z' n a'"
    "held_ids a' = held_ids a1 \<union> (\<Union>m\<in>set ms. held_ids (f m))" by blast
  have "held_ids a' = held_ids a \<union> (\<Union>k\<in>set (m # ms). held_ids (f k))" unfolding z'(4) z1(4) by auto
  with rtranclp_trans [OF z1(1) z'(1)] only_at_trans [OF z1(2) z'(2)] z'(3) show ?case by blast
qed

text \<open>A node that has not heard some announcement on the air asks, and everybody answers.\<close>

definition unheard :: "did \<Rightarrow> 'n network \<Rightarrow> 'n \<Rightarrow> bool" where
  "unheard i z n \<longleftrightarrow> (\<exists>h. Announce i h hlc_default \<in> nw_air z \<and> (i, h) |\<notin>| gossip_seen (ln_gossip (as_node (nw_node z n))))"

lemma only_at_unheard: "only_at n z z' \<Longrightarrow> k \<noteq> n \<Longrightarrow> unheard i z k \<Longrightarrow> unheard i z' k"
  by (auto simp: only_at_def unheard_def)

lemma catch_up:
  assumes ok: "identity_ok E D" "wire_ok decode E i D" and "unheard i z n" "hosts E i D z n a"
    "n \<notin> set ms" "\<forall>m\<in>set ms. hosts E i D z m (f m)"
  shows "\<exists>z' a'. (delivery decode E)\<^sup>*\<^sup>* z z' \<and> only_at n z z' \<and> hosts E i D z' n a' \<and>
    held_ids a' = held_ids a \<union> (\<Union>m\<in>set ms. held_ids (f m))"
proof -
  note a = assms(4) [unfolded hosts_def]
  obtain h where an: "Announce i h hlc_default \<in> nw_air z" "(i, h) |\<notin>| gossip_seen (ln_gossip (as_node (nw_node z n)))"
    using assms(3) by (auto simp: unheard_def)
  obtain raw where raw: "decode raw = Some (Announce i h hlc_default)" using ok(2) unfolding wire_ok_def by blast
  let ?z = "receive decode E z n raw"
  have at: "only_at n z ?z" "doc_at ?z n i = Some a" "Request i (doc_frontier a) \<in> nw_air ?z"
    using receive_announce [of z n decode raw i h hlc_default a E] a raw an(2) by blast+
  have "hosts E i D ?z n a" using a at by (simp add: hosts_def only_at_def)
  moreover have "\<forall>m\<in>set ms. hosts E i D ?z m (f m)" using assms(5,6) only_at_hosts [OF at(1)] by metis
  ultimately obtain z' a' where "(delivery decode E)\<^sup>*\<^sup>* ?z z'" "only_at n ?z z'" "hosts E i D z' n a'"
    "held_ids a' = held_ids a \<union> (\<Union>m\<in>set ms. held_ids (f m))"
    using pull_all [OF ok at(3) _ subset_refl _ assms(5)] a by blast
  moreover have "delivery decode E z ?z" by (rule deliver_msg) (rule an(1), rule raw)
  ultimately show ?thesis using only_at_trans [OF at(1)] by (meson converse_rtranclp_into_rtranclp)
qed

lemma all_catch_up:
  assumes ok: "identity_ok E D" "wire_ok decode E i D" and "distinct todo" "distinct ns" "set todo \<subseteq> set ns"
    "\<forall>n\<in>set todo. unheard i z n" "\<forall>n\<in>set ns. hosts E i D z n (f n)" "(\<Union>n\<in>set ns. held_ids (f n)) = U"
    "\<forall>n\<in>set ns - set todo. held_ids (f n) = U"
  shows "\<exists>z' f'. (delivery decode E)\<^sup>*\<^sup>* z z' \<and> (\<forall>n\<in>set ns. hosts E i D z' n (f' n) \<and> held_ids (f' n) = U)"
  using assms(3-)
proof (induction todo arbitrary: z f)
  case Nil
  then show ?case by (intro exI [of _ z] exI [of _ f]) auto
next
  case (Cons n todo)
  have n: "n \<in> set ns" "unheard i z n" "hosts E i D z n (f n)" using Cons.prems(3-5) by auto
  let ?others = "remove1 n ns"
  have others: "set ?others = set ns - {n}" using Cons.prems(2) by (simp add: set_remove1_eq)
  then have "n \<notin> set ?others" "\<forall>m\<in>set ?others. hosts E i D z m (f m)" using Cons.prems(5) by auto
  from catch_up [OF ok n(2,3) this] obtain z1 a1 where z1: "(delivery decode E)\<^sup>*\<^sup>* z z1" "only_at n z z1" "hosts E i D z1 n a1"
    "held_ids a1 = held_ids (f n) \<union> (\<Union>m\<in>set ?others. held_ids (f m))" by blast
  have a1: "held_ids a1 = U" unfolding z1(4) others Cons.prems(6) [symmetric] using n(1) by auto
  let ?f = "f(n := a1)"
  have "\<exists>z' f'. (delivery decode E)\<^sup>*\<^sup>* z1 z' \<and> (\<forall>n\<in>set ns. hosts E i D z' n (f' n) \<and> held_ids (f' n) = U)"
  proof (rule Cons.IH [of z1 ?f])
    show "distinct todo" "distinct ns" "set todo \<subseteq> set ns" using Cons.prems(1-3) by auto
    show "\<forall>k\<in>set todo. unheard i z1 k" using Cons.prems(1,4) by (auto intro!: only_at_unheard [OF z1(2)])
    show "\<forall>k\<in>set ns. hosts E i D z1 k (?f k)" using Cons.prems(5) z1(3) only_at_hosts [OF z1(2)] by auto
    have "held_ids (?f k) \<subseteq> U" if "k \<in> set ns" for k using that Cons.prems(6) a1 by auto
    moreover have "held_ids (?f n) = U" using a1 by simp
    ultimately show "(\<Union>k\<in>set ns. held_ids (?f k)) = U" using n(1) by blast
    show "\<forall>k\<in>set ns - set todo. held_ids (?f k) = U" using Cons.prems(7) a1 by auto
  qed
  with z1(1) show ?case by (meson rtranclp_trans)
qed

section \<open>Bootstrap from the answer of a holder\<close>

lemma filter_one:
  assumes "distinct xs" "x \<in> set xs" "P x" "\<And>y. y \<in> set xs \<Longrightarrow> P y \<Longrightarrow> y = x"
  shows "filter P xs = [x]"
proof -
  have "filter P xs = filter (\<lambda>y. y = x) xs" using assms(3,4) by (intro filter_cong) auto
  also have "\<dots> = [x]" using assms(1,2) by (induction xs) (auto simp: filter_empty_conv)
  finally show ?thesis .
qed

text \<open>A request with an empty frontier is answered with the whole history, each delta once.\<close>

lemma full_answer:
  assumes "op_reach E b"
  shows "\<exists>ds. doc_deltas_for_peer E b [] = Inr ds \<and> distinct ds \<and> set ds = set (doc_delta_log b)"
proof -
  have ok: "doc_ok E b" using assms by (rule op_reach_ok)
  have new: "dag_agree (doc_dag b) dag_new" "dag_complete dag_new" "frontier_of dag_new = []" "\<not> dag_contains dag_new h" for h
    by (simp_all add: dag_agree_def dag_get_def dag_new_def dag_contains_def frontier_of_def sorted_list_of_fset.rep_eq) code_simp
  from deltas_for_peer_covers [OF doc_okD(5) [OF ok] dag_new_ok new(1) doc_okD(4) [OF ok] new(2) op_reach_acyclic [OF assms]]
  obtain ds where ds: "doc_deltas_for_peer E b [] = Inr ds" "distinct (map (delta_id E) ds)"
    "set ds \<subseteq> {d. \<exists>h. dag_get (doc_dag b) h = Some d}" "held_ids b \<subseteq> delta_id E ` set ds"
    using new(3,4) by (auto simp: doc_deltas_for_peer_def)
  have sub: "set ds \<subseteq> set (doc_delta_log b)" using ds(3) unfolding doc_get_iff [OF ok] by blast
  have inj: "inj_on (delta_id E) (set (doc_delta_log b))" using doc_okD(2) [OF ok] by (simp add: distinct_map)
  have "x \<in> set ds" if "x \<in> set (doc_delta_log b)" for x
    using that sub ds(4) inj_on_image_mem_iff [OF inj that sub] unfolding held_log [OF assms] by blast
  then have "set (doc_delta_log b) \<subseteq> set ds" by blast
  with sub ds(1,2) show ?thesis by (auto simp: distinct_map)
qed

lemma bootstrap_full:
  assumes ok: "identity_ok E D" and b: "replica_of E i D b" and ds: "distinct ds" "set ds = set (doc_delta_log b)"
  shows "\<exists>doc. genesis_bootstrap E docs i ds = (Inr (), fmupd i doc docs) \<and> replica_of E i D doc \<and> held_ids doc = held_ids b"
proof -
  have reach: "op_reach E b" and i: "doc_did b = i" using b by (simp_all add: replica_of_def authentic_reach)
  have E: "crdts_laws E" using ok by (simp add: identity_ok_def)
  let ?g = "genesis_of b" and ?rest = "filter (\<lambda>d. sd_parents d \<noteq> []) ds"
  obtain pk doc0 where g: "doc_new E pk = Inr (doc0, ?g)" "doc_did doc0 = i" "doc_delta_log doc0 = [?g]"
    using op_reach_creation [OF reach] i by blast
  obtain k s rs where op: "sd_op ?g = AddVerificationMethod k pk s rs" using doc_new_effect [OF g(1)] by blast
  have roots: "filter (\<lambda>d. sd_parents d = []) ds = [?g]"
  proof (rule filter_one [OF ds(1)])
    show "?g \<in> set ds" "sd_parents ?g = []" using genesis_rootless [OF reach] ds(2) by auto
    show "y = ?g" if "y \<in> set ds" "sd_parents y = []" for y
      using that op_reach_log [OF reach E] ds(2) by (cases rule: logged_cases [OF reach, of y]) auto
  qed
  let ?doc = "merge_retry E ?rest doc0"
  have boot: "genesis_bootstrap E docs i ds = (Inr (), fmupd i ?doc docs)"
    using roots op g(1,2) by (simp add: genesis_bootstrap_def merge_known_def)
  have doc0: "replica_of E i D doc0"
    using auth_new [OF g(1)] g(2,3) b genesis_rootless(2) [OF reach] by (auto simp: replica_of_def)
  have rest: "set ?rest \<subseteq> set (doc_delta_log b)" using ds(2) by auto
  have doc: "replica_of E i D ?doc" by (rule replica_chain [OF doc0]) (use rest b in \<open>auto simp: replica_of_def\<close>)
  note pair = replicas_sync [OF ok doc0 b]
  have split: "x = ?g \<or> x \<in> set ?rest" if "x \<in> set (doc_delta_log b)" for x
    using that op_reach_log [OF reach E] ds(2) by (cases rule: logged_cases [OF reach that]) auto
  have held0: "dag_contains (doc_dag doc0) (delta_id E ?g)"
    using held_log [OF op_new [OF g(1)]] g(3) by auto
  have "\<forall>d\<in>set ?rest. \<forall>p\<in>set (sd_parents d). dag_contains (doc_dag doc0) p \<or> p \<in> delta_id E ` set ?rest"
    using doc_parents_held [OF op_reach_ok [OF reach]] rest split held0 held_log [OF reach] by blast
  note all = retry_merges_all [OF pair rest this]
  have chain: "verified_chain E (set (doc_delta_log b)) doc0 ?doc" using merge_retry_spec [OF rest] by blast
  have "delta_id E x \<in> held_ids ?doc" if "x \<in> set (doc_delta_log b)" for x
    using split [OF that] all chain_keeps [OF chain held0] by auto
  moreover have "set (doc_delta_log ?doc) \<subseteq> set (doc_delta_log b)"
    using verified_chain_log [OF chain] g(3) genesis_rootless(2) [OF reach] by auto
  ultimately have "held_ids ?doc = held_ids b"
    using held_log [OF reach] held_log [OF authentic_reach, of E ?doc] doc by (auto simp: replica_of_def)
  with boot doc show ?thesis by blast
qed

lemma receive_bootstrap:
  assumes "as_live (nw_node z n)" "decode raw = Some (Deltas i ds)" "doc_at z n i = None"
    "wants (ln_policy (as_node (nw_node z n))) i" "genesis_bootstrap E (as_docs (nw_node z n)) i ds = (Inr (), docs)"
  shows "as_docs (nw_node (receive decode E z n raw) n) = docs"
  using assms by (simp add: receive_def run_loop_step_def handle_def merge_inbound_def)

section \<open>Properties\<close>

text \<open>
  C4: Nodes that hold the same deltas answer alike, whatever happened on the network.  Services
  start empty; clients send any requests, and anybody on the topic sends any bytes to any node, in
  any order.  Then every document that a node holds has an authentic history, and two nodes that hold
  the same deltas of an identity give the same resolution, announce the same hash and ask peers with
  the same frontier.
\<close>

theorem nodes_agree:
  assumes "identity_ok E D" "stamps_ok E (payload ` D)" "\<forall>n. as_docs (nw_node z0 n) = fmempty"
    "(net_step clients decode dbg E X)\<^sup>*\<^sup>* z0 z" "doc_at z n i = Some a" "doc_at z m i = Some b"
    "set (doc_delta_log a) \<union> set (doc_delta_log b) \<subseteq> D" "held_ids a = held_ids b"
  shows "authentic E a \<and> authentic E b \<and> resolve E a = resolve E b \<and>
    doc_content_hash E a = doc_content_hash E b \<and> doc_frontier a = doc_frontier b"
proof -
  have "replica_of E i D a" "replica_of E i D b"
    using fresh_replica [OF assms(3,4,5)] fresh_replica [OF assms(3,4,6)] assms(7) by auto
  with replicas_agree [OF assms(1,2) this assms(8)] show ?thesis by (simp add: replica_of_def)
qed

text \<open>
  C3: Gossip makes any number of nodes equal.  After any requests and any traffic, forged messages
  included, take running nodes that hold documents of one identity, each with an announcement of it on
  the air that it has not heard.  Then the network only has to deliver what the nodes themselves
  broadcast for every one of them to hold exactly the deltas that any of them held, and to give the
  same resolution and announce the same hash as the others.
\<close>

theorem mesh_converges:
  assumes "identity_ok E D" "stamps_ok E (payload ` D)" "wire_ok decode E i D" "\<forall>n. as_docs (nw_node z0 n) = fmempty"
    "(net_step clients decode dbg E X)\<^sup>*\<^sup>* z0 z" "finite N"
    "\<forall>n\<in>N. as_live (nw_node z n) \<and> unheard i z n \<and> doc_at z n i = Some (f n) \<and> set (doc_delta_log (f n)) \<subseteq> D"
  shows "\<exists>z' f'. (delivery decode E)\<^sup>*\<^sup>* z z' \<and>
    (\<forall>n\<in>N. doc_at z' n i = Some (f' n) \<and> authentic E (f' n) \<and> held_ids (f' n) = (\<Union>m\<in>N. held_ids (f m))) \<and>
    (\<forall>n\<in>N. \<forall>m\<in>N. resolve E (f' n) = resolve E (f' m) \<and> doc_content_hash E (f' n) = doc_content_hash E (f' m))"
proof -
  obtain ns where ns: "set ns = N" "distinct ns" using finite_distinct_list [OF assms(6)] by blast
  have hosts: "hosts E i D z n (f n) \<and> unheard i z n" if "n \<in> set ns" for n
  proof -
    have n: "as_live (nw_node z n)" "unheard i z n" "doc_at z n i = Some (f n)" "set (doc_delta_log (f n)) \<subseteq> D"
      using assms(7) that unfolding ns(1) by blast+
    from fresh_replica [OF assms(4,5) n(3,4)] n show ?thesis unfolding hosts_def by blast
  qed
  have "\<exists>z' f'. (delivery decode E)\<^sup>*\<^sup>* z z' \<and> (\<forall>n\<in>set ns. hosts E i D z' n (f' n) \<and> held_ids (f' n) = (\<Union>m\<in>set ns. held_ids (f m)))"
  proof (rule all_catch_up [OF assms(1,3) ns(2,2) subset_refl])
    show "\<forall>n\<in>set ns. unheard i z n" "\<forall>n\<in>set ns. hosts E i D z n (f n)" using hosts by blast+
  qed simp_all
  then obtain z' f' where z': "(delivery decode E)\<^sup>*\<^sup>* z z'"
    "\<forall>n\<in>N. hosts E i D z' n (f' n) \<and> held_ids (f' n) = (\<Union>m\<in>N. held_ids (f m))" unfolding ns(1) by blast
  have at: "hosts E i D z' n (f' n)" "held_ids (f' n) = (\<Union>m\<in>N. held_ids (f m))" if "n \<in> N" for n
    using z'(2) that by blast+
  have rep: "replica_of E i D (f' n)" if "n \<in> N" for n using at(1) [OF that] unfolding hosts_def by blast
  have "resolve E (f' n) = resolve E (f' m) \<and> doc_content_hash E (f' n) = doc_content_hash E (f' m)"
    if n: "n \<in> N" and m: "m \<in> N" for n m
  proof -
    have "held_ids (f' n) = held_ids (f' m)" by (rule trans [OF at(2) [OF n] at(2) [OF m, symmetric]])
    from replicas_agree(2,3) [OF assms(1,2) rep [OF n] rep [OF m] this] show ?thesis by blast
  qed
  moreover have "doc_at z' n i = Some (f' n) \<and> authentic E (f' n) \<and> held_ids (f' n) = (\<Union>m\<in>N. held_ids (f m))" if "n \<in> N" for n
    using at [OF that] unfolding hosts_def replica_of_def by blast
  ultimately show ?thesis using z'(1) by blast
qed

text \<open>
  C5: A holder brings up a node that starts from nothing.  A running node that wants an identity and
  does not hold it, whose request with an empty frontier is on the air, is brought by two deliveries to
  a document with an authentic history, exactly the deltas of the holder, and its resolution; the
  holder need not be trusted for this.
\<close>

theorem bootstrap_completes:
  assumes "identity_ok E D" "stamps_ok E (payload ` D)" "wire_ok decode E i D" "\<forall>n. as_docs (nw_node z0 n) = fmempty"
    "(net_step clients decode dbg E X)\<^sup>*\<^sup>* z0 z" "as_live (nw_node z n)" "as_live (nw_node z m)"
    "doc_at z n i = None" "wants (ln_policy (as_node (nw_node z n))) i" "Request i [] \<in> nw_air z"
    "doc_at z m i = Some b" "set (doc_delta_log b) \<subseteq> D"
  shows "\<exists>z' a. (delivery decode E)\<^sup>*\<^sup>* z z' \<and> doc_at z' n i = Some a \<and> authentic E a \<and> held_ids a = held_ids b \<and>
    resolve E a = resolve E b \<and> doc_content_hash E a = doc_content_hash E b"
proof -
  have b: "replica_of E i D b" by (rule fresh_replica [OF assms(4,5,11,12)])
  then have reach: "op_reach E b" by (simp add: replica_of_def authentic_reach)
  obtain ds where ds: "doc_deltas_for_peer E b [] = Inr ds" "distinct ds" "set ds = set (doc_delta_log b)"
    using full_answer [OF reach] by blast
  have some: "ds \<noteq> []" using ds(3) op_reach_fold [OF reach] by auto
  obtain rq raw where w: "decode rq = Some (Request i [])" "decode raw = Some (Deltas i ds)"
    using assms(3,12) ds(3) unfolding wire_ok_def by (metis empty_subsetI list.set(1))
  let ?z = "receive decode E z m rq"
  have z: "?z = z\<lparr>nw_air := insert (Deltas i ds) (nw_air z)\<rparr>"
    using receive_request [of z m decode rq i "[]" b E ds] assms(7,11) w(1) ds(1) some by simp
  let ?z' = "receive decode E ?z n raw"
  have "delivery decode E z ?z" by (rule deliver_msg) (rule assms(10), rule w(1))
  moreover have "delivery decode E ?z ?z'" by (rule deliver_msg [where m = "Deltas i ds"]) (simp add: z, rule w(2))
  ultimately have run: "(delivery decode E)\<^sup>*\<^sup>* z ?z'" by (meson converse_rtranclp_into_rtranclp rtranclp.rtrancl_refl)
  obtain a where a: "genesis_bootstrap E (as_docs (nw_node ?z n)) i ds = (Inr (), fmupd i a (as_docs (nw_node ?z n)))"
    "replica_of E i D a" "held_ids a = held_ids b"
    using bootstrap_full [OF assms(1) b ds(2,3)] by blast
  have "as_docs (nw_node ?z' n) = fmupd i a (as_docs (nw_node ?z n))"
    by (rule receive_bootstrap [where i = i and ds = ds]) (use assms(6,8,9) w(2) a(1) in \<open>simp_all add: z\<close>)
  then have "doc_at ?z' n i = Some a" by simp
  with run a(2,3) replicas_agree(2,3) [OF assms(1,2) a(2) b a(3)] show ?thesis unfolding replica_of_def by blast
qed

section \<open>A network of two services\<close>

text \<open>The wire of the example: a tag byte, then the hash, or the deltas one byte each.\<close>

definition ex_pick :: "u8 \<Rightarrow> signed_delta" where
  "ex_pick b = (if b = 0 then ex_creation else if b = 1 then ex_update else ex_service)"

definition ex_wire :: "bytes \<Rightarrow> sync_message option" where
  "ex_wire raw = (case raw of [] \<Rightarrow> None | k # rest \<Rightarrow>
     if k = 1 then Some (Request ex_did (map (\<lambda>b. delta_id ex_externs (ex_pick b)) rest))
     else if k = 2 then Some (Deltas ex_did (map ex_pick rest))
     else if k = 3 then Some (Announce ex_did rest hlc_default) else None)"

abbreviation ex_deltas :: "signed_delta set" where
  "ex_deltas \<equiv> {ex_creation, ex_update, ex_service}"

abbreviation ex_clients :: "bool \<Rightarrow> unit event \<Rightarrow> bool" where
  "ex_clients \<equiv> \<lambda>_ _. True"

definition ex_net :: "bool network" where
  "ex_net = \<lparr>nw_node = \<lambda>_. start ex_externs ex_snapshots ex_blobs None False True 1500, nw_air = {}\<rparr>"

abbreviation ex_run :: "bool network \<Rightarrow> bool network \<Rightarrow> bool" where
  "ex_run \<equiv> (net_step ex_clients ex_wire id ex_externs ex_snapshots)\<^sup>*\<^sup>*"

lemma ex_pick_surj: "d \<in> ex_deltas \<Longrightarrow> \<exists>b. d = ex_pick b"
proof -
  have "ex_pick 0 = ex_creation" "ex_pick 1 = ex_update" "ex_pick 2 = ex_service" by (simp_all add: ex_pick_def)
  then show "d \<in> ex_deltas \<Longrightarrow> \<exists>b. d = ex_pick b" by (metis empty_iff insert_iff)
qed

lemma ex_wire_ok: "wire_ok ex_wire ex_externs ex_did ex_deltas"
  unfolding wire_ok_def
proof (intro conjI allI impI)
  fix h f ds
  show "\<exists>raw. ex_wire raw = Some (Announce ex_did h hlc_default)"
    by (rule exI [of _ "3 # h"]) (simp add: ex_wire_def)
  assume f: "set f \<subseteq> delta_id ex_externs ` ex_deltas"
  have "\<exists>b. x = delta_id ex_externs (ex_pick b)" if x: "x \<in> set f" for x
  proof -
    from f x obtain d where "d \<in> ex_deltas" "x = delta_id ex_externs d" by blast
    with ex_pick_surj [of d] show ?thesis by blast
  qed
  then obtain xs where "f = map (\<lambda>b. delta_id ex_externs (ex_pick b)) xs"
    using ex_map_conv [of f "\<lambda>b. delta_id ex_externs (ex_pick b)"] by blast
  then show "\<exists>raw. ex_wire raw = Some (Request ex_did f)" by (intro exI [of _ "1 # xs"]) (simp add: ex_wire_def)
next
  fix ds
  assume "set ds \<subseteq> ex_deltas"
  then have "\<forall>d\<in>set ds. \<exists>b. d = ex_pick b" using ex_pick_surj by blast
  then obtain xs where "ds = map ex_pick xs" using ex_map_conv [of ds ex_pick] by blast
  then show "\<exists>raw. ex_wire raw = Some (Deltas ex_did ds)" by (intro exI [of _ "2 # xs"]) (simp add: ex_wire_def)
qed

lemma ex_identity_ok: "identity_ok ex_externs ex_deltas"
  unfolding identity_ok_def
proof (intro conjI)
  show "one_key_per_id ex_deltas" by (auto simp: one_key_per_id_def op_vms_def ex_update_def ex_service_def)
  show "\<forall>x\<in>ex_deltas. \<forall>y\<in>ex_deltas. sd_parents x = [] \<longrightarrow> sd_parents y = [] \<longrightarrow> payload x = payload y"
    by (simp add: ex_update_def ex_service_def)
qed (rule ex_crdts_laws ex_pair_free)+

lemmas ex_service_merge = merge_applied [OF ex_service_fresh ex_service_admissible]

text \<open>A client creates the identity at a node and submits one update there.\<close>

lemma ex_create:
  assumes "as_live (nw_node z n)"
  shows "\<exists>es h. net_step ex_clients ex_wire id ex_externs ex_snapshots z
      (post z n (put_docs (nw_node z n) (fmupd ex_did ex_doc (as_docs (nw_node z n)))) es) \<and>
    Announce ex_did h hlc_default \<in> sent es"
proof -
  obtain rr where rr: "resolve ex_externs ex_doc = Inr rr" using ex_resolves by blast
  have i: "doc_did ex_doc = ex_did" by (simp add: ex_doc_def apply_delta_history doc_blank_def)
  obtain h where h: "doc_content_hash ex_externs ex_doc = Inr h"
    by (simp add: doc_content_hash_def ex_externs_def ref_externs_def)
  let ?st = "put_docs (nw_node z n) (fmupd ex_did ex_doc (as_docs (nw_node z n)))"
  obtain r es where r: "serve ex_wire id ex_externs ex_snapshots (PostDids ''ubbb'' :: unit event) (nw_node z n) = (Some r, es, ?st)"
    "announce_effects ex_externs ?st ex_did = [BroadcastAnnounce (Announce ex_did h hlc_default)]"
    "set (announce_effects ex_externs ?st ex_did) \<subseteq> set es"
    using assms by (simp add: create_did_def ex_new rr i Let_def announce_effects_def node_announce_def h put_docs_def)
  then have "Announce ex_did h hlc_default \<in> sent es" by (auto simp: sent_def)
  with net_request [OF _ r(1), of ex_clients] show ?thesis by blast
qed

lemma ex_submit:
  assumes "doc_at z n ex_did = Some ex_doc" "d \<in> {ex_update, ex_service}"
  shows "\<exists>es. net_step ex_clients ex_wire id ex_externs ex_snapshots z
      (post z n (put_docs (nw_node z n) (fmupd ex_did (apply_delta ex_externs ex_doc d) (as_docs (nw_node z n)))) es)"
proof -
  have d: "oversized ex_externs d = None" "sd_did d = ex_did" "doc_missing_parents ex_doc d = []"
    "verify_signature ex_externs d ex_doc = Inr ()" "merge ex_externs ex_doc d = (Inr (), apply_delta ex_externs ex_doc d)"
  proof -
    have "verify_causal ex_service (doc_dag ex_doc) = Valid"
      by (simp add: ex_doc_dag verify_causal_def scan_closure_def ex_service_def push_parents_def note_op_def)
    then show "doc_missing_parents ex_doc d = []" using assms(2) ex_causal by (auto simp: doc_missing_parents_def)
    show "oversized ex_externs d = None" "sd_did d = ex_did"
      using assms(2) by (auto simp: oversized_def ex_update_def ex_service_def str_bytes_def MAX_DELTA_SIZE_def)
    show "verify_signature ex_externs d ex_doc = Inr ()" using assms(2) ex_verify ex_service_verify by blast
    show "merge ex_externs ex_doc d = (Inr (), apply_delta ex_externs ex_doc d)"
      using assms(2) ex_merge ex_service_merge by blast
  qed
  obtain r es where "serve ex_wire id ex_externs ex_snapshots (PostDelta (did_to_string ex_did) d :: unit event) (nw_node z n) =
      (Some r, es, put_docs (nw_node z n) (fmupd ex_did (apply_delta ex_externs ex_doc d) (as_docs (nw_node z n))))"
    using assms(1) d by (simp add: submit_delta_def Let_def)
  from net_request [OF _ this, of ex_clients] show ?thesis by blast
qed

lemma ex_grow:
  assumes "as_live (nw_node z n)" "d \<in> {ex_update, ex_service}"
  shows "\<exists>z' h. ex_run z z' \<and> only_at n z z' \<and> doc_at z' n ex_did = Some (apply_delta ex_externs ex_doc d) \<and>
    ln_gossip (as_node (nw_node z' n)) = ln_gossip (as_node (nw_node z n)) \<and> Announce ex_did h hlc_default \<in> nw_air z'"
proof -
  obtain es h where 1: "net_step ex_clients ex_wire id ex_externs ex_snapshots z
      (post z n (put_docs (nw_node z n) (fmupd ex_did ex_doc (as_docs (nw_node z n)))) es)"
    (is "net_step _ _ _ _ _ z ?z1") and an: "Announce ex_did h hlc_default \<in> sent es" using ex_create [OF assms(1)] by blast
  have "doc_at ?z1 n ex_did = Some ex_doc" by (simp add: put_docs_def)
  from ex_submit [OF this assms(2)] obtain es' where 2: "net_step ex_clients ex_wire id ex_externs ex_snapshots ?z1
      (post ?z1 n (put_docs (nw_node ?z1 n) (fmupd ex_did (apply_delta ex_externs ex_doc d) (as_docs (nw_node ?z1 n)))) es')"
    (is "net_step _ _ _ _ _ _ ?z2") by blast
  have "ex_run z ?z2" using 1 2 by (meson converse_rtranclp_into_rtranclp rtranclp.rtrancl_refl)
  moreover have "only_at n z ?z2" by (auto simp: only_at_def put_docs_def)
  moreover have "doc_at ?z2 n ex_did = Some (apply_delta ex_externs ex_doc d)"
    "ln_gossip (as_node (nw_node ?z2 n)) = ln_gossip (as_node (nw_node z n))" "Announce ex_did h hlc_default \<in> nw_air ?z2"
    using an by (simp_all add: put_docs_def)
  ultimately show ?thesis by blast
qed

lemma ex_net_fresh [simp]:
  "as_docs (nw_node ex_net n) = fmempty" "as_live (nw_node ex_net n)"
  "gossip_seen (ln_gossip (as_node (nw_node ex_net n))) = {||}" "wants (ln_policy (as_node (nw_node ex_net n))) i"
  by (simp_all add: ex_net_def start_def live_bind_def gossip_new_def wants_def replicate_all_def)

lemma ex_seen_deltas: "set (doc_delta_log ex_a) \<subseteq> ex_deltas" "set (doc_delta_log ex_b) \<subseteq> ex_deltas"
  by (simp_all add: ex_logs)

lemma ex_held: "delta_id ex_externs ex_update \<in> held_ids ex_a" "delta_id ex_externs ex_service \<in> held_ids ex_b"
  by (simp_all add: apply_delta_history dag_contains_get dag.get_put)

text \<open>Both nodes create the identity and accept different updates.\<close>

lemma ex_apart:
  "\<exists>z. ex_run ex_net z \<and> (\<forall>n. as_live (nw_node z n) \<and> unheard ex_did z n) \<and>
     doc_at z True ex_did = Some ex_a \<and> doc_at z False ex_did = Some ex_b"
proof -
  obtain z1 h where 1: "ex_run ex_net z1" "only_at True ex_net z1" "doc_at z1 True ex_did = Some ex_a"
    "ln_gossip (as_node (nw_node z1 True)) = ln_gossip (as_node (nw_node ex_net True))" "Announce ex_did h hlc_default \<in> nw_air z1"
    using ex_grow [OF ex_net_fresh(2) insertI1, of True] by blast
  have live: "as_live (nw_node z1 n)" for n using 1(2) by (cases n) (auto simp: only_at_def)
  obtain z2 where 2: "ex_run z1 z2" "only_at False z1 z2" "doc_at z2 False ex_did = Some ex_b"
    "ln_gossip (as_node (nw_node z2 False)) = ln_gossip (as_node (nw_node z1 False))"
    using ex_grow [OF live, of ex_service False] by blast
  have same: "nw_node z2 True = nw_node z1 True" "nw_node z1 False = nw_node ex_net False" "nw_air z1 \<subseteq> nw_air z2"
    using 1(2) 2(2) by (auto simp: only_at_def)
  have "gossip_seen (ln_gossip (as_node (nw_node z2 n))) = {||}" for n
    by (cases n) (simp_all add: same 1(4) 2(4))
  then have "unheard ex_did z2 n" for n using 1(5) same(3) by (auto simp: unheard_def)
  moreover have "as_live (nw_node z2 n)" for n using live 2(2) same(1) by (cases n) (auto simp: only_at_def)
  moreover have "ex_run ex_net z2" by (rule rtranclp_trans [OF 1(1) 2(1)])
  ultimately show ?thesis using 1(3) 2(3) same(1) by auto
qed

theorem mesh_converges_witness:
  "\<exists>z z' a b. ex_run ex_net z \<and> doc_at z True ex_did = Some ex_a \<and> doc_at z False ex_did = Some ex_b \<and>
     (delivery ex_wire ex_externs)\<^sup>*\<^sup>* z z' \<and> doc_at z' True ex_did = Some a \<and> doc_at z' False ex_did = Some b \<and>
     {delta_id ex_externs ex_update, delta_id ex_externs ex_service} \<subseteq> held_ids a \<inter> held_ids b \<and>
     resolve ex_externs a = resolve ex_externs b"
proof -
  obtain z where z: "ex_run ex_net z" "\<forall>n. as_live (nw_node z n) \<and> unheard ex_did z n"
    "doc_at z True ex_did = Some ex_a" "doc_at z False ex_did = Some ex_b" using ex_apart by (elim exE conjE) (rule that)
  let ?f = "\<lambda>n. if n then ex_a else ex_b"
  have docs: "\<forall>n\<in>UNIV. as_live (nw_node z n) \<and> unheard ex_did z n \<and> doc_at z n ex_did = Some (?f n) \<and>
      set (doc_delta_log (?f n)) \<subseteq> ex_deltas"
  proof
    show "as_live (nw_node z n) \<and> unheard ex_did z n \<and> doc_at z n ex_did = Some (?f n) \<and> set (doc_delta_log (?f n)) \<subseteq> ex_deltas" for n
      using z(2) [THEN spec, of n] z(3,4) ex_seen_deltas by (cases n) simp_all
  qed
  have fresh: "\<forall>n. as_docs (nw_node ex_net n) = fmempty" by simp
  from mesh_converges [OF ex_identity_ok ex_stamps_ok ex_wire_ok fresh z(1) finite docs]
  obtain z' f' where z': "(delivery ex_wire ex_externs)\<^sup>*\<^sup>* z z'"
    "\<forall>n\<in>UNIV. doc_at z' n ex_did = Some (f' n) \<and> authentic ex_externs (f' n) \<and> held_ids (f' n) = (\<Union>m\<in>UNIV. held_ids (?f m))"
    "\<forall>n\<in>UNIV. \<forall>m\<in>UNIV. resolve ex_externs (f' n) = resolve ex_externs (f' m) \<and>
      doc_content_hash ex_externs (f' n) = doc_content_hash ex_externs (f' m)"
    by (elim exE conjE) (rule that)
  have at: "doc_at z' n ex_did = Some (f' n)" "held_ids (f' n) = (\<Union>m\<in>UNIV. held_ids (?f m))" for n
    using z'(2) [THEN bspec, OF UNIV_I [of n]] by blast+
  have "held_ids ex_a \<union> held_ids ex_b \<subseteq> (\<Union>m\<in>UNIV. held_ids (?f m))" by (auto intro: exI [of _ True] exI [of _ False])
  then have "delta_id ex_externs ex_update \<in> held_ids (f' n)" "delta_id ex_externs ex_service \<in> held_ids (f' n)" for n
    unfolding at(2) using ex_held by blast+
  moreover have "resolve ex_externs (f' True) = resolve ex_externs (f' False)"
    using z'(3) [THEN bspec, OF UNIV_I [of True], THEN bspec, OF UNIV_I [of False]] by blast
  ultimately show ?thesis
    using z(1,3,4) z'(1) at(1) by (intro exI [of _ z] exI [of _ z'] exI [of _ "f' True"] exI [of _ "f' False"]) blast
qed

theorem nodes_agree_witness:
  "\<exists>z a b. ex_run ex_net z \<and> doc_at z True ex_did = Some a \<and> doc_at z False ex_did = Some b \<and>
     {delta_id ex_externs ex_update, delta_id ex_externs ex_service} \<subseteq> held_ids a \<inter> held_ids b \<and>
     resolve ex_externs a = resolve ex_externs b \<and> doc_content_hash ex_externs a = doc_content_hash ex_externs b"
proof -
  obtain z where z: "ex_run ex_net z" "\<forall>n. as_live (nw_node z n) \<and> unheard ex_did z n"
    "doc_at z True ex_did = Some ex_a" "doc_at z False ex_did = Some ex_b" using ex_apart by (elim exE conjE) (rule that)
  have fresh: "\<forall>n. as_docs (nw_node ex_net n) = fmempty" by simp
  have at: "hosts ex_externs ex_did ex_deltas z True ex_a" "hosts ex_externs ex_did ex_deltas z False ex_b"
    using z(2,3,4) fresh_replica [OF fresh z(1) z(3) ex_seen_deltas(1)] fresh_replica [OF fresh z(1) z(4) ex_seen_deltas(2)]
    unfolding hosts_def by blast+
  let ?f = "\<lambda>n. if n then ex_a else ex_b"
  have all: "set [True, False] = UNIV" by auto
  have "\<exists>z' f'. (delivery ex_wire ex_externs)\<^sup>*\<^sup>* z z' \<and>
      (\<forall>n\<in>set [True, False]. hosts ex_externs ex_did ex_deltas z' n (f' n) \<and> held_ids (f' n) = held_ids ex_a \<union> held_ids ex_b)"
  proof (rule all_catch_up [OF ex_identity_ok ex_wire_ok _ _ subset_refl, where f = ?f])
    show "\<forall>n\<in>set [True, False]. unheard ex_did z n" using z(2) by blast
    show "\<forall>n\<in>set [True, False]. hosts ex_externs ex_did ex_deltas z n (?f n)" using at by simp
    show "(\<Union>n\<in>set [True, False]. held_ids (?f n)) = held_ids ex_a \<union> held_ids ex_b" by simp
  qed simp_all
  then obtain z' f' where z': "(delivery ex_wire ex_externs)\<^sup>*\<^sup>* z z'"
    "\<And>n. hosts ex_externs ex_did ex_deltas z' n (f' n) \<and> held_ids (f' n) = held_ids ex_a \<union> held_ids ex_b" unfolding all by blast
  have at': "doc_at z' n ex_did = Some (f' n)" "set (doc_delta_log (f' n)) \<subseteq> ex_deltas" "held_ids (f' n) = held_ids ex_a \<union> held_ids ex_b" for n
    using z'(2) [of n] unfolding hosts_def replica_of_def by blast+
  have run: "ex_run ex_net z'" by (rule rtranclp_trans [OF z(1) delivery_run [OF z'(1)]])
  have "set (doc_delta_log (f' True)) \<union> set (doc_delta_log (f' False)) \<subseteq> ex_deltas" using at'(2) by blast
  from nodes_agree [OF ex_identity_ok ex_stamps_ok fresh run at'(1) at'(1) this trans [OF at'(3) at'(3) [symmetric]]]
  have "resolve ex_externs (f' True) = resolve ex_externs (f' False)"
    "doc_content_hash ex_externs (f' True) = doc_content_hash ex_externs (f' False)" by blast+
  moreover have "delta_id ex_externs ex_update \<in> held_ids (f' n)" "delta_id ex_externs ex_service \<in> held_ids (f' n)" for n
    unfolding at'(3) using ex_held by blast+
  ultimately show ?thesis
    using run at'(1) by (intro exI [of _ z'] exI [of _ "f' True"] exI [of _ "f' False"]) blast
qed

theorem bootstrap_completes_witness:
  "\<exists>z z' a. ex_run ex_net z \<and> doc_at z False ex_did = None \<and> (delivery ex_wire ex_externs)\<^sup>*\<^sup>* z z' \<and>
     doc_at z' False ex_did = Some a \<and> delta_id ex_externs ex_update \<in> held_ids a \<and>
     resolve ex_externs a = resolve ex_externs ex_a"
proof -
  obtain z1 h where 1: "ex_run ex_net z1" "only_at True ex_net z1" "doc_at z1 True ex_did = Some ex_a"
    using ex_grow [OF ex_net_fresh(2) insertI1, of True] by blast
  have other: "nw_node z1 False = nw_node ex_net False" and live: "as_live (nw_node z1 True)"
    using 1(2) by (auto simp: only_at_def)
  let ?z = "receive ex_wire ex_externs z1 False [3]"
  have raw: "ex_wire [3] = Some (Announce ex_did [] hlc_default)" by (simp add: ex_wire_def)
  have z: "doc_at ?z False ex_did = None" "Request ex_did [] \<in> nw_air ?z" "doc_at ?z True ex_did = Some ex_a"
    "as_live (nw_node ?z False)" "as_live (nw_node ?z True)" "wants (ln_policy (as_node (nw_node ?z False))) ex_did"
    using 1(3) live ex_net_fresh [of False]
    by (simp_all add: receive_def other run_loop_step_def raw handle_def mark_seen_def)
  have run: "ex_run ex_net ?z" using 1(1) net_inject by (rule rtranclp.rtrancl_into_rtrancl)
  have fresh: "\<forall>n. as_docs (nw_node ex_net n) = fmempty" by simp
  from bootstrap_completes [OF ex_identity_ok ex_stamps_ok ex_wire_ok fresh run z(4,5,1,6,2,3) ex_seen_deltas(1)]
  obtain z' a where "(delivery ex_wire ex_externs)\<^sup>*\<^sup>* ?z z'" "doc_at z' False ex_did = Some a" "held_ids a = held_ids ex_a"
    "resolve ex_externs a = resolve ex_externs ex_a" by blast
  with run z(1) ex_held(1) show ?thesis by blast
qed

end
