(* ===== verification/Spec2Isabelle.thy ===== *)
theory Spec2Isabelle
  imports Interleave Metrics Server Mesh
begin

text \<open>
  A verification of did-crdt, an implementation of the \<open>did:crdt\<close> method: DID documents that are
  replicated without a coordinator.  Every change of a document is a signed delta that names its
  causal predecessors by content hash; replicas exchange deltas by gossip, admit each one on the
  evidence of its causal past, and fold it into conflict-free replicated fields from which a W3C
  DID document is resolved.

  \<^bold>\<open>Parts and theories.\<close>
  \<^item> \<open>Prelude\<close>: words, lists, finite maps, and the locale \<open>join_semilattice\<close> of a merge operation
    with the lemma that merging the same set of states in any order gives the same state; the locale
    \<open>step_invariant\<close> of a step relation with an invariant.
  \<^item> \<open>Hlc\<close> (\<open>core/hlc.rs\<close>): hybrid logical timestamps and the clock, on 64- and 32-bit words.
  \<^item> \<open>Types\<close>: the data types of \<open>core/delta.rs\<close>, \<open>core/crdt.rs\<close> and the errors of \<open>core/mod.rs\<close>.
    \<open>Externs\<close>: the third-party code as one record of functions, with what the sources rely on.
  \<^item> \<open>Did\<close> (\<open>core/did.rs\<close>): parsing and printing of identifiers.
  \<^item> \<open>Delta\<close> (\<open>core/delta.rs\<close>): canonical JSON, signing input, content hash, signing, dates.
  \<^item> \<open>Crdt\<close> (\<open>core/crdt.rs\<close>): the replicated fields; each merge is an interpretation of
    \<open>join_semilattice\<close>.
  \<^item> \<open>Dag\<close> (\<open>core/dag.rs\<close>): the delta DAG and its traversals; the locale \<open>delta_store\<close> is the
    interface of a store of deltas by hash, interpreted on the DAG.
  \<^item> \<open>Admission\<close>, \<open>Causal\<close>, \<open>Recon\<close>, \<open>Validate\<close> (the files of these names under \<open>core\<close>): the
    three-valued admission result, the decision on the causal past, closure transfer, signatures.
  \<^item> \<open>DocState\<close>, \<open>Topo\<close>, \<open>Document\<close>, \<open>Resolve\<close>, \<open>Projection\<close> (\<open>core/document.rs\<close>,
    \<open>core/resolve.rs\<close>): the document, its creation, merges, bundles, loading and resolution.
  \<^item> \<open>Replica\<close>, \<open>Convergence\<close>, \<open>Eventual\<close>: the invariant of reachable documents, and convergence
    of replicas as a consequence of all of the above.  \<open>Authentic\<close>: histories in which every delta
    was verified when it was applied, and why another replica can verify them again.
  \<^item> \<open>Gossip\<close> (\<open>sync/protocol.rs\<close>, \<open>sync/gossip.rs\<close>, the loop of \<open>sync/live.rs\<close>): messages, the
    admission policy for unknown identifiers, routing, genesis bootstrap, inbound merges.
  \<^item> \<open>Store\<close> (\<open>sync/store.rs\<close>): the snapshot store.  \<open>Dht\<close> (\<open>sync/dht.rs\<close>): peer discovery.
  \<^item> \<open>Live\<close> (\<open>GossipEngine\<close> of \<open>sync/gossip.rs\<close>, \<open>sync/live.rs\<close>): the engine over a transport that may
    fail, the message loop over it, and the cold start of an unknown identifier against a clock.
  \<^item> \<open>Service\<close> (\<open>service/handlers.rs\<close>, the state of \<open>service/server.rs\<close>): the HTTP handlers as
    functions from the state to a response, the effects in order, and the new state; and the service
    as a sequence of requests and gossip payloads.
  \<^item> \<open>Metrics\<close> (\<open>service/metrics.rs\<close>): the metric families, their registration and their updates.
  \<^item> \<open>Tasks\<close>, \<open>Interleave\<close>: the service as concurrent tasks.  A step is a part of a handler or of the
    message loop under the lock of the store, or one step of a save: the snapshot, the write of the
    blob, the tag.  Invariants of it are interpretations of \<open>step_invariant\<close>.
  \<^item> \<open>Mesh\<close>: any number of services on one gossip topic.  A step is a request of a client at a node or
    any payload at any node; an honest network delivers what was broadcast, in any order, any number
    of times or never.
  \<^item> \<open>Server\<close> (\<open>service/server.rs\<close>, \<open>bin\<close>, the refresh of \<open>sync/dht.rs\<close>): configuration from the
    environment, peer addresses, routes, the start of the server with each of its failures,
    publication at the start and its refresh, the relay of the tests.

  \<^bold>\<open>How state and operations correspond.\<close>  A struct is a record and an enum a datatype with the
  constructors of the source; a \<open>HashMap\<close> is a finite map, a set a finite set, and where the code
  iterates over one the order is either sorted, as in the code, or shown to be irrelevant.  A method
  with \<open>&mut self\<close> returns the new value; \<open>Result\<close> is a sum with the error on the left, with one
  constructor for each message the code formats; a panic is \<open>None\<close>.  Strings are lists of bytes.

  \<^bold>\<open>What is shown.\<close>
  \<^item> Safety of admission: a delta changes a document only when it is of the right identifier,
    within the size limit, canonical, with a complete causal past that holds neither a revocation of
    its signer nor a deactivation; through the verified paths only with a signature that verifies
    under a key of the document.  Bundles, inbound batches and HTTP submissions inherit this, are all
    or nothing, and never panic.
  \<^item> Decisions: the causal decision is exact on every branch, agrees between replicas that hold the
    past of a delta, and is never reversed for deltas with predecessors.
  \<^item> Convergence: replicas that applied the same deltas in any admissible orders agree in every
    replicated field, the frontier, the hash and the resolution; exchanging histories always succeeds;
    one gossip round brings a node up to the union of both histories.
  \<^item> The whole network: whatever clients and attackers send, every document of every node keeps an
    authentic history, and nodes that hold the same deltas answer alike; deliveries of the nodes' own
    messages bring any number of them to the union of what they held, and bring a node that wants an
    identity and holds nothing to the document of a holder.
  \<^item> Refinement: the services of a document are those that its history adds and does not remove; the
    snapshot store is a map from identifiers to documents; a restarted service holds what the previous
    one held in memory.
  \<^item> Concurrency: under every interleaving the documents in memory are well formed and a restart
    recovers a beginning of what memory holds; when the saves of an identifier do not overlap, nothing
    is lost.
  \<^item> Operation: a failing transport loses no inbound delta; a cold start ends, within its budget and
    one lookup, and withdraws its solicitation; the counters count the answers; a configuration is
    read back from its variables; a server with a storage path does not run without it; after the
    publication at the start every held identifier leads to the node.
  \<^item> Resolution publishes exactly the unrevoked authority and a key that proves the identifier.
  \<^item> Flaws, each with a theorem: a repeated creation request discards the held document; an alias
    change may not be announced; the clock wraps; a shadowed key id; a rootless decision that changes;
    overlapping saves leave an older snapshot on disk; a failed request is not repeated; one silent
    peer uses up a cold start.

  Where a comment or a specification of the repository contradicts the code, definitions and theorems
  follow the code.  The limitation stated at \<open>Document::merge_state\<close> and in SPEC-036, that replaying
  removals does not converge, is gone: a removal acts on the additions of its causal past.  The
  comment at \<open>Document::merge\<close> that a deactivated document rejects every delta is superseded by
  causal admission, which admits concurrent ones.  The URIs of an alias set are called distinct, and
  the recogniser accepts repeated ones.

  \<^bold>\<open>Loops.\<close>  No fuel is used.  Traversals of the DAG terminate because each step marks a hash that
  is held or leaves one less on the stack; the topological sort empties its queue; the retry loop of
  the inbound merge needs progress in every pass; the polling and the rounds of a cold start end because
  every sleep moves the clock towards the deadline.  Each is a \<open>function\<close> with its termination proof.

  \<^bold>\<open>Hypotheses.\<close>  \<open>crdts_laws\<close>: the registers and sets of the crdts crate.  \<open>blake3_laws\<close>: length of
  a hash and its hexadecimal form.  \<open>json_laws\<close>: unambiguous scalars in JSON.  \<open>collision_free\<close>: no two
  of the deltas at hand have one hash.  \<open>stamps_ok\<close>: a timestamp identifies a write, without which
  last-writer-wins registers with equal timestamps can differ between replicas.  \<open>blob_laws\<close>,
  \<open>snapshot_laws\<close>, \<open>dht_laws\<close>: the blob store, the snapshot serialiser, the DHT and text forms.
  \<open>blob_fail_laws\<close>: a failed write or tag leaves the rest of the blob store as it was.  \<open>relay_keeps\<close>: a
  publication leaves the records of other keys.  \<open>prom_laws\<close>: the prometheus registry and its counters.
  \<open>timely\<close>: bounds of a lookup and of the lateness of a timer.  \<open>identity_ok\<close>: for the deltas of
  one identity, \<open>crdts_laws\<close>, no collision, one key for each key id, and one creation.  \<open>wire_ok\<close>:
  the decoder reads every message about those deltas from some payload.  Each is
  shown to be satisfiable on a concrete instance in the witnesses.

  \<^bold>\<open>Not modelled.\<close>  The network itself: endpoints and connections, the swarm of the gossip crate, sockets
  and the delivery of signals; where the code depends on their outcome they are parameters that may
  fail; in \<open>Mesh\<close> it is a relation that delivers broadcast messages, without topology or timing.  The HTTP framework, the prometheus text format and the DNS packets of pkarr are third
  party.  The anchoring trait has no implementation.  The JSON text of a resolution is modelled by its
  member names.  In the interleavings a cold start is the two steps on its wanted set and the payloads
  that arrive meanwhile; its timing is the subject of \<open>Live\<close>.
\<close>

section \<open>The key that proves an identifier\<close>

text \<open>A held key entry from which the identifier derives.\<close>

definition genesis_held :: "externs \<Rightarrow> did \<Rightarrow> verification_methods \<Rightarrow> bool" where
  "genesis_held E i vms \<longleftrightarrow> (\<exists>e. e |\<in>| vms \<and> derive_did E (vme_public_key_multibase e) = Inr i)"

lemma genesis_held_mono: "genesis_held E i vms \<Longrightarrow> vms |\<subseteq>| vms' \<Longrightarrow> genesis_held E i vms'"
  by (auto simp: genesis_held_def)

lemma doc_new_genesis_held:
  assumes "crdts_laws E" "doc_new E pk = Inr (doc, creation)"
  shows "genesis_held E (doc_did doc) (doc_verification_methods doc)"
  using assms(2)
  by (auto simp: doc_new_def Let_def dag_insert_put genesis_held_def apply_op_def vm_insert_def doc_blank_def
      crdts_simps [OF assms(1)] split: sum.splits)

lemma find_SomeI: "\<exists>x\<in>set xs. P x \<Longrightarrow> \<exists>y. find P xs = Some y \<and> P y"
  by (induction xs) auto

lemma genesis_held_found:
  assumes "crdts_laws E" "genesis_held E (doc_did doc) (doc_verification_methods doc)"
  shows "\<exists>k. genesis_public_key_multibase E doc = Some k \<and> derive_did E k = Inr (doc_did doc)"
  using assms(2) find_SomeI [of "vm_entries E (doc_verification_methods doc)"
      "\<lambda>e. derive_did E (vme_public_key_multibase e) = Inr (doc_did doc)"]
  unfolding genesis_held_def genesis_public_key_multibase_def vm_entries_set(1) [OF assms(1)] by auto

lemma doc_reach_genesis:
  assumes "doc_reach E doc" "crdts_laws E"
  shows "genesis_held E (doc_did doc) (doc_verification_methods doc)"
  using assms(1)
proof (induction rule: doc_reach.induct)
  case (reach_new pk doc creation)
  then show ?case by (rule doc_new_genesis_held [OF assms(2)])
next
  case (reach_merge doc d r doc')
  then show ?case
    using genesis_held_mono [OF reach_merge.IH merge_vms [OF assms(2), of doc d]]
    by (cases rule: merge_cases [of E doc d]) (auto simp: doc_simps)
next
  case (reach_merge_verified doc d r doc')
  then show ?case
    using genesis_held_mono [OF reach_merge_verified.IH merge_vms [OF assms(2), of doc d]]
    by (cases rule: merge_verified_delta_cases [of E doc d]; cases rule: merge_cases [of E doc d])
      (auto simp: doc_simps)
next
  case (reach_bundle doc b r doc')
  have "doc_ok E doc" using doc_reach_inv [OF reach_bundle.hyps(1) assms(2)] by blast
  from merge_verified_bundle_spec [OF this, of b] reach_bundle
  consider "doc' = doc" | "verified_chain E (set (cb_deltas b)) doc doc'"
    by (auto split: sum.splits)
  then show ?case
  proof cases
    case 2
    then have "doc_did doc' = doc_did doc" by (induction rule: verified_chain.induct) (auto simp: doc_simps)
    then show ?thesis using genesis_held_mono [OF reach_bundle.IH verified_chain_vms [OF 2 assms(2)]] by simp
  qed (use reach_bundle in simp)
next
  case (reach_state doc other r doc')
  then show ?case
    using genesis_held_mono [of E "doc_did doc" "doc_verification_methods doc"
        "doc_verification_methods doc |\<union>| doc_verification_methods other"]
    by (auto simp: merge_state_def vm_merge_def crdts_simps [OF assms(2)] split: prod.splits if_splits)
next
  case (reach_load doc doc')
  then show ?case using try_from_repr doc_reach_inv [OF reach_load.hyps(1) assms(2)] by blast
qed

section \<open>Properties\<close>

text \<open>
  Replicas that exchanged their histories answer a resolution alike: the same document or the
  same deactivation, the same version and the same metadata, whatever concurrent changes they had.
\<close>

theorem exchange_resolves:
  assumes "crdts_laws E" "op_reach E a" "op_reach E b" "payload (genesis_of a) = payload (genesis_of b)"
    "stamps_ok E (payload ` (set (doc_delta_log a) \<union> set (doc_delta_log b)))"
    "collision_free E (set (doc_delta_log a) \<union> set (doc_delta_log b))"
  shows "resolve E (deliver E (tl (doc_delta_log b)) a) = resolve E (deliver E (tl (doc_delta_log a)) b)"
  by (rule resolve_replicated) (use exchange_replicated [OF assms] in blast)

theorem exchange_resolves_witness:
  "resolve ex_externs (deliver ex_externs [ex_service] ex_a) = resolve ex_externs (deliver ex_externs [ex_update] ex_b)"
proof -
  have "set (doc_delta_log ex_a) \<union> set (doc_delta_log ex_b) = {ex_creation, ex_update, ex_service}"
    by (auto simp: ex_logs)
  then show ?thesis
    using exchange_resolves [OF ex_crdts_laws ex_a_reach ex_b_reach] ex_stamps_ok ex_pair_free
    by (simp add: genesis_of_def ex_logs)
qed

text \<open>
  C27: Every reachable document can prove its identifier.  However it was merged, synchronised,
  saved and loaded, and even when the creation key is revoked or the document deactivated, a
  resolution publishes a genesis key, and the identifier derives from the published key.
\<close>

theorem genesis_key_published:
  assumes "doc_reach E doc" "crdts_laws E" "resolve E doc = Inr r"
  shows "\<exists>k. ddm_genesis_public_key_multibase (rr_did_document_metadata r) = Some k \<and>
    derive_did E k = Inr (doc_did doc)"
proof -
  have "ddm_genesis_public_key_multibase (rr_did_document_metadata r) = genesis_public_key_multibase E doc"
    using assms(3) by (auto simp: resolve_def Let_def split: option.splits)
  with genesis_held_found [OF assms(2) doc_reach_genesis [OF assms(1,2)]] show ?thesis by simp
qed

theorem genesis_key_published_witness:
  "\<exists>r k. resolve ex_externs ex_doc = Inr r \<and>
     ddm_genesis_public_key_multibase (rr_did_document_metadata r) = Some k \<and>
     derive_did ex_externs k = Inr (doc_did ex_doc)"
proof -
  obtain r where "resolve ex_externs ex_doc = Inr r"
    by (simp add: resolve_def Let_def ex_externs_def ref_externs_def)
  with genesis_key_published [OF ex_reach ex_crdts_laws this] show ?thesis by blast
qed

lemma alias_update_hash:
  assumes "sd_op d = SetAlsoKnownAs uris" "doc_updated_ms doc = Some t" "wall_ms (sd_timestamp d) \<le> t"
  shows "doc_content_hash E (apply_delta E doc d) = doc_content_hash E doc"
  using assms by (simp add: doc_content_hash_def apply_delta_def apply_op_def touch_def Let_def not_less [symmetric])

lemma handle_seen: "fst (handle E (snd (snd (handle E st (Announce i h c) docs policy))) (Announce i h c') docs' policy') = []"
proof -
  have "(i, h) |\<in>| gossip_seen (snd (snd (handle E st (Announce i h c) docs policy)))"
    by (auto simp: handle_def mark_seen_def split: option.splits bool.splits)
  then show ?thesis by (simp add: handle_def mark_seen_def)
qed

text \<open>
  C40: A late alias update does not spread by announcements.  When a document merges an alias change
  whose wall time is not beyond its last update, its announcement stays the same, because the
  content hash covers every replicated field except the aliases; a peer that has seen the earlier
  announcement does not ask for the change.
\<close>

theorem alias_update_unannounced:
  assumes "merge E doc d = (Inr (), doc')" "sd_op d = SetAlsoKnownAs uris" "doc_updated_ms doc = Some t"
    "wall_ms (sd_timestamp d) \<le> t" "node_announce E (fmupd i doc docs) i = Some (Announce i h c)"
  shows "node_announce E (fmupd i doc' docs) i = Some (Announce i h c) \<and>
    fst (handle E (snd (snd (handle E st (Announce i h c) held policy))) (Announce i h c) held' policy) = []"
proof -
  have "doc_content_hash E doc' = doc_content_hash E doc"
    using assms(1) alias_update_hash [OF assms(2-4)] by (cases rule: merge_cases [of E doc d]) auto
  with assms(5) show ?thesis by (simp add: node_announce_def handle_seen)
qed

definition ex_alias :: signed_delta where
  "ex_alias = ex_update\<lparr>sd_timestamp := HlcTimestamp 3 0 0x626262, sd_op := SetAlsoKnownAs [''a:b'']\<rparr>"

lemma ex_alias_merge: "merge ex_externs ex_a ex_alias = (Inr (), apply_delta ex_externs ex_a ex_alias)"
proof (rule merge_applied)
  have dag: "doc_dag ex_a = dag_put ex_externs (doc_dag ex_doc) ex_update" by (simp add: apply_delta_history)
  show "\<not> dag_contains (doc_dag ex_a) (delta_id ex_externs ex_alias)"
    unfolding dag dag_contains_get dag.get_put
    by (simp add: ex_doc_dag dag_get_def ex_alias_def ex_update_def)
  have "verify_causal ex_alias (doc_dag ex_doc) = Valid"
    by (simp add: ex_doc_dag verify_causal_def scan_closure_def ex_alias_def ex_update_def push_parents_def note_op_def)
  then have "verify_causal ex_alias (doc_dag ex_a) = Valid"
    unfolding dag by (rule verify_causal_grows [OF _ _ dag_le_put]) (simp add: ex_alias_def ex_update_def)
  moreover have "doc_did ex_a = ex_did" by (simp add: apply_delta_history ex_doc_def) (simp add: doc_blank_def)
  moreover have "recognise_also_known_as [''a:b''] = Inr ()" by code_simp
  ultimately show "admissible ex_externs ex_a ex_alias"
    unfolding admissible_iff [OF ex_a_reach ex_crdts_laws]
    by (simp add: well_shaped_def ex_alias_def ex_update_def str_bytes_def MAX_DELTA_SIZE_def recognise_op_def)
qed

theorem alias_update_unannounced_witness:
  "doc_aliases (apply_delta ex_externs ex_a ex_alias) \<noteq> doc_aliases ex_a \<and>
   node_announce ex_externs (fmupd ex_did (apply_delta ex_externs ex_a ex_alias) fmempty) ex_did
     = node_announce ex_externs (fmupd ex_did ex_a fmempty) ex_did"
proof -
  obtain h where h: "node_announce ex_externs (fmupd ex_did ex_a fmempty) ex_did = Some (Announce ex_did h hlc_default)"
    by (simp add: node_announce_def doc_content_hash_def ex_externs_def ref_externs_def)
  have t: "doc_updated_ms ex_a = Some 5"
    by (simp add: apply_delta_def apply_op_def touch_def Let_def ex_update_def ex_doc_def doc_blank_def hlc_default_def)
  have "doc_aliases ex_a = []"
    by (simp add: doc_aliases_def apply_delta_def apply_op_def Let_def ex_update_def ex_doc_def doc_blank_def
        aka_new_def aka_entries_def)
  moreover have "doc_aliases (apply_delta ex_externs ex_a ex_alias) = [''a:b'']"
    by (simp add: doc_aliases_def apply_delta_def apply_op_def Let_def ex_update_def ex_doc_def doc_blank_def
        aka_new_def aka_entries_def aka_set_def ex_alias_def hlc_less_iff hlc_default_def ex_externs_def ref_externs_def ref_lww_def sort_dedup_def)
  ultimately show ?thesis
    using alias_update_unannounced [OF ex_alias_merge _ t _ h, where uris = "[''a:b'']"]
    by (simp add: h ex_alias_def)
qed

end
